(* ===== verification/Fixpp_Prelude.thy ===== *)
theory Fixpp_Prelude
  imports Main "HOL-Library.Word" "HOL-Library.Product_Lexorder"
begin

text \<open>
  Shared vocabulary of the development: bytes, ASCII digits, the error codes of
  \<^verbatim>\<open>include/fixpp/core/error.hpp\<close> that the modelled components return, the result
  type \<^verbatim>\<open>expected_t\<close>, buffer updates (\<^verbatim>\<open>memcpy\<close>), and the generic lemmas about
  decimal digits, lists and machine words that the component theories share.

  A \<^verbatim>\<open>std::byte\<close> is a HOL \<^typ>\<open>char\<close>, which is exactly eight bits;
  \<open>byte_val\<close> reads it as an unsigned number.  A \<^verbatim>\<open>std::size_t\<close> is a
  \<^typ>\<open>nat\<close>; where the code's 64-bit arithmetic can wrap, the wrap-around is written
  out with \<open>u64\<close>.
\<close>

named_theorems digit_simps \<open>facts about ASCII decimal digits\<close>
named_theorems buf_simps \<open>facts about buffers, slices and overwriting\<close>

subsection \<open>Errors and results\<close>

text \<open>The codes of \<^verbatim>\<open>fixpp::core::error\<close> that the modelled operations produce.\<close>

datatype error =
    out_of_memory
  | sync_lock_aborted | sync_lock_alloc_failed | sync_lock_drained
  | decimal_invalid_input | decimal_overflow | decimal_precision_loss | decimal_buffer_too_small
  | wire_frame_too_large | wire_invalid_body_length | wire_checksum_mismatch
  | wire_framing_resync | wire_invalid_field_format | wire_offset_table_full
  | wire_group_too_large | wire_tag_out_of_range | wire_required_field_missing
  | wire_field_value_truncated
  | store_io_failure | store_seqnum_gap | store_seqnum_out_of_order | store_capacity_exhausted
  | store_seqnum_overflow | store_visitor_aborted | store_seqnum_invalid | store_invalid_range
  | store_cancelled | store_factory_failed
  | session_invalid_logon | session_compid_mismatch | session_begin_string_unsupported
  | session_seqnum_too_low | session_seqnum_too_high | session_already_closed
  | session_invalid_argument | session_sending_time_accuracy | session_compid_unauthorized
  | invalid_session_config | dict_unknown_appl_ver_id | wire_field_value_out_of_range
  | transport_connect_cancelled | transport_factory_failed | transport_reconnect_limit_exceeded

type_synonym 'a expected_t = "error + 'a"

abbreviation ok :: "'a \<Rightarrow> 'a expected_t" where "ok \<equiv> Inr"
abbreviation unexpected :: "error \<Rightarrow> 'a expected_t" where "unexpected \<equiv> Inl"

subsection \<open>Three-way comparison\<close>

datatype strong_ordering = ord_less | ord_equal | ord_greater

text \<open>The order of the three results, as C++ has it when they are compared with 0.\<close>

fun ordering_rank :: "strong_ordering \<Rightarrow> int" where
  "ordering_rank ord_less = -1"
| "ordering_rank ord_equal = 0"
| "ordering_rank ord_greater = 1"

lemma ordering_rank_inject [simp]: "ordering_rank a = ordering_rank b \<longleftrightarrow> a = b"
  by (cases a; cases b) auto

instantiation strong_ordering :: linorder
begin

definition less_eq_strong_ordering :: "strong_ordering \<Rightarrow> strong_ordering \<Rightarrow> bool" where
  "a \<le> b \<longleftrightarrow> ordering_rank a \<le> ordering_rank b"

definition less_strong_ordering :: "strong_ordering \<Rightarrow> strong_ordering \<Rightarrow> bool" where
  "a < b \<longleftrightarrow> ordering_rank a < ordering_rank b"

instance
  by standard (auto simp: less_eq_strong_ordering_def less_strong_ordering_def)

end

definition three_way :: "'a::linorder \<Rightarrow> 'a \<Rightarrow> strong_ordering" where
  "three_way a b = (if a < b then ord_less else if a = b then ord_equal else ord_greater)"

fun invert_ordering :: "strong_ordering \<Rightarrow> strong_ordering" where
  "invert_ordering ord_less = ord_greater"
| "invert_ordering ord_greater = ord_less"
| "invert_ordering ord_equal = ord_equal"

lemma invert_three_way [simp]: "invert_ordering (three_way a b) = three_way b a"
  by (auto simp: three_way_def)

lemma three_way_iff [simp]:
  "three_way a b = ord_less \<longleftrightarrow> a < b"
  "three_way a b = ord_equal \<longleftrightarrow> a = b"
  "three_way a b = ord_greater \<longleftrightarrow> b < a"
  by (auto simp: three_way_def)

lemma three_way_scale: "0 < c \<Longrightarrow> three_way (a * c) (b * c) = three_way a (b::'a::linordered_field)"
  by (auto simp: three_way_def)

text \<open>A three-way comparison that is the order of a key is a total preorder.\<close>

locale keyed_order =
  fixes carrier :: "'a \<Rightarrow> bool"
    and cmp :: "'a \<Rightarrow> 'a \<Rightarrow> strong_ordering"
    and key :: "'a \<Rightarrow> 'k::linorder"
  assumes cmp_key: "carrier a \<Longrightarrow> carrier b \<Longrightarrow> cmp a b = three_way (key a) (key b)"
begin

lemma cmp_refl: "carrier a \<Longrightarrow> cmp a a = ord_equal"
  by (simp add: cmp_key)

lemma cmp_flip: "carrier a \<Longrightarrow> carrier b \<Longrightarrow> cmp b a = invert_ordering (cmp a b)"
  by (simp add: cmp_key)

lemma cmp_trans:
  "carrier a \<Longrightarrow> carrier b \<Longrightarrow> carrier c \<Longrightarrow> cmp a b \<le> ord_equal \<Longrightarrow> cmp b c \<le> ord_equal \<Longrightarrow>
   cmp a c \<le> ord_equal"
  by (auto simp: cmp_key three_way_def less_eq_strong_ordering_def split: if_splits)

lemma cmp_equal_cong:
  "carrier a \<Longrightarrow> carrier a' \<Longrightarrow> carrier b \<Longrightarrow> cmp a a' = ord_equal \<Longrightarrow> cmp a b = cmp a' b"
  by (simp add: cmp_key)

end

subsection \<open>Bytes and machine sizes\<close>

type_synonym byte = char

abbreviation byte_val :: "byte \<Rightarrow> nat" where "byte_val c \<equiv> of_char c"

abbreviation SOH :: byte where "SOH \<equiv> CHR 0x01"
abbreviation EQ :: byte where "EQ \<equiv> CHR ''=''"

text \<open>The range of \<^verbatim>\<open>std::int64_t\<close>.\<close>

definition INT64_MAX :: int where "INT64_MAX = 9223372036854775807"
definition INT64_MIN :: int where "INT64_MIN = -9223372036854775808"

text \<open>Conversions of an integer to \<^verbatim>\<open>std::uint64_t\<close> and to \<^verbatim>\<open>std::int64_t\<close>.\<close>

definition to_u64 :: "int \<Rightarrow> int" where
  "to_u64 x = x mod 2 ^ 64"

definition to_i64 :: "int \<Rightarrow> int" where
  "to_i64 x = (x + 2 ^ 63) mod 2 ^ 64 - 2 ^ 63"

lemma to_u64_cong: "to_u64 (to_u64 x * to_u64 y + to_u64 z) = to_u64 (x * y + z)"
  unfolding to_u64_def by (metis mod_add_eq mod_mult_eq mod_mod_trivial)

lemma to_i64_to_u64: "to_i64 (to_u64 x) = to_i64 x"
  by (simp only: to_i64_def to_u64_def mod_simps)

lemma to_i64_id: "INT64_MIN \<le> x \<Longrightarrow> x \<le> INT64_MAX \<Longrightarrow> to_i64 x = x"
  by (simp add: to_i64_def INT64_MIN_def INT64_MAX_def)

text \<open>Wrap-around of 64-bit unsigned arithmetic (\<^verbatim>\<open>std::size_t\<close>, \<^verbatim>\<open>std::uint64_t\<close>).\<close>

definition u64 :: "nat \<Rightarrow> nat" where
  "u64 n = n mod 2 ^ 64"

definition u64_sub :: "nat \<Rightarrow> nat \<Rightarrow> nat" where
  "u64_sub a b = (a + (2 ^ 64 - b mod 2 ^ 64)) mod 2 ^ 64"

lemma u64_id [simp]: "n < 2 ^ 64 \<Longrightarrow> u64 n = n"
  by (simp add: u64_def)

lemma u64_sub_id: "b \<le> a \<Longrightarrow> a < 2 ^ 64 \<Longrightarrow> u64_sub a b = a - b"
proof -
  assume ba: "b \<le> a" and a: "a < 2 ^ 64"
  then have "a + (2 ^ 64 - b mod 2 ^ 64) = (a - b) + 2 ^ 64" by simp
  then show ?thesis using a by (simp only: u64_sub_def mod_add_self2) simp
qed

text \<open>The same for \<^verbatim>\<open>std::uint32_t\<close> and the cast to \<^verbatim>\<open>std::uint16_t\<close>.\<close>

definition u32 :: "nat \<Rightarrow> nat" where
  "u32 n = n mod 2 ^ 32"

definition u32_sub :: "nat \<Rightarrow> nat \<Rightarrow> nat" where
  "u32_sub a b = (a + (2 ^ 32 - b mod 2 ^ 32)) mod 2 ^ 32"

definition u16 :: "nat \<Rightarrow> nat" where
  "u16 n = n mod 2 ^ 16"

lemma u32_id [simp]: "n < 2 ^ 32 \<Longrightarrow> u32 n = n"
  by (simp add: u32_def)

lemma u16_id [simp]: "n < 2 ^ 16 \<Longrightarrow> u16 n = n"
  by (simp add: u16_def)

lemma u32_sub_id: "b \<le> a \<Longrightarrow> a < 2 ^ 32 \<Longrightarrow> u32_sub a b = a - b"
proof -
  assume ba: "b \<le> a" and a: "a < 2 ^ 32"
  then have "a + (2 ^ 32 - b mod 2 ^ 32) = (a - b) + 2 ^ 32" by simp
  then show ?thesis using a by (simp only: u32_sub_def mod_add_self2) simp
qed

subsection \<open>ASCII digits\<close>

definition is_digit :: "byte \<Rightarrow> bool" where
  "is_digit c \<longleftrightarrow> 48 \<le> byte_val c \<and> byte_val c \<le> 57"

definition digit_val :: "byte \<Rightarrow> nat" where
  "digit_val c = byte_val c - 48"

definition digit_char :: "nat \<Rightarrow> byte" where
  "digit_char d = char_of (48 + d)"

abbreviation digits :: "byte list \<Rightarrow> bool" where
  "digits \<equiv> list_all is_digit"

lemma of_char_digit_char [digit_simps]: "d < 10 \<Longrightarrow> byte_val (digit_char d) = 48 + d"
  by (simp add: digit_char_def)

lemma is_digit_digit_char [simp]: "d < 10 \<Longrightarrow> is_digit (digit_char d)"
  by (simp add: is_digit_def of_char_digit_char)

lemma digit_val_digit_char [simp]: "d < 10 \<Longrightarrow> digit_val (digit_char d) = d"
  by (simp add: digit_val_def of_char_digit_char)

lemma digit_char_simps [digit_simps]:
  "digit_char 0 = CHR ''0''" "digit_char 1 = CHR ''1''" "digit_char 2 = CHR ''2''" "digit_char 3 = CHR ''3''"
  "digit_char 4 = CHR ''4''" "digit_char 5 = CHR ''5''" "digit_char 6 = CHR ''6''" "digit_char 7 = CHR ''7''"
  "digit_char 8 = CHR ''8''" "digit_char 9 = CHR ''9''" "digit_char (Suc 0) = CHR ''1''"
  by (simp_all only: digit_char_def One_nat_def [symmetric]; code_simp)+

lemma digit_val_less: "is_digit c \<Longrightarrow> digit_val c < 10"
  unfolding is_digit_def digit_val_def by linarith

lemma digit_char_digit_val: "is_digit c \<Longrightarrow> digit_char (digit_val c) = c"
  by (simp add: is_digit_def digit_val_def digit_char_def)

lemma digit_not_special [simp]:
  "is_digit c \<Longrightarrow> c \<noteq> SOH" "is_digit c \<Longrightarrow> c \<noteq> EQ" "is_digit c \<Longrightarrow> c \<noteq> CHR ''.''"
  "is_digit c \<Longrightarrow> c \<noteq> CHR ''+''" "is_digit c \<Longrightarrow> c \<noteq> CHR ''-''" "is_digit c \<Longrightarrow> c \<noteq> CHR '':''"
  by (auto simp: is_digit_def)

lemma not_digit_special [simp]:
  "\<not> is_digit SOH" "\<not> is_digit EQ" "\<not> is_digit CHR ''.''" "\<not> is_digit CHR ''+''"
  "\<not> is_digit CHR ''-''" "\<not> is_digit CHR '':''"
  by (auto simp: is_digit_def)

text \<open>The number a digit string denotes, most significant digit first.\<close>

definition dec_step :: "nat \<Rightarrow> byte \<Rightarrow> nat" where
  "dec_step a c = a * 10 + digit_val c"

definition dec_acc :: "nat \<Rightarrow> byte list \<Rightarrow> nat" where
  "dec_acc a s = foldl dec_step a s"

definition dec_value :: "byte list \<Rightarrow> nat" where
  "dec_value s = dec_acc 0 s"

lemma dec_acc_simps [simp]:
  "dec_acc a [] = a" "dec_acc a (c # cs) = dec_acc (a * 10 + digit_val c) cs"
  by (simp_all add: dec_acc_def dec_step_def)

lemma dec_acc_append [simp]: "dec_acc a (xs @ ys) = dec_acc (dec_acc a xs) ys"
  by (simp add: dec_acc_def)

lemma dec_acc_eq: "dec_acc a s = a * 10 ^ length s + dec_value s"
proof (induction s arbitrary: a)
  case Nil
  then show ?case by (simp add: dec_value_def)
next
  case (Cons c s)
  have "dec_value (c # s) = dec_acc (digit_val c) s" by (simp add: dec_value_def)
  also have "\<dots> = digit_val c * 10 ^ length s + dec_value s" by (rule Cons.IH)
  finally show ?case
    by (simp add: Cons.IH algebra_simps)
qed

lemma dec_acc_mono: "a \<le> dec_acc a s"
proof -
  have "a * 1 \<le> a * 10 ^ length s" by (intro mult_le_mono) simp_all
  then show ?thesis unfolding dec_acc_eq by linarith
qed

lemma dec_value_simps [simp]:
  "dec_value [] = 0"
  "dec_value (xs @ [c]) = dec_value xs * 10 + digit_val c"
  by (simp_all add: dec_value_def)

lemma dec_value_Cons: "dec_value (c # cs) = digit_val c * 10 ^ length cs + dec_value cs"
  using dec_acc_eq [of "digit_val c" cs] by (simp add: dec_value_def)

lemma dec_value_append: "dec_value (xs @ ys) = dec_value xs * 10 ^ length ys + dec_value ys"
  using dec_acc_eq [of "dec_value xs" ys] by (simp add: dec_value_def)

lemma dec_value_less: "digits s \<Longrightarrow> dec_value s < 10 ^ length s"
proof (induction s rule: rev_induct)
  case Nil
  then show ?case by simp
next
  case (snoc c s)
  then have "dec_value s + 1 \<le> 10 ^ length s" "digit_val c < 10"
    using digit_val_less by auto
  then have "dec_value s * 10 + digit_val c < 10 ^ length s * 10" by linarith
  then show ?case by simp
qed

subsection \<open>Printing numbers\<close>

text \<open>The shortest decimal rendering of a number, the reference for every printer.\<close>

fun dec_digits :: "nat \<Rightarrow> byte list" where
  "dec_digits n = (if n < 10 then [digit_char n] else dec_digits (n div 10) @ [digit_char (n mod 10)])"

declare dec_digits.simps [simp del]

lemma dec_digits_small: "n < 10 \<Longrightarrow> dec_digits n = [digit_char n]"
  by (simp add: dec_digits.simps)

lemma dec_digits_step:
  "\<not> n < 10 \<Longrightarrow> dec_digits n = dec_digits (n div 10) @ [digit_char (n mod 10)]"
  by (subst dec_digits.simps) simp

lemma dec_digits_induct [case_names small step]:
  assumes "\<And>n. n < 10 \<Longrightarrow> P n" and "\<And>n. 10 \<le> n \<Longrightarrow> P (n div 10) \<Longrightarrow> P n"
  shows "P (n::nat)"
  using assms by (induction n rule: dec_digits.induct) (metis not_le)

lemma digits_dec_digits [simp]: "digits (dec_digits n)"
  by (induction n rule: dec_digits_induct) (simp_all add: dec_digits_small dec_digits_step)

lemma dec_digits_not_Nil [simp]: "dec_digits n \<noteq> []"
  by (subst dec_digits.simps) simp

lemma dec_value_dec_digits [simp]: "dec_value (dec_digits n) = n"
proof (induction n rule: dec_digits_induct)
  case (small n)
  then show ?case by (simp add: dec_digits_small dec_value_def)
next
  case (step n)
  then show ?case by (simp add: dec_digits_step)
qed

lemma hd_dec_digits: "0 < n \<Longrightarrow> hd (dec_digits n) \<noteq> CHR ''0''"
proof (induction n rule: dec_digits_induct)
  case (small n)
  then have "byte_val (digit_char n) \<noteq> 48" by (simp add: of_char_digit_char)
  with small show ?case by (auto simp: dec_digits_small)
next
  case (step n)
  then show ?case by (simp add: dec_digits_step)
qed

lemma length_dec_digits_le: "n < 10 ^ k \<Longrightarrow> 0 < k \<Longrightarrow> length (dec_digits n) \<le> k"
proof (induction n arbitrary: k rule: dec_digits_induct)
  case (small n)
  then show ?case by (simp add: dec_digits_small)
next
  case (step n)
  then obtain j where k: "k = Suc j" by (cases k) auto
  with step.hyps step.prems have "0 < j" by (cases j) auto
  moreover have "n div 10 < 10 ^ j" using step.prems k by (simp add: less_mult_imp_div_less mult.commute)
  ultimately have "length (dec_digits (n div 10)) \<le> j" by (rule step.IH [rotated])
  with step.hyps k show ?case by (simp add: dec_digits_step)
qed

lemma length_dec_digits_ge: "10 ^ k \<le> n \<Longrightarrow> k < length (dec_digits n)"
proof -
  assume "10 ^ k \<le> n"
  moreover have "n < 10 ^ length (dec_digits n)"
    using dec_value_less [of "dec_digits n"] by simp
  ultimately have "(10::nat) ^ k < 10 ^ length (dec_digits n)" by linarith
  then show ?thesis by simp
qed

lemma length_dec_digits_iff: "0 < k \<Longrightarrow> length (dec_digits n) \<le> k \<longleftrightarrow> n < 10 ^ k"
  using length_dec_digits_le length_dec_digits_ge by (metis linorder_not_less order.strict_trans1 less_irrefl)

text \<open>Right-aligned rendering in a fixed number of digits, zero padded.\<close>

fun dec_fixed :: "nat \<Rightarrow> nat \<Rightarrow> byte list" where
  "dec_fixed 0 n = []"
| "dec_fixed (Suc w) n = dec_fixed w (n div 10) @ [digit_char (n mod 10)]"

lemma length_dec_fixed [simp]: "length (dec_fixed w n) = w"
  by (induction w arbitrary: n) simp_all

lemma digits_dec_fixed [simp]: "digits (dec_fixed w n)"
  by (induction w arbitrary: n) simp_all

lemma dec_value_dec_fixed: "dec_value (dec_fixed w n) = n mod 10 ^ w"
proof (induction w arbitrary: n)
  case 0
  then show ?case by simp
next
  case (Suc w)
  have "n mod (10 * 10 ^ w) = 10 * (n div 10 mod 10 ^ w) + n mod 10"
    by (rule mod_mult2_eq)
  with Suc show ?case by simp
qed

lemma dec_fixed_length_dec_digits: "dec_fixed (length (dec_digits n)) n = dec_digits n"
  by (induction n rule: dec_digits_induct) (simp_all add: dec_digits_small dec_digits_step)

lemma dec_fixed_unique:
  "digits s \<Longrightarrow> dec_fixed (length s) (dec_value s) = s"
proof (induction s rule: rev_induct)
  case Nil
  then show ?case by simp
next
  case (snoc c s)
  then have "digit_val c < 10" by (simp add: digit_val_less)
  with snoc show ?case by (simp add: digit_char_digit_val)
qed

subsection \<open>Buffers\<close>

text \<open>\<open>sub_span\<close> is \<^verbatim>\<open>span.subspan(off, len)\<close>; \<open>overwrite\<close> is \<^verbatim>\<open>memcpy(dst + pos, src, n)\<close>.\<close>

definition sub_span :: "'a list \<Rightarrow> nat \<Rightarrow> nat \<Rightarrow> 'a list" where
  "sub_span xs off len = take len (drop off xs)"

definition overwrite :: "'a list \<Rightarrow> nat \<Rightarrow> 'a list \<Rightarrow> 'a list" where
  "overwrite dst pos src = take pos dst @ src @ drop (pos + length src) dst"

lemma length_overwrite [simp]:
  "pos + length src \<le> length dst \<Longrightarrow> length (overwrite dst pos src) = length dst"
  by (simp add: overwrite_def)

lemma take_overwrite [buf_simps]:
  "pos + length src \<le> length dst \<Longrightarrow> take (pos + length src) (overwrite dst pos src) = take pos dst @ src"
  by (simp add: overwrite_def)

lemma take_overwrite_before [buf_simps]:
  "n \<le> pos \<Longrightarrow> pos + length src \<le> length dst \<Longrightarrow> take n (overwrite dst pos src) = take n dst"
  by (simp add: overwrite_def min_def)

lemma drop_overwrite_after [buf_simps]:
  "pos + length src \<le> n \<Longrightarrow> pos + length src \<le> length dst \<Longrightarrow> drop n (overwrite dst pos src) = drop n dst"
  by (simp add: overwrite_def)

lemma sub_span_overwrite_same [buf_simps]:
  "pos + length src \<le> length dst \<Longrightarrow> sub_span (overwrite dst pos src) pos (length src) = src"
  by (simp add: overwrite_def sub_span_def)

lemma sub_span_overwrite_disjoint [buf_simps]:
  assumes "pos + length src \<le> length dst" and "off + len \<le> pos \<or> pos + length src \<le> off"
  shows "sub_span (overwrite dst pos src) off len = sub_span dst off len"
  using assms(2)
proof
  assume le: "off + len \<le> pos"
  have "take (off + len) (overwrite dst pos src) = take (off + len) dst"
    using le assms(1) by (simp add: take_overwrite_before)
  then show ?thesis by (simp add: sub_span_def take_drop add.commute)
next
  assume "pos + length src \<le> off"
  then show ?thesis using assms(1) by (simp add: sub_span_def drop_overwrite_after)
qed

lemma overwrite_Nil [simp]: "pos \<le> length dst \<Longrightarrow> overwrite dst pos [] = dst"
  by (simp add: overwrite_def)

lemma overwrite_append:
  "pos + length a + length b \<le> length buf \<Longrightarrow>
   overwrite (overwrite buf pos a) (pos + length a) b = overwrite buf pos (a @ b)"
  by (simp add: overwrite_def ac_simps)

lemma overwrite_update: "pos < length buf \<Longrightarrow> buf[pos := c] = overwrite buf pos [c]"
  by (simp add: overwrite_def upd_conv_take_nth_drop)

subsection \<open>Scanning for a delimiter\<close>

lemma takeWhile_until:
  "x \<notin> set xs \<Longrightarrow> takeWhile (\<lambda>c. c \<noteq> x) (xs @ x # ys) = xs"
  by (simp add: takeWhile_append)

lemma dropWhile_until:
  "x \<notin> set xs \<Longrightarrow> dropWhile (\<lambda>c. c \<noteq> x) (xs @ x # ys) = x # ys"
  by (simp add: dropWhile_append)

lemma digits_no_SOH: "digits s \<Longrightarrow> SOH \<notin> set s" "digits s \<Longrightarrow> EQ \<notin> set s"
  by (auto simp: list_all_iff)

end
