(* ===== verification/Fixpp_Decimal.thy ===== *)
theory Fixpp_Decimal
  imports Fixpp_Prelude Complex_Main
begin

text \<open>
  The decimal number type of \<^verbatim>\<open>include/fixpp/core/decimal.hpp\<close> and
  \<^verbatim>\<open>src/core/decimal.cpp\<close>: \<^verbatim>\<open>pod_decimal\<close>, its traits (parse, print, compare,
  domain checks) and the wrapper \<^verbatim>\<open>decimal<T>\<close> with its cross-traits conversions.

  A mantissa is an \<^typ>\<open>int\<close> and an exponent is an \<^typ>\<open>int\<close>; \<open>pod_wf\<close> says that they
  are an \<^verbatim>\<open>int64_t\<close> and an \<^verbatim>\<open>int8_t\<close>.  The lemmas show that the modelled operations
  stay within these types, so no signed overflow happens in the code.  The 64-bit
  limb arithmetic of \<^verbatim>\<open>mul_u64_wide\<close> is on \<^typ>\<open>64 word\<close>.
\<close>

unbundle bit_operations_syntax

subsection \<open>The representation\<close>

record pod_decimal =
  mantissa :: int
  exponent :: int

definition pod_decimal_invalid :: pod_decimal where
  "pod_decimal_invalid = \<lparr>mantissa = INT64_MIN, exponent = 0\<rparr>"

definition kCanonicalExpMin :: int where "kCanonicalExpMin = -38"
definition kCanonicalExpMax :: int where "kCanonicalExpMax = 0"

text \<open>The values the C++ struct can hold, and those in the canonical domain.\<close>

definition pod_wf :: "pod_decimal \<Rightarrow> bool" where
  "pod_wf v \<longleftrightarrow> INT64_MIN \<le> mantissa v \<and> mantissa v \<le> INT64_MAX \<and>
     -128 \<le> exponent v \<and> exponent v \<le> 127"

definition pod_canonical :: "pod_decimal \<Rightarrow> bool" where
  "pod_canonical v \<longleftrightarrow> INT64_MIN < mantissa v \<and> mantissa v \<le> INT64_MAX \<and>
     kCanonicalExpMin \<le> exponent v \<and> exponent v \<le> kCanonicalExpMax"

subsection \<open>Parsing\<close>

text \<open>The two digit loops of \<^verbatim>\<open>from_chars\<close>: the rest of the input, the mantissa, the
  sticky overflow flag (and the exponent in the second loop).\<close>

fun int_loop :: "byte list \<Rightarrow> int \<Rightarrow> bool \<Rightarrow> byte list \<times> int \<times> bool" where
  "int_loop [] m overflow = ([], m, overflow)"
| "int_loop (c # p) m overflow =
     (if is_digit c then
        let digit = int (digit_val c) in
        if overflow then int_loop p m overflow
        else if m > (INT64_MAX - digit) div 10 then int_loop p m True
        else int_loop p (m * 10 + digit) overflow
      else (c # p, m, overflow))"

fun frac_loop :: "byte list \<Rightarrow> int \<Rightarrow> int \<Rightarrow> bool \<Rightarrow> byte list \<times> int \<times> int \<times> bool" where
  "frac_loop [] m e overflow = ([], m, e, overflow)"
| "frac_loop (c # p) m e overflow =
     (if is_digit c then
        let digit = int (digit_val c) in
        if overflow then frac_loop p m e overflow
        else if e \<le> -38 \<or> m > (INT64_MAX - digit) div 10 then frac_loop p m e True
        else frac_loop p (m * 10 + digit) (e - 1) overflow
      else (c # p, m, e, overflow))"

text \<open>The end of \<^verbatim>\<open>from_chars\<close>: trailing input, overflow, sign and sentinel.\<close>

definition from_chars_finish :: "bool \<Rightarrow> byte list \<Rightarrow> int \<Rightarrow> int \<Rightarrow> bool \<Rightarrow> pod_decimal expected_t" where
  "from_chars_finish negative p m e overflow =
     (if p \<noteq> [] then unexpected decimal_invalid_input
      else if overflow then unexpected decimal_overflow
      else let m = (if negative then - m else m) in
           if m = INT64_MIN then unexpected decimal_overflow
           else ok \<lparr>mantissa = m, exponent = e\<rparr>)"

definition from_chars :: "byte list \<Rightarrow> pod_decimal expected_t" where
  "from_chars src =
     (if src = [] then unexpected decimal_invalid_input
      else
        let negative = (hd src = CHR ''-'');
            p = (if hd src = CHR ''+'' \<or> hd src = CHR ''-'' then tl src else src) in
        if p = [] then unexpected decimal_invalid_input
        else if \<not> is_digit (hd p) then unexpected decimal_invalid_input
        else case int_loop p 0 False of (p, m, overflow) \<Rightarrow>
          (if p \<noteq> [] \<and> hd p = CHR ''.'' then
             let p = tl p in
             if p = [] \<or> \<not> is_digit (hd p) then unexpected decimal_invalid_input
             else case frac_loop p m 0 overflow of (p, m, e, overflow) \<Rightarrow>
               from_chars_finish negative p m e overflow
           else from_chars_finish negative p m 0 overflow))"

subsection \<open>Printing\<close>

text \<open>The digits of a positive mantissa, least significant first, as the loop produces
  them; the code reverses them afterwards.\<close>

fun digits_rev :: "nat \<Rightarrow> byte list" where
  "digits_rev tmp = (if tmp > 0 then digit_char (tmp mod 10) # digits_rev (tmp div 10) else [])"

declare digits_rev.simps [simp del]

fun strip_frac_zeros :: "byte list \<Rightarrow> nat \<Rightarrow> byte list \<times> nat" where
  "strip_frac_zeros ds nfrac =
     (if nfrac > 0 \<and> ds \<noteq> [] \<and> last ds = CHR ''0'' then strip_frac_zeros (butlast ds) (nfrac - 1)
      else (ds, nfrac))"

declare strip_frac_zeros.simps [simp del]

definition render_decimal :: "bool \<Rightarrow> byte list \<Rightarrow> nat \<Rightarrow> byte list" where
  "render_decimal neg ds nfrac =
     (if neg then ''-'' else []) @
     (if nfrac = 0 then ds
      else if length ds \<le> nfrac then ''0.'' @ replicate (nfrac - length ds) (CHR ''0'') @ ds
      else take (length ds - nfrac) ds @ ''.'' @ drop (length ds - nfrac) ds)"

definition to_chars :: "pod_decimal \<Rightarrow> byte list \<Rightarrow> (nat \<times> byte list) expected_t" where
  "to_chars v dst =
     (if mantissa v = INT64_MIN then unexpected decimal_invalid_input
      else if exponent v > kCanonicalExpMax \<or> exponent v < kCanonicalExpMin
      then unexpected decimal_invalid_input
      else if mantissa v = 0 then
        (if dst = [] then unexpected decimal_buffer_too_small else ok (1, overwrite dst 0 ''0''))
      else
        let neg = mantissa v < 0;
            m = (if neg then - mantissa v else mantissa v);
            ds = rev (digits_rev (nat m));
            (ds, nfrac) = strip_frac_zeros ds (nat (- exponent v));
            buf = render_decimal neg ds nfrac in
        if length dst < length buf then unexpected decimal_buffer_too_small
        else ok (length buf, overwrite dst 0 buf))"

subsection \<open>Comparing\<close>

text \<open>The portable branch of \<^verbatim>\<open>mul_u64_wide\<close>; the other branches use the compiler's
  128-bit product, whose two halves the lemma below shows this one computes.\<close>

definition mul_u64_wide :: "64 word \<Rightarrow> 64 word \<Rightarrow> 64 word \<times> 64 word" where
  "mul_u64_wide a b =
     (let mask32 = 0xFFFFFFFF;
          a_lo = a AND mask32; a_hi = drop_bit 32 a;
          b_lo = b AND mask32; b_hi = drop_bit 32 b;
          t = a_lo * b_lo;
          w0 = t AND mask32;
          k = drop_bit 32 t;
          t = a_hi * b_lo + k;
          w1 = t AND mask32;
          w2 = drop_bit 32 t;
          t = a_lo * b_hi + w1;
          k = drop_bit 32 t;
          hi = a_hi * b_hi + w2 + k
      in (hi, push_bit 32 t OR w0))"

definition kPow10 :: "64 word list" where
  "kPow10 =
     [1, 10, 100, 1000, 10000, 100000, 1000000, 10000000, 100000000, 1000000000, 10000000000,
      100000000000, 1000000000000, 10000000000000, 100000000000000, 1000000000000000,
      10000000000000000, 100000000000000000, 1000000000000000000]"

definition scaled_vs_other :: "64 word \<Rightarrow> nat \<Rightarrow> 64 word \<Rightarrow> strong_ordering" where
  "scaled_vs_other mag_scaled k other =
     (if k \<ge> 19 then ord_greater
      else case mul_u64_wide mag_scaled (kPow10 ! k) of (hi, lo) \<Rightarrow>
        if hi \<noteq> 0 \<or> lo > other then ord_greater
        else if lo = other then ord_equal else ord_less)"

definition decimal_compare :: "pod_decimal \<Rightarrow> pod_decimal \<Rightarrow> strong_ordering" where
  "decimal_compare a b =
     (let a_invalid = (mantissa a = INT64_MIN); b_invalid = (mantissa b = INT64_MIN) in
      if a_invalid \<and> b_invalid then ord_equal
      else if a_invalid then ord_greater
      else if b_invalid then ord_less
      else
        let a_neg = mantissa a < 0; b_neg = mantissa b < 0 in
        if a_neg \<noteq> b_neg then (if a_neg then ord_less else ord_greater)
        else if exponent a = exponent b then three_way (mantissa a) (mantissa b)
        else if mantissa a = 0 \<and> mantissa b = 0 then ord_equal
        else if mantissa a = 0 then (if b_neg then ord_greater else ord_less)
        else if mantissa b = 0 then (if a_neg then ord_less else ord_greater)
        else
          let mag_a = word_of_int (if mantissa a < 0 then - mantissa a else mantissa a);
              mag_b = word_of_int (if mantissa b < 0 then - mantissa b else mantissa b);
              a_scales = exponent a > exponent b;
              k = nat (if a_scales then exponent a - exponent b else exponent b - exponent a);
              mag_scaled = (if a_scales then mag_a else mag_b);
              other = (if a_scales then mag_b else mag_a);
              svo = scaled_vs_other mag_scaled k other;
              mag_cmp = (if a_scales then svo else invert_ordering svo) in
          if a_neg then invert_ordering mag_cmp else mag_cmp)"

subsection \<open>Domain checks and predicates\<close>

definition from_pod :: "pod_decimal \<Rightarrow> pod_decimal expected_t" where
  "from_pod pd =
     (if mantissa pd = INT64_MIN then unexpected decimal_overflow
      else if exponent pd < kCanonicalExpMin \<or> exponent pd > kCanonicalExpMax
      then unexpected decimal_overflow
      else ok pd)"

definition to_pod :: "pod_decimal \<Rightarrow> pod_decimal expected_t" where
  "to_pod v = from_pod v"

definition is_finite :: "pod_decimal \<Rightarrow> bool" where "is_finite v \<longleftrightarrow> mantissa v \<noteq> INT64_MIN"
definition is_zero :: "pod_decimal \<Rightarrow> bool" where "is_zero v \<longleftrightarrow> mantissa v = 0"
definition is_negative :: "pod_decimal \<Rightarrow> bool" where "is_negative v \<longleftrightarrow> mantissa v < 0"

subsection \<open>The wrapper\<close>

text \<open>\<^verbatim>\<open>decimal<T>::from<U>\<close> for \<^verbatim>\<open>T \<noteq> U\<close>: through \<^verbatim>\<open>pod_decimal\<close>, with an overflow of the
  source's \<^verbatim>\<open>to_pod\<close> reported as precision loss.  \<^verbatim>\<open>decimal<T>::to<U>\<close> has the same body
  with the roles of the two traits exchanged.\<close>

definition decimal_from ::
    "('u \<Rightarrow> pod_decimal expected_t) \<Rightarrow> (pod_decimal \<Rightarrow> 't expected_t) \<Rightarrow> 'u \<Rightarrow> 't expected_t" where
  "decimal_from to_pod_u from_pod_t src =
     (case to_pod_u src of
        Inl e \<Rightarrow> unexpected (if e = decimal_overflow then decimal_precision_loss else e)
      | Inr pod \<Rightarrow> (case from_pod_t pod of Inl e \<Rightarrow> unexpected e | Inr r \<Rightarrow> ok r))"

definition decimal_to ::
    "('t \<Rightarrow> pod_decimal expected_t) \<Rightarrow> (pod_decimal \<Rightarrow> 'u expected_t) \<Rightarrow> 't \<Rightarrow> 'u expected_t" where
  "decimal_to to_pod_t from_pod_u v =
     (case to_pod_t v of
        Inl e \<Rightarrow> unexpected (if e = decimal_overflow then decimal_precision_loss else e)
      | Inr pod \<Rightarrow> (case from_pod_u pod of Inl e \<Rightarrow> unexpected e | Inr r \<Rightarrow> ok r))"

text \<open>\<^verbatim>\<open>decimal<T>::parse\<close>, \<^verbatim>\<open>format\<close> and the comparison operators delegate to the traits.\<close>

definition decimal_parse :: "(byte list \<Rightarrow> 't expected_t) \<Rightarrow> byte list \<Rightarrow> 't expected_t" where
  "decimal_parse from_chars_t src = (case from_chars_t src of Inl e \<Rightarrow> unexpected e | Inr r \<Rightarrow> ok r)"

definition decimal_eq :: "('t \<Rightarrow> 't \<Rightarrow> strong_ordering) \<Rightarrow> 't \<Rightarrow> 't \<Rightarrow> bool" where
  "decimal_eq cmp a b \<longleftrightarrow> cmp a b = ord_equal"

subsection \<open>What a literal denotes\<close>

text \<open>The grammar of the FIX FLOAT literal: an optional sign, at least one integer digit,
  and an optional point followed by at least one fractional digit.\<close>

definition fix_float :: "byte list \<Rightarrow> bool \<Rightarrow> byte list \<Rightarrow> byte list \<Rightarrow> bool" where
  "fix_float s neg is fs \<longleftrightarrow>
     digits is \<and> is \<noteq> [] \<and> digits fs \<and>
     (\<exists>sg. sg \<in> (if neg then {''-''} else {[], ''+''}) \<and>
           s = sg @ is @ (if fs = [] then [] else CHR ''.'' # fs))"

definition literal_pod :: "bool \<Rightarrow> byte list \<Rightarrow> byte list \<Rightarrow> pod_decimal" where
  "literal_pod neg is fs =
     \<lparr>mantissa = (if neg then - int (dec_value (is @ fs)) else int (dec_value (is @ fs))),
      exponent = - int (length fs)\<rparr>"

definition literal_fits :: "byte list \<Rightarrow> byte list \<Rightarrow> bool" where
  "literal_fits is fs \<longleftrightarrow> length fs \<le> 38 \<and> int (dec_value (is @ fs)) \<le> INT64_MAX"

text \<open>The rational number a \<^verbatim>\<open>pod_decimal\<close> stands for.\<close>

definition dec_rat :: "pod_decimal \<Rightarrow> rat" where
  "dec_rat v = of_int (mantissa v) * 10 powi exponent v"

subsection \<open>The digit loops\<close>

lemma accumulation_guard:
  "d < 10 \<Longrightarrow> m > (INT64_MAX - int d) div 10 \<longleftrightarrow> m * 10 + int d > INT64_MAX"
  by (simp add: INT64_MAX_def) linarith

lemma fst_int_loop: "fst (int_loop p m overflow) = dropWhile is_digit p"
  by (induction p m overflow rule: int_loop.induct) (auto simp: Let_def)

lemma fst_frac_loop: "fst (frac_loop p m e overflow) = dropWhile is_digit p"
  by (induction p m e overflow rule: frac_loop.induct) (auto simp: Let_def)

lemma int_loop_overflowed:
  "digits ds \<Longrightarrow> rest = [] \<or> \<not> is_digit (hd rest) \<Longrightarrow> int_loop (ds @ rest) m True = (rest, m, True)"
  by (induction ds) (cases rest; simp)+

lemma frac_loop_overflowed:
  "digits ds \<Longrightarrow> rest = [] \<or> \<not> is_digit (hd rest) \<Longrightarrow> frac_loop (ds @ rest) m e True = (rest, m, e, True)"
  by (induction ds) (cases rest; simp)+

lemma digit_guard:
  assumes "is_digit c"
  shows "int n > (INT64_MAX - int (digit_val c)) div 10 \<longleftrightarrow> int (n * 10 + digit_val c) > INT64_MAX"
  using accumulation_guard [OF digit_val_less [OF assms], of "int n"] by simp

lemma dec_acc_le_first:
  "int (dec_acc n (c # ds)) \<le> INT64_MAX \<Longrightarrow> int (n * 10 + digit_val c) \<le> INT64_MAX"
  using dec_acc_mono [of "n * 10 + digit_val c" ds] by simp

lemma int_loop_fits:
  assumes "digits ds" "rest = [] \<or> \<not> is_digit (hd rest)" "int (dec_acc n ds) \<le> INT64_MAX"
  shows "int_loop (ds @ rest) (int n) False = (rest, int (dec_acc n ds), False)"
  using assms
proof (induction ds arbitrary: n)
  case Nil
  then show ?case by (cases rest) auto
next
  case (Cons c ds)
  then have "int n \<le> (INT64_MAX - int (digit_val c)) div 10"
    using digit_guard [of c n] dec_acc_le_first by fastforce
  then show ?case using Cons.prems Cons.IH [of "n * 10 + digit_val c"] by (simp add: ac_simps)
qed

lemma int_loop_overflows:
  assumes "digits ds" "rest = [] \<or> \<not> is_digit (hd rest)" "int (dec_acc n ds) > INT64_MAX"
    "int n \<le> INT64_MAX"
  shows "\<exists>m. int_loop (ds @ rest) (int n) False = (rest, m, True)"
  using assms
proof (induction ds arbitrary: n)
  case Nil
  then show ?case by simp
next
  case (Cons c ds)
  show ?case
  proof (cases "int (n * 10 + digit_val c) > INT64_MAX")
    case True
    then show ?thesis
      using Cons.prems digit_guard [of c n] int_loop_overflowed [of ds rest "int n"] by simp
  next
    case False
    then show ?thesis
      using Cons.prems Cons.IH [of "n * 10 + digit_val c"] digit_guard [of c n] by (simp add: ac_simps)
  qed
qed

lemma frac_loop_fits:
  assumes "digits ds" "rest = [] \<or> \<not> is_digit (hd rest)" "j + length ds \<le> 38"
    "int (dec_acc n ds) \<le> INT64_MAX"
  shows "frac_loop (ds @ rest) (int n) (- int j) False =
     (rest, int (dec_acc n ds), - int (j + length ds), False)"
  using assms
proof (induction ds arbitrary: n j)
  case Nil
  then show ?case by (cases rest) auto
next
  case (Cons c ds)
  then have "int n \<le> (INT64_MAX - int (digit_val c)) div 10"
    using digit_guard [of c n] dec_acc_le_first by fastforce
  moreover have e: "- int j - 1 = - int (Suc j)" by simp
  ultimately show ?case using Cons.prems Cons.IH [of "Suc j" "n * 10 + digit_val c"]
    by (simp add: ac_simps e)
qed

lemma frac_loop_overflows:
  assumes "digits ds" "rest = [] \<or> \<not> is_digit (hd rest)" "j \<le> 38" "int n \<le> INT64_MAX"
    "38 < j + length ds \<or> int (dec_acc n ds) > INT64_MAX"
  shows "\<exists>m e. frac_loop (ds @ rest) (int n) (- int j) False = (rest, m, e, True)"
  using assms
proof (induction ds arbitrary: n j)
  case Nil
  then show ?case by simp
next
  case (Cons c ds)
  have e: "- int j - 1 = - int (Suc j)" by simp
  show ?case
  proof (cases "j = 38 \<or> int (n * 10 + digit_val c) > INT64_MAX")
    case True
    then show ?thesis
      using Cons.prems digit_guard [of c n] frac_loop_overflowed [of ds rest "int n" "- int j"] by auto
  next
    case False
    then show ?thesis
      using Cons.prems Cons.IH [of "Suc j" "n * 10 + digit_val c"] digit_guard [of c n]
      by (simp add: ac_simps e)
  qed
qed

subsection \<open>Parsing is exact\<close>

lemma from_chars_sign:
  assumes "is \<noteq> []" "digits is"
  shows "from_chars (CHR ''+'' # is @ r) = from_chars (is @ r)"
    and "hd (is @ r) \<noteq> CHR ''-''" "hd (is @ r) \<noteq> CHR ''+''" "is_digit (hd (is @ r))"
  using assms by (cases "is"; auto simp: from_chars_def)+

lemma literal_not_min: "int (dec_value xs) \<le> INT64_MAX \<Longrightarrow> - int (dec_value xs) \<noteq> INT64_MIN \<and> int (dec_value xs) \<noteq> INT64_MIN"
  by (simp add: INT64_MAX_def INT64_MIN_def)

lemma from_chars_body:
  assumes lit: "digits is" "is \<noteq> []" "digits fs" and sg: "sg = [] \<and> \<not> neg \<or> sg = ''+'' \<and> \<not> neg \<or> sg = ''-'' \<and> neg"
  shows "from_chars (sg @ is @ (if fs = [] then [] else CHR ''.'' # fs)) =
    (if literal_fits is fs then ok (literal_pod neg is fs) else unexpected decimal_overflow)"
proof -
  obtain c cs where c: "is = c # cs" "is_digit c" using lit by (cases "is") auto
  let ?r = "if fs = [] then [] else CHR ''.'' # fs"
  have r: "?r = [] \<or> \<not> is_digit (hd ?r)" by simp
  have mono: "int (dec_value is) \<le> int (dec_value (is @ fs))"
    using dec_acc_mono [of "dec_value is" fs] by (simp add: dec_value_def)
  have acc: "dec_acc (dec_value is) fs = dec_value (is @ fs)" by (simp add: dec_value_def)
  consider (big) "int (dec_value is) > INT64_MAX" | (small) "int (dec_value is) \<le> INT64_MAX" by linarith
  then show ?thesis
  proof cases
    case big
    obtain m where m: "int_loop (is @ ?r) 0 False = (?r, m, True)"
      using int_loop_overflows [OF lit(1) r, of 0] big by (auto simp: dec_value_def INT64_MAX_def)
    have f: "frac_loop fs m 0 True = ([], m, 0, True)"
      using frac_loop_overflowed [OF lit(3), of "[]" m 0] by simp
    show ?thesis using sg c m f big mono lit(3)
      by (cases fs) (auto simp: from_chars_def from_chars_finish_def literal_fits_def)
  next
    case small
    have i: "int_loop (is @ ?r) 0 False = (?r, int (dec_value is), False)"
      using int_loop_fits [OF lit(1) r, of 0] small by (simp add: dec_value_def)
    show ?thesis
    proof (cases "fs = []")
      case True
      then show ?thesis using sg c i small literal_not_min [of "is"]
        by (auto simp: from_chars_def from_chars_finish_def literal_fits_def literal_pod_def)
    next
      case fs: False
      then obtain f ft where ft: "fs = f # ft" "is_digit f" using lit by (cases fs) auto
      show ?thesis
      proof (cases "literal_fits is fs")
        case True
        then have "frac_loop (fs @ []) (int (dec_value is)) (- int 0) False =
            ([], int (dec_value (is @ fs)), - int (0 + length fs), False)"
          using frac_loop_fits [OF lit(3), of "[]" 0 "dec_value is"] by (simp add: literal_fits_def acc)
        with True show ?thesis using sg c i ft literal_not_min [of "is @ fs"]
          by (auto simp: from_chars_def from_chars_finish_def literal_fits_def literal_pod_def)
      next
        case False
        then obtain m e where "frac_loop (fs @ []) (int (dec_value is)) (- int 0) False = ([], m, e, True)"
          using frac_loop_overflows [OF lit(3), of "[]" 0 "dec_value is"] small
          by (auto simp: literal_fits_def acc not_le)
        with False show ?thesis using sg c i ft
          by (auto simp: from_chars_def from_chars_finish_def)
      qed
    qed
  qed
qed

lemma from_chars_literal:
  assumes "fix_float s neg is fs"
  shows "from_chars s =
     (if literal_fits is fs then ok (literal_pod neg is fs) else unexpected decimal_overflow)"
proof -
  obtain sg where sg: "sg \<in> (if neg then {''-''} else {[], ''+''})"
      "s = sg @ is @ (if fs = [] then [] else CHR ''.'' # fs)"
    and lit: "digits is" "is \<noteq> []" "digits fs"
    using assms by (auto simp: fix_float_def)
  from sg(1) have "sg = [] \<and> \<not> neg \<or> sg = ''+'' \<and> \<not> neg \<or> sg = ''-'' \<and> neg"
    by (auto split: if_splits)
  from from_chars_body [OF lit this] sg(2) show ?thesis by simp
qed

text \<open>Conversely, whatever is not refused as malformed is a literal of the grammar.\<close>

lemma from_chars_malformed:
  assumes "from_chars s \<noteq> unexpected decimal_invalid_input"
  shows "\<exists>neg is fs. fix_float s neg is fs"
proof -
  define p where "p = (if hd s = CHR ''+'' \<or> hd s = CHR ''-'' then tl s else s)"
  define sg where "sg = (if hd s = CHR ''+'' \<or> hd s = CHR ''-'' then [hd s] else [])"
  define ds where "ds = takeWhile is_digit p"
  define r where "r = dropWhile is_digit p"
  have eq: "from_chars s =
      (if s = [] then unexpected decimal_invalid_input
       else if p = [] then unexpected decimal_invalid_input
       else if \<not> is_digit (hd p) then unexpected decimal_invalid_input
       else case int_loop p 0 False of (p, m, overflow) \<Rightarrow>
          (if p \<noteq> [] \<and> hd p = CHR ''.'' then
             if tl p = [] \<or> \<not> is_digit (hd (tl p)) then unexpected decimal_invalid_input
             else case frac_loop (tl p) m 0 overflow of (p, m, e, overflow) \<Rightarrow>
               from_chars_finish (hd s = CHR ''-'') p m e overflow
           else from_chars_finish (hd s = CHR ''-'') p m 0 overflow))"
    by (simp only: from_chars_def p_def Let_def)
  have s: "s \<noteq> []" "p \<noteq> []" "is_digit (hd p)"
    using assms by (simp_all add: eq split: if_splits)
  have sp: "s = sg @ ds @ r" using s(1) by (cases s) (auto simp: sg_def p_def ds_def r_def)
  have ds: "digits ds" "ds \<noteq> []"
    using s by (auto simp: ds_def list_all_iff dest: set_takeWhileD) (cases p; auto)
  have sgs: "sg \<in> (if hd s = CHR ''-'' then {''-''} else {[], ''+''})" by (auto simp: sg_def)
  obtain m ov where i: "int_loop p 0 False = (r, m, ov)"
    using fst_int_loop [of p 0 False] by (cases "int_loop p 0 False") (auto simp: r_def)
  show ?thesis
  proof (cases "r = []")
    case True
    then have "fix_float s (hd s = CHR ''-'') ds []" using sp ds sgs by (auto simp: fix_float_def)
    then show ?thesis by blast
  next
    case r: False
    then have dot: "hd r = CHR ''.''"
      using assms s i by (simp add: eq from_chars_finish_def split: if_splits)
    then have t: "tl r \<noteq> []" "is_digit (hd (tl r))"
      using assms s i r by (simp_all add: eq split: if_splits)
    obtain m' e' ov' where f: "frac_loop (tl r) m 0 ov = (dropWhile is_digit (tl r), m', e', ov')"
      using fst_frac_loop [of "tl r" m 0 ov] by (cases "frac_loop (tl r) m 0 ov") auto
    have "dropWhile is_digit (tl r) = []"
      using assms s i r dot t f by (simp add: eq from_chars_finish_def split: if_splits)
    then have fs: "digits (tl r)" by (simp add: dropWhile_eq_Nil_conv list_all_iff)
    have "r = CHR ''.'' # tl r" using r dot by (cases r) auto
    then have "fix_float s (hd s = CHR ''-'') ds (tl r)"
      using sp ds sgs fs t(1) unfolding fix_float_def by auto
    then show ?thesis by blast
  qed
qed

text \<open>C16. Parsing a FIX FLOAT is exact.  The parser accepts precisely the literals of the grammar
  with at most 38 fractional digits and a mantissa that fits in 63 bits, and returns the
  number they denote; a literal outside that range is an overflow; everything else is
  malformed.\<close>

theorem from_chars_exact:
  "(from_chars s = ok d \<longleftrightarrow>
      (\<exists>neg is fs. fix_float s neg is fs \<and> literal_fits is fs \<and> d = literal_pod neg is fs)) \<and>
   (from_chars s = unexpected decimal_overflow \<longleftrightarrow>
      (\<exists>neg is fs. fix_float s neg is fs \<and> \<not> literal_fits is fs)) \<and>
   (from_chars s = unexpected decimal_invalid_input \<longleftrightarrow> (\<nexists>neg is fs. fix_float s neg is fs))"
proof (cases "\<exists>neg is fs. fix_float s neg is fs")
  case True
  then obtain neg "is" fs where "fix_float s neg is fs" by blast
  then have "(if literal_fits is fs then ok (literal_pod neg is fs) else unexpected decimal_overflow) = from_chars s"
    by (simp add: from_chars_literal)
  moreover have "unexpected decimal_overflow \<noteq> (unexpected decimal_invalid_input :: pod_decimal expected_t)"
    by simp
  ultimately show ?thesis using from_chars_literal [of s] True
    by (metis Inr_inject Inl_not_Inr)
next
  case False
  then have "from_chars s = unexpected decimal_invalid_input" using from_chars_malformed by blast
  with False show ?thesis by simp
qed

subsection \<open>Printing and parsing back\<close>

lemma digits_rev_dec_digits: "0 < n \<Longrightarrow> rev (digits_rev n) = dec_digits n"
proof (induction n rule: dec_digits_induct)
  case (small n)
  then show ?case by (simp add: digits_rev.simps [of n] digits_rev.simps [of 0] dec_digits_small)
next
  case (step n)
  then show ?case by (simp add: digits_rev.simps [of n] dec_digits_step)
qed

lemma strip_frac_zeros_spec:
  "strip_frac_zeros ds nfrac = (ds', nfrac') \<Longrightarrow>
     \<exists>j. ds = ds' @ replicate j (CHR ''0'') \<and> nfrac = nfrac' + j"
proof (induction ds nfrac rule: strip_frac_zeros.induct)
  case (1 ds nfrac)
  show ?case
  proof (cases "nfrac > 0 \<and> ds \<noteq> [] \<and> last ds = CHR ''0''")
    case True
    with "1.prems" have "strip_frac_zeros (butlast ds) (nfrac - 1) = (ds', nfrac')"
      by (subst (asm) strip_frac_zeros.simps) simp
    from "1.IH" [OF True this] obtain j where
      j: "butlast ds = ds' @ replicate j (CHR ''0'')" "nfrac - 1 = nfrac' + j" by blast
    have "ds = butlast ds @ [CHR ''0'']" using True by (metis append_butlast_last_id)
    with j(1) have "ds = ds' @ replicate (Suc j) (CHR ''0'')"
      by (metis append.assoc replicate_Suc replicate_append_same)
    moreover have "nfrac = nfrac' + Suc j" using j(2) True by linarith
    ultimately
    show ?thesis by blast
  next
    case False
    with "1.prems" have "ds = ds' \<and> nfrac = nfrac'" by (subst (asm) strip_frac_zeros.simps) simp
    then show ?thesis by (intro exI [of _ 0]) simp
  qed
qed

lemma dec_value_zeros [simp]: "dec_value (replicate j (CHR ''0'')) = 0"
  by (induction j) (simp_all add: dec_value_Cons digit_val_def)

lemma digits_zeros [simp]: "digits (replicate j (CHR ''0''))"
  by (simp add: list_all_iff is_digit_def)

lemma render_decimal_literal:
  assumes "digits ds" "ds \<noteq> []"
  shows "\<exists>is fs. fix_float (render_decimal neg ds nfrac) neg is fs \<and>
    dec_value (is @ fs) = dec_value ds \<and> length fs = nfrac"
proof -
  let ?k = "length ds - nfrac"
  have sg: "(if neg then ''-'' else []) \<in> (if neg then {''-''} else {[], ''+''})" by simp
  consider (int) "nfrac = 0" | (pure) "0 < nfrac" "length ds \<le> nfrac" | (mixed) "0 < nfrac" "nfrac < length ds"
    by linarith
  then show ?thesis
  proof cases
    case int
    with assms sg show ?thesis
      by (intro exI [of _ ds] exI [of _ "[]"]) (auto simp: fix_float_def render_decimal_def)
  next
    case pure
    let ?fs = "replicate (nfrac - length ds) (CHR ''0'') @ ds"
    have "dec_value (''0'' @ ?fs) = dec_value ds"
      by (simp add: dec_value_append dec_value_Cons digit_val_def)
    with assms pure sg show ?thesis
      by (intro exI [of _ "''0''"] exI [of _ ?fs])
        (auto simp: fix_float_def render_decimal_def is_digit_def)
  next
    case mixed
    with assms sg show ?thesis
      by (intro exI [of _ "take ?k ds"] exI [of _ "drop ?k ds"])
        (auto simp: fix_float_def render_decimal_def list_all_iff dest: in_set_takeD in_set_dropD)
  qed
qed

lemma length_render_decimal:
  "length ds \<le> 19 \<Longrightarrow> nfrac \<le> 38 \<Longrightarrow> length (render_decimal neg ds nfrac) \<le> 41"
  by (auto simp: render_decimal_def)

lemma dec_rat_scale: "of_int (m * 10 ^ j) * (10::rat) powi (- int (n + j)) = of_int m * 10 powi (- int n)"
proof -
  have p: "(10::rat) powi (- int k) = inverse (10 ^ k)" for k by (simp add: power_int_minus)
  show ?thesis by (simp only: p) (simp add: power_add field_simps)
qed

text \<open>The text \<^verbatim>\<open>to_chars\<close> writes for a canonical value, whatever the buffer.\<close>

definition chars_of :: "pod_decimal \<Rightarrow> byte list" where
  "chars_of v =
     (if mantissa v = 0 then ''0''
      else case strip_frac_zeros (rev (digits_rev (nat \<bar>mantissa v\<bar>))) (nat (- exponent v)) of
        (ds, nfrac) \<Rightarrow> render_decimal (mantissa v < 0) ds nfrac)"

lemma to_chars_canonical:
  "pod_canonical v \<Longrightarrow> to_chars v dst =
     (if length (chars_of v) \<le> length dst
      then ok (length (chars_of v), overwrite dst 0 (chars_of v))
      else unexpected decimal_buffer_too_small)"
  by (auto simp: to_chars_def chars_of_def pod_canonical_def Let_def not_le abs_if Suc_le_eq
      split: prod.splits)

lemma chars_of_parses:
  assumes "pod_canonical v"
  shows "\<exists>v'. from_chars (chars_of v) = ok v' \<and> pod_canonical v' \<and> dec_rat v' = dec_rat v \<and>
    length (chars_of v) \<le> 41"
proof (cases "mantissa v = 0")
  case True
  have "fix_float ''0'' False ''0'' []" by (auto simp: fix_float_def is_digit_def)
  moreover have "literal_fits ''0'' []" by (simp add: literal_fits_def dec_value_Cons digit_val_def INT64_MAX_def)
  ultimately have "from_chars (chars_of v) = ok (literal_pod False ''0'' [])"
    using from_chars_literal by (simp add: chars_of_def True)
  moreover have "literal_pod False ''0'' [] = \<lparr>mantissa = 0, exponent = 0\<rparr>"
    by (simp add: literal_pod_def dec_value_Cons digit_val_def)
  ultimately show ?thesis using True
    by (auto simp: pod_canonical_def dec_rat_def INT64_MAX_def INT64_MIN_def kCanonicalExpMin_def
        kCanonicalExpMax_def chars_of_def)
next
  case False
  define M where "M = nat \<bar>mantissa v\<bar>"
  have M: "0 < M" "int M \<le> INT64_MAX" "mantissa v = (if mantissa v < 0 then - int M else int M)"
    using False assms by (auto simp: M_def pod_canonical_def INT64_MAX_def INT64_MIN_def)
  obtain F where F: "exponent v = - int F" "F \<le> 38"
    using assms by (intro that [of "nat (- exponent v)"])
      (auto simp: pod_canonical_def kCanonicalExpMin_def kCanonicalExpMax_def)
  obtain ds nfrac where st: "strip_frac_zeros (dec_digits M) F = (ds, nfrac)" by fastforce
  obtain j where j: "dec_digits M = ds @ replicate j (CHR ''0'')" "F = nfrac + j"
    using strip_frac_zeros_spec [OF st] by blast
  have ch: "chars_of v = render_decimal (mantissa v < 0) ds nfrac"
    using False st F(1) digits_rev_dec_digits [OF M(1)] by (simp add: chars_of_def M_def)
  have ds: "digits ds" using digits_dec_digits [of M] j(1) by simp
  have val: "M = dec_value ds * 10 ^ j"
    using dec_value_dec_digits [of M] j(1) by (simp add: dec_value_append)
  then have "ds \<noteq> []" using M(1) by auto
  have "length (dec_digits M) \<le> 19"
    by (rule length_dec_digits_le) (use M(2) in \<open>auto simp: INT64_MAX_def\<close>)
  then have len: "length ds \<le> 19" using j(1) by simp
  obtain "is" fs where lit: "fix_float (chars_of v) (mantissa v < 0) is fs"
    "dec_value (is @ fs) = dec_value ds" "length fs = nfrac"
    using render_decimal_literal [OF ds \<open>ds \<noteq> []\<close>] ch by metis
  have "dec_value ds * 1 \<le> dec_value ds * 10 ^ j" by (intro mult_le_mono) simp_all
  then have "int (dec_value ds) \<le> INT64_MAX" using val M(2) by linarith
  then have fits: "literal_fits is fs" using lit F j(2) by (simp add: literal_fits_def)
  have "dec_rat (literal_pod (mantissa v < 0) is fs) = dec_rat v"
  proof -
    have "mantissa v = (if mantissa v < 0 then - int (dec_value ds) else int (dec_value ds)) * 10 ^ j"
      using M(3) val by (auto split: if_splits)
    then show ?thesis
      using dec_rat_scale [of "if mantissa v < 0 then - int (dec_value ds) else int (dec_value ds)" j nfrac]
        lit(2,3) F(1) j(2)
      by (simp add: dec_rat_def literal_pod_def)
  qed
  moreover have "from_chars (chars_of v) = ok (literal_pod (mantissa v < 0) is fs)"
    using from_chars_literal [OF lit(1)] fits by simp
  moreover have "pod_canonical (literal_pod (mantissa v < 0) is fs)"
    using fits by (auto simp: pod_canonical_def literal_pod_def literal_fits_def INT64_MAX_def
        INT64_MIN_def kCanonicalExpMin_def kCanonicalExpMax_def)
  moreover have "length (chars_of v) \<le> 41"
    using length_render_decimal [OF len] j(2) F(2) by (simp add: ch)
  ultimately show ?thesis by blast
qed

text \<open>C14. Printing is lossless and bounded.  Every canonical decimal is written whenever the
  buffer holds the 41 bytes of \<^verbatim>\<open>max_serialized_bytes\<close>; nothing behind the returned length
  changes; and parsing the written bytes yields a canonical decimal with the same value.\<close>

theorem to_chars_round_trip:
  assumes "pod_canonical v" and "41 \<le> length dst"
  shows "\<exists>n dst' v'. to_chars v dst = ok (n, dst') \<and> n \<le> 41 \<and>
    length dst' = length dst \<and> drop n dst' = drop n dst \<and>
    from_chars (take n dst') = ok v' \<and> pod_canonical v' \<and> dec_rat v' = dec_rat v"
proof -
  obtain v' where "from_chars (chars_of v) = ok v'" "pod_canonical v'" "dec_rat v' = dec_rat v"
    "length (chars_of v) \<le> 41"
    using chars_of_parses [OF assms(1)] by blast
  with assms show ?thesis
    by (auto simp: to_chars_canonical overwrite_def intro!: exI [of _ v'])
qed

theorem to_chars_round_trip_witness:
  "pod_canonical \<lparr>mantissa = -12340, exponent = -2\<rparr> \<and>
   (\<exists>n dst' v'. to_chars \<lparr>mantissa = -12340, exponent = -2\<rparr> (replicate 41 (CHR ''x'')) = ok (n, dst') \<and>
      n \<le> 41 \<and> length dst' = length (replicate 41 (CHR ''x'')) \<and>
      drop n dst' = drop n (replicate 41 (CHR ''x'')) \<and> from_chars (take n dst') = ok v' \<and>
      pod_canonical v' \<and> dec_rat v' = dec_rat \<lparr>mantissa = -12340, exponent = -2\<rparr>)"
proof -
  have c: "pod_canonical \<lparr>mantissa = -12340, exponent = -2\<rparr>"
    by (simp add: pod_canonical_def INT64_MIN_def INT64_MAX_def kCanonicalExpMin_def kCanonicalExpMax_def)
  show ?thesis using c to_chars_round_trip [OF c, of "replicate 41 (CHR ''x'')"] by simp
qed

subsection \<open>The wide product\<close>

lemma unat_less_64: "unat (x :: 64 word) < 2 ^ 64"
proof -
  have "unat x < 2 ^ LENGTH(64)" by (rule unsigned_less)
  then show ?thesis by simp
qed

lemma mask32: "(0xFFFFFFFF :: 64 word) = mask 32" by (simp add: mask_eq_exp_minus_1)

lemma unat_and_mask32: "unat (x AND 0xFFFFFFFF :: 64 word) = unat x mod 2 ^ 32"
  unfolding mask32 take_bit_eq_mask [symmetric] unsigned_take_bit_eq by (rule take_bit_eq_mod)

lemma unat_drop_bit32: "unat (drop_bit 32 x :: 64 word) = unat x div 2 ^ 32"
  by (simp only: unat_drop_bit_eq) (rule drop_bit_eq_div)

lemma unat_join32: "unat (push_bit 32 t OR (x AND 0xFFFFFFFF) :: 64 word) = unat t mod 2 ^ 32 * 2 ^ 32 + unat x mod 2 ^ 32"
proof -
  have "push_bit 32 t OR (x AND 0xFFFFFFFF) = push_bit 32 t + (x AND 0xFFFFFFFF)"
    unfolding mask32 by (intro disjunctive_add [symmetric]) (auto simp: bit_simps)
  then have "unat (push_bit 32 t OR (x AND 0xFFFFFFFF)) = (unat (push_bit 32 t) + unat x mod 2 ^ 32) mod 2 ^ 64"
    by (simp only: unat_word_ariths unat_and_mask32) simp
  moreover have "unat (push_bit 32 t) = unat t mod 2 ^ 32 * 2 ^ 32"
  proof -
    have "unat (push_bit 32 t) = unat t * 2 ^ 32 mod (2 ^ 32 * 2 ^ 32)"
      by (simp add: push_bit_eq_mult unat_word_ariths)
    then show ?thesis by (simp only: mult_mod_left [symmetric])
  qed
  moreover have "unat t mod 2 ^ 32 * 2 ^ 32 + unat x mod 2 ^ 32 < 2 ^ 64"
  proof -
    have "unat t mod 2 ^ 32 < 2 ^ 32" "unat x mod 2 ^ 32 < 2 ^ 32" by simp_all
    then show ?thesis by simp
  qed
  ultimately show ?thesis by simp
qed

text \<open>The partial products of two 64-bit numbers split at bit 32.\<close>

lemma mul_limbs:
  fixes al ah bl bh :: nat
  defines "t0 \<equiv> al * bl"
  defines "t1 \<equiv> ah * bl + t0 div 2 ^ 32"
  defines "t2 \<equiv> al * bh + t1 mod 2 ^ 32"
  assumes "al < 2 ^ 32" "ah < 2 ^ 32" "bl < 2 ^ 32" "bh < 2 ^ 32"
  shows "t0 < 2 ^ 64" "t1 < 2 ^ 64" "t2 < 2 ^ 64"
    "ah * bh + t1 div 2 ^ 32 + t2 div 2 ^ 32 < 2 ^ 64"
    "(ah * 2 ^ 32 + al) * (bh * 2 ^ 32 + bl) =
       (ah * bh + t1 div 2 ^ 32 + t2 div 2 ^ 32) * 2 ^ 64 + (t2 mod 2 ^ 32 * 2 ^ 32 + t0 mod 2 ^ 32)"
proof -
  let ?B = "2 ^ 32 :: nat"
  have m: "x * y \<le> (?B - 1) * (?B - 1)" if "x < ?B" "y < ?B" for x y
    using that by (intro mult_le_mono) simp_all
  have p: "al * bl \<le> (?B - 1) * (?B - 1)" "ah * bl \<le> (?B - 1) * (?B - 1)"
    "al * bh \<le> (?B - 1) * (?B - 1)" "ah * bh \<le> (?B - 1) * (?B - 1)"
    using assms(4-7) by (blast intro: m)+
  have d0: "t0 = t0 div ?B * ?B + t0 mod ?B" and d1: "t1 = t1 div ?B * ?B + t1 mod ?B"
    and d2: "t2 = t2 div ?B * ?B + t2 mod ?B" by simp_all
  have b0: "t0 div ?B \<le> ?B - 2" using p(1) by (simp add: t0_def) 
  have t1: "t1 \<le> (?B - 1) * (?B - 1) + (?B - 2)" using p(2) b0 by (simp add: t1_def)
  have b1: "t1 div ?B \<le> ?B - 1" using t1 by simp
  have t2: "t2 \<le> (?B - 1) * (?B - 1) + (?B - 1)" using p(3) by (simp add: t2_def) 
  have b2: "t2 div ?B \<le> ?B - 1" using t2 by simp
  show "t0 < 2 ^ 64" using p(1) by (simp add: t0_def)
  show "t1 < 2 ^ 64" using t1 by simp
  show "t2 < 2 ^ 64" using t2 by simp
  have "(ah * ?B + al) * (bh * ?B + bl) = ah * bh * ?B * ?B + (ah * bl + al * bh) * ?B + al * bl"
    by (simp add: algebra_simps)
  also have "al * bl = t0 div ?B * ?B + t0 mod ?B" using d0 by (simp add: t0_def)
  also have "ah * bh * ?B * ?B + (ah * bl + al * bh) * ?B + (t0 div ?B * ?B + t0 mod ?B) =
      ah * bh * ?B * ?B + (t1 + al * bh) * ?B + t0 mod ?B" by (simp add: t1_def algebra_simps)
  also have "t1 + al * bh = t1 div ?B * ?B + t2" using d1 by (simp add: t2_def)
  also have "ah * bh * ?B * ?B + (t1 div ?B * ?B + t2) * ?B + t0 mod ?B =
      (ah * bh + t1 div ?B + t2 div ?B) * ?B * ?B + (t2 mod ?B * ?B + t0 mod ?B)"
    using d2 by (metis (no_types, lifting) add.assoc add_mult_distrib)
  finally show eq: "(ah * 2 ^ 32 + al) * (bh * 2 ^ 32 + bl) =
       (ah * bh + t1 div 2 ^ 32 + t2 div 2 ^ 32) * 2 ^ 64 + (t2 mod 2 ^ 32 * 2 ^ 32 + t0 mod 2 ^ 32)"
    by simp
  have "(ah * ?B + al) * (bh * ?B + bl) < 2 ^ 64 * 2 ^ 64"
    using assms(4-7) by (intro mult_strict_mono) auto
  then show "ah * bh + t1 div 2 ^ 32 + t2 div 2 ^ 32 < 2 ^ 64"
    unfolding eq by (metis add_lessD1 mult_less_cancel2)
qed

lemma mul_u64_wide_exact:
  "mul_u64_wide a b = (hi, lo) \<Longrightarrow> unat a * unat b = unat hi * 2 ^ 64 + unat lo"
proof -
  assume mul: "mul_u64_wide a b = (hi, lo)"
  let ?al = "unat a mod 2 ^ 32" and ?ah = "unat a div 2 ^ 32"
  let ?bl = "unat b mod 2 ^ 32" and ?bh = "unat b div 2 ^ 32"
  let ?t0 = "?al * ?bl"
  let ?t1 = "?ah * ?bl + ?t0 div 2 ^ 32"
  let ?t2 = "?al * ?bh + ?t1 mod 2 ^ 32"
  have less: "?al < 2 ^ 32" "?ah < 2 ^ 32" "?bl < 2 ^ 32" "?bh < 2 ^ 32"
    using unat_less_64 [of a] unat_less_64 [of b] by (auto simp: less_mult_imp_div_less)
  note limbs = mul_limbs [OF less]
  define t0 where "t0 = (a AND 0xFFFFFFFF) * (b AND 0xFFFFFFFF)"
  define t1 where "t1 = drop_bit 32 a * (b AND 0xFFFFFFFF) + drop_bit 32 t0"
  define t2 where "t2 = (a AND 0xFFFFFFFF) * drop_bit 32 b + (t1 AND 0xFFFFFFFF)"
  have t0: "unat t0 = ?t0"
    unfolding t0_def unat_word_ariths unat_and_mask32 using limbs(1) by simp
  have t1: "unat t1 = ?t1"
    unfolding t1_def unat_word_ariths unat_and_mask32 unat_drop_bit32 t0 using limbs(2)
    by (simp add: mod_add_left_eq)
  have t2: "unat t2 = ?t2"
    unfolding t2_def unat_word_ariths unat_and_mask32 unat_drop_bit32 t1 using limbs(3)
    by (simp add: mod_add_left_eq)
  have "hi = drop_bit 32 a * drop_bit 32 b + drop_bit 32 t1 + drop_bit 32 t2"
    "lo = push_bit 32 t2 OR (t0 AND 0xFFFFFFFF)"
    using mul by (auto simp: mul_u64_wide_def Let_def t0_def t1_def t2_def)
  then have "unat hi = ?ah * ?bh + ?t1 div 2 ^ 32 + ?t2 div 2 ^ 32" "unat lo = ?t2 mod 2 ^ 32 * 2 ^ 32 + ?t0 mod 2 ^ 32"
    using limbs(4) by (simp_all only: unat_join32 t0 t2 unat_word_ariths unat_drop_bit32 t1)
      (simp add: mod_add_left_eq)
  then show ?thesis using limbs(5) by (simp only: div_mult_mod_eq)
qed


subsection \<open>Comparison is the order of the rationals\<close>

lemma unat_kPow10: "k < 19 \<Longrightarrow> unat (kPow10 ! k) = 10 ^ k"
proof -
  assume k: "k < 19"
  have "map unat kPow10 = map (\<lambda>k. 10 ^ k) [0..<19]" by (simp add: kPow10_def upt_rec)
  then have "map unat kPow10 ! k = map (\<lambda>k. 10 ^ k) [0..<19] ! k" by simp
  moreover have "length kPow10 = 19" by (simp add: kPow10_def)
  ultimately show ?thesis using k by simp
qed

lemma scaled_vs_other_exact:
  assumes "0 < unat m" "unat y < 2 ^ 63"
  shows "scaled_vs_other m k y = three_way (unat m * 10 ^ k) (unat y)"
proof (cases "k \<ge> 19")
  case True
  have "(2::nat) ^ 63 \<le> 10 ^ 19" by simp
  also have "(10::nat) ^ 19 \<le> 10 ^ k" using True by (intro power_increasing) simp_all
  also have "\<dots> \<le> unat m * 10 ^ k" using assms(1) by simp
  finally show ?thesis using True assms(2) by (simp add: scaled_vs_other_def three_way_def)
next
  case False
  obtain hi lo where mul: "mul_u64_wide m (kPow10 ! k) = (hi, lo)" by fastforce
  have eq: "unat m * 10 ^ k = unat hi * 2 ^ 64 + unat lo"
    using mul_u64_wide_exact [OF mul] False by (simp add: unat_kPow10)
  show ?thesis
  proof (cases "hi = 0")
    case True
    with False mul eq show ?thesis
      by (auto simp: scaled_vs_other_def three_way_def word_less_nat_alt word_unat_eq_iff)
  next
    case hi: False
    then have "0 < unat hi" by (simp add: unat_gt_0)
    then have "2 ^ 64 \<le> unat m * 10 ^ k" unfolding eq by simp
    with hi False mul assms(2) show ?thesis by (simp add: scaled_vs_other_def three_way_def)
  qed
qed

lemma dec_rat_cmp:
  assumes "exponent b \<le> exponent a"
  shows "three_way (dec_rat a) (dec_rat b) =
    three_way (mantissa a * 10 ^ nat (exponent a - exponent b)) (mantissa b)"
proof -
  define k where "k = nat (exponent a - exponent b)"
  have e: "exponent a = exponent b + int k" using assms by (simp add: k_def)
  have pos: "0 < (10::rat) powi exponent b" by simp
  have a: "dec_rat a = of_int (mantissa a * 10 ^ k) * 10 powi exponent b"
    by (simp add: dec_rat_def e power_int_add)
  have "three_way (dec_rat a) (dec_rat b) = three_way (rat_of_int (mantissa a * 10 ^ k)) (rat_of_int (mantissa b))"
    unfolding a dec_rat_def [of b] by (rule three_way_scale [OF pos])
  also have "\<dots> = three_way (mantissa a * 10 ^ k) (mantissa b)"
    by (simp only: three_way_def of_int_less_iff of_int_eq_iff)
  finally show ?thesis by (simp add: k_def)
qed

lemma dec_rat_sign:
  "dec_rat v < 0 \<longleftrightarrow> mantissa v < 0" "dec_rat v = 0 \<longleftrightarrow> mantissa v = 0" "0 < dec_rat v \<longleftrightarrow> 0 < mantissa v"
proof -
  define p :: rat where "p = 10 powi exponent v"
  have "0 < p" by (simp add: p_def)
  then show "dec_rat v < 0 \<longleftrightarrow> mantissa v < 0" "dec_rat v = 0 \<longleftrightarrow> mantissa v = 0" "0 < dec_rat v \<longleftrightarrow> 0 < mantissa v"
    unfolding dec_rat_def p_def [symmetric] by (auto simp: mult_less_0_iff zero_less_mult_iff)
qed

lemma unat_magnitude:
  assumes "m \<noteq> INT64_MIN" "INT64_MIN \<le> m" "m \<le> INT64_MAX"
  shows "unat (word_of_int (if m < 0 then - m else m) :: 64 word) = nat \<bar>m\<bar>"
    "nat \<bar>m\<bar> < 2 ^ 63"
  using assms by (auto simp: INT64_MIN_def INT64_MAX_def unat_eq_nat_uint uint_word_of_int)

text \<open>One side of the wide comparison: the operand with the larger exponent is scaled.\<close>

lemma scaled_cmp:
  assumes "mantissa a \<noteq> 0" "mantissa b \<noteq> 0" "(mantissa a < 0) = (mantissa b < 0)"
    and "exponent b \<le> exponent a"
    and a: "unat ma = nat \<bar>mantissa a\<bar>" and b: "unat mb = nat \<bar>mantissa b\<bar>" "nat \<bar>mantissa b\<bar> < 2 ^ 63"
  shows "scaled_vs_other ma (nat (exponent a - exponent b)) mb =
    (if mantissa a < 0 then three_way (dec_rat b) (dec_rat a) else three_way (dec_rat a) (dec_rat b))"
proof -
  let ?k = "nat (exponent a - exponent b)"
  have "scaled_vs_other ma ?k mb = three_way (nat \<bar>mantissa a\<bar> * 10 ^ ?k) (nat \<bar>mantissa b\<bar>)"
    using scaled_vs_other_exact [of ma mb ?k] assms(1) a b by simp
  also have "\<dots> = three_way (int (nat \<bar>mantissa a\<bar> * 10 ^ ?k)) (int (nat \<bar>mantissa b\<bar>))"
    by (simp only: three_way_def of_nat_less_iff of_nat_eq_iff)
  also have "\<dots> = three_way (\<bar>mantissa a\<bar> * 10 ^ ?k) \<bar>mantissa b\<bar>" by simp
  also have "\<dots> = (if mantissa a < 0 then three_way (mantissa b) (mantissa a * 10 ^ ?k)
      else three_way (mantissa a * 10 ^ ?k) (mantissa b))"
    using assms(3) by (auto simp: three_way_def abs_if)
  also have "\<dots> = (if mantissa a < 0 then invert_ordering (three_way (dec_rat a) (dec_rat b))
      else three_way (dec_rat a) (dec_rat b))"
    by (simp add: dec_rat_cmp [OF assms(4)])
  finally show ?thesis by simp
qed

lemma decimal_compare_finite:
  assumes wf: "pod_wf a" "pod_wf b" and fin: "is_finite a" "is_finite b"
  shows "decimal_compare a b = three_way (dec_rat a) (dec_rat b)"
proof -
  let ?mag = "\<lambda>v. word_of_int (if mantissa v < 0 then - mantissa v else mantissa v) :: 64 word"
  have mag: "unat (?mag a) = nat \<bar>mantissa a\<bar>" "nat \<bar>mantissa a\<bar> < 2 ^ 63"
    "unat (?mag b) = nat \<bar>mantissa b\<bar>" "nat \<bar>mantissa b\<bar> < 2 ^ 63"
    using unat_magnitude [of "mantissa a"] unat_magnitude [of "mantissa b"] wf fin
    by (auto simp: pod_wf_def is_finite_def)
  note f = fin [unfolded is_finite_def]
  consider (signs) "(mantissa a < 0) \<noteq> (mantissa b < 0)"
    | (exps) "(mantissa a < 0) = (mantissa b < 0)" "exponent a = exponent b"
    | (zero) "(mantissa a < 0) = (mantissa b < 0)" "exponent a \<noteq> exponent b" "mantissa a = 0 \<or> mantissa b = 0"
    | (wide) "(mantissa a < 0) = (mantissa b < 0)" "exponent a \<noteq> exponent b" "mantissa a \<noteq> 0" "mantissa b \<noteq> 0"
    by blast
  then show ?thesis
  proof cases
    case signs
    then show ?thesis
      using f dec_rat_sign [of a] dec_rat_sign [of b]
      by (auto simp: decimal_compare_def three_way_def Let_def)
  next
    case exps
    then show ?thesis using f dec_rat_cmp [of b a] by (simp add: decimal_compare_def Let_def)
  next
    case zero
    then show ?thesis
      using f dec_rat_sign [of a] dec_rat_sign [of b]
      by (auto simp: decimal_compare_def three_way_def Let_def)
  next
    case wide
    consider "exponent b < exponent a" | "exponent a < exponent b" using wide by linarith
    then show ?thesis
    proof cases
      case 1
      then show ?thesis using f wide mag scaled_cmp [of a b "?mag a" "?mag b"]
        by (cases "mantissa a < 0") (simp_all add: decimal_compare_def Let_def)
    next
      case 2
      then show ?thesis using f wide mag scaled_cmp [of b a "?mag b" "?mag a"]
        by (cases "mantissa a < 0") (simp_all add: decimal_compare_def Let_def)
    qed
  qed
qed

text \<open>The ordering key of the comparator: the sentinel is above every finite value.\<close>

definition dec_key :: "pod_decimal \<Rightarrow> bool \<times> rat" where
  "dec_key v = (if is_finite v then (False, dec_rat v) else (True, 0))"

lemma decimal_compare_key:
  "pod_wf a \<Longrightarrow> pod_wf b \<Longrightarrow> decimal_compare a b = three_way (dec_key a) (dec_key b)"
proof (cases "is_finite a \<and> is_finite b")
  case True
  assume "pod_wf a" "pod_wf b"
  with True show ?thesis by (auto simp: decimal_compare_finite dec_key_def three_way_def less_prod_def)
next
  case False
  then show ?thesis by (auto simp: decimal_compare_def dec_key_def is_finite_def three_way_def less_prod_def Let_def)
qed

interpretation decimal_order: keyed_order pod_wf decimal_compare dec_key
  by unfold_locales (rule decimal_compare_key)

text \<open>
  C3.  The comparison of decimals is exact: for any two values of the C++ struct,
  \<^verbatim>\<open>decimal_traits<pod_decimal>::compare\<close> returns the order of the two rational numbers
  they stand for, whatever their exponents are and without any intermediate overflow,
  with the invalid sentinel equal to itself and above every finite value.
\<close>

theorem decimal_compare_exact:
  assumes "pod_wf a" "pod_wf b"
  shows "decimal_compare a b =
    (if is_finite a \<and> is_finite b then three_way (dec_rat a) (dec_rat b)
     else three_way (\<not> is_finite a) (\<not> is_finite b))"
  using assms decimal_compare_finite [of a b]
  by (auto simp: decimal_compare_def is_finite_def three_way_def Let_def)

theorem decimal_compare_exact_witness:
  "decimal_compare \<lparr>mantissa = 9223372036854775807, exponent = 0\<rparr> \<lparr>mantissa = 9223372036854775807, exponent = -1\<rparr>
     = ord_greater"
  using decimal_compare_exact [of "\<lparr>mantissa = 9223372036854775807, exponent = 0\<rparr>"
      "\<lparr>mantissa = 9223372036854775807, exponent = -1\<rparr>"]
  by (simp add: pod_wf_def is_finite_def INT64_MIN_def INT64_MAX_def dec_rat_def power_int_minus)

text \<open>
  C19.  The comparator is a total preorder, so sorting and ordered containers over decimals
  are well defined: it is reflexive, swapping the operands inverts the result, it is
  transitive, and values that compare equal (\<^verbatim>\<open>1.0\<close> and \<^verbatim>\<open>1.00\<close>) are interchangeable.
\<close>

theorem decimal_total_preorder:
  assumes "pod_wf a" "pod_wf b" "pod_wf c"
  shows "decimal_compare a a = ord_equal \<and>
    decimal_compare b a = invert_ordering (decimal_compare a b) \<and>
    (decimal_compare a b \<le> ord_equal \<longrightarrow> decimal_compare b c \<le> ord_equal \<longrightarrow>
     decimal_compare a c \<le> ord_equal) \<and>
    (decimal_compare a b = ord_equal \<longrightarrow> decimal_compare a c = decimal_compare b c)"
  using assms decimal_order.cmp_refl decimal_order.cmp_flip decimal_order.cmp_trans
    decimal_order.cmp_equal_cong by blast

theorem decimal_total_preorder_witness:
  "decimal_compare \<lparr>mantissa = 10, exponent = -1\<rparr> \<lparr>mantissa = 7, exponent = 0\<rparr> =
   decimal_compare \<lparr>mantissa = 100, exponent = -2\<rparr> \<lparr>mantissa = 7, exponent = 0\<rparr>"
proof -
  have "decimal_compare \<lparr>mantissa = 10, exponent = -1\<rparr> \<lparr>mantissa = 100, exponent = -2\<rparr> = ord_equal"
    by code_simp
  then show ?thesis
    using decimal_total_preorder [of "\<lparr>mantissa = 10, exponent = -1\<rparr>"
        "\<lparr>mantissa = 100, exponent = -2\<rparr>" "\<lparr>mantissa = 7, exponent = 0\<rparr>"]
    by (simp add: pod_wf_def INT64_MIN_def INT64_MAX_def)
qed

subsection \<open>The traits contract and the wrapper\<close>

text \<open>What \<^verbatim>\<open>decimal<T>\<close> relies on of a traits class: the bridge to \<^verbatim>\<open>pod_decimal\<close> keeps
  the number, in both directions.\<close>

locale decimal_traits =
  fixes to_pod_t :: "'t \<Rightarrow> pod_decimal expected_t"
    and from_pod_t :: "pod_decimal \<Rightarrow> 't expected_t"
    and number :: "'t \<Rightarrow> rat"
  assumes to_pod_number: "to_pod_t v = ok p \<Longrightarrow> dec_rat p = number v"
    and from_pod_number: "from_pod_t p = ok v \<Longrightarrow> number v = dec_rat p"

locale decimal_conversion = src: decimal_traits to_pod_u from_pod_u number_u +
    dst: decimal_traits to_pod_t from_pod_t number_t
  for to_pod_u :: "'u \<Rightarrow> pod_decimal expected_t" and from_pod_u and number_u
    and to_pod_t :: "'t \<Rightarrow> pod_decimal expected_t" and from_pod_t and number_t
begin

lemma decimal_from_number: "decimal_from to_pod_u from_pod_t v = ok w \<Longrightarrow> number_t w = number_u v"
  using src.to_pod_number dst.from_pod_number
  by (auto simp: decimal_from_def split: sum.splits if_splits)

lemma decimal_to_number: "decimal_to to_pod_u from_pod_t v = ok w \<Longrightarrow> number_t w = number_u v"
  using src.to_pod_number dst.from_pod_number
  by (auto simp: decimal_to_def split: sum.splits if_splits)

end

interpretation pod_traits: decimal_conversion to_pod from_pod dec_rat to_pod from_pod dec_rat
  by unfold_locales (auto simp: to_pod_def from_pod_def split: if_splits)

lemma from_pod_canonical:
  "pod_wf v \<Longrightarrow> from_pod v = (if pod_canonical v then ok v else unexpected decimal_overflow)"
  by (auto simp: from_pod_def pod_canonical_def pod_wf_def)

end
