(* ===== verification/Fixpp_Time.thy ===== *)
theory Fixpp_Time
  imports Fixpp_Prelude "HOL-Library.Signed_Division"
begin

text \<open>
  UTC timestamps, from \<^verbatim>\<open>include/fixpp/core/fix_time.hpp\<close> and \<^verbatim>\<open>src/core/fix_time.cpp\<close>:
  the calendar conversions, \<^verbatim>\<open>utc_time_to_fix_string\<close> and \<^verbatim>\<open>fix_string_to_utc_time\<close>.

  A \<^verbatim>\<open>utc_time_point\<close> is its count of nanoseconds, an \<^typ>\<open>int\<close> within \<^verbatim>\<open>std::int64_t\<close>
  (\<open>utc_wf\<close>).  C++ division truncates; it is \<open>sdiv\<close> and \<open>smod\<close> here wherever an operand can be
  negative.  The 64-bit unsigned arithmetic of the parser's range check and of its final
  composition is written out with \<open>to_u64\<close> and \<open>to_i64\<close>.
\<close>

subsection \<open>Digits\<close>

text \<open>The digits land at \<open>pos\<close>, right to left.\<close>

fun write_digits :: "byte list \<Rightarrow> nat \<Rightarrow> nat \<Rightarrow> nat \<Rightarrow> byte list" where
  "write_digits buf pos value 0 = buf"
| "write_digits buf pos value (Suc i) =
     write_digits (buf[pos + i := digit_char (value mod 10)]) pos (value div 10) i"

fun parse_digits_loop :: "byte list \<Rightarrow> nat \<Rightarrow> int \<Rightarrow> int" where
  "parse_digits_loop s 0 v = v"
| "parse_digits_loop [] (Suc w) v = -1"
| "parse_digits_loop (c # s) (Suc w) v =
     (if \<not> is_digit c then -1 else parse_digits_loop s w (v * 10 + int (digit_val c)))"

definition parse_digits :: "byte list \<Rightarrow> nat \<Rightarrow> int" where
  "parse_digits s width = parse_digits_loop s width 0"

subsection \<open>Calendar\<close>

record date_t =
  year :: int
  month :: int
  day :: int

definition is_leap :: "int \<Rightarrow> bool" where
  "is_leap y \<longleftrightarrow> (y smod 4 = 0 \<and> y smod 100 \<noteq> 0) \<or> y smod 400 = 0"

definition days_in_month :: "int \<Rightarrow> int \<Rightarrow> int" where
  "days_in_month y m =
     (if m = 2 \<and> is_leap y then 29
      else [0, 31, 28, 31, 30, 31, 30, 31, 31, 30, 31, 30, 31] ! nat m)"

definition days_to_date :: "int \<Rightarrow> date_t" where
  "days_to_date days =
     (let z = days + 719468;
          era = (if z \<ge> 0 then z else z - 146096) sdiv 146097;
          doe = z - era * 146097;
          yoe = (doe - doe div 1460 + doe div 36524 - doe div 146096) div 365;
          y = yoe + era * 400;
          doy = doe - (365 * yoe + yoe div 4 - yoe div 100);
          mp = (5 * doy + 2) div 153;
          d = doy - (153 * mp + 2) div 5 + 1;
          m = (if mp < 10 then mp + 3 else mp - 9);
          y = y + (if m \<le> 2 then 1 else 0)
      in \<lparr>year = y, month = m, day = d\<rparr>)"

definition date_to_days :: "int \<Rightarrow> int \<Rightarrow> int \<Rightarrow> int" where
  "date_to_days y m d =
     (let y = y - (if m \<le> 2 then 1 else 0);
          era = (if y \<ge> 0 then y else y - 399) sdiv 400;
          yoe = y - era * 400;
          doy = (153 * (if m > 2 then m - 3 else m + 9) + 2) div 5 + d - 1;
          doe = yoe * 365 + yoe div 4 - yoe div 100 + doy
      in era * 146097 + doe - 719468)"

subsection \<open>Nanosecond counts\<close>

definition kNsPerSec :: int where "kNsPerSec = 1000000000"

definition split_floored :: "int \<Rightarrow> int \<times> int" where
  "split_floored ns =
     (let sec = ns sdiv kNsPerSec; sub = ns smod kNsPerSec in
      if sub < 0 then (sec - 1, sub + kNsPerSec) else (sec, sub))"

definition utc_wf :: "int \<Rightarrow> bool" where
  "utc_wf tp \<longleftrightarrow> INT64_MIN \<le> tp \<and> tp \<le> INT64_MAX"

subsection \<open>Formatting\<close>

datatype fix_time_precision = seconds | millis | micros | nanos

fun needed_chars :: "fix_time_precision \<Rightarrow> nat" where
  "needed_chars seconds = 17"
| "needed_chars millis = 21"
| "needed_chars micros = 24"
| "needed_chars nanos = 27"

definition write_char :: "byte list \<Rightarrow> nat \<Rightarrow> byte \<Rightarrow> byte list" where
  "write_char buf pos c = buf[pos := c]"

text \<open>The sub-second suffix: the new buffer and the end position.\<close>

definition write_subsecond :: "byte list \<Rightarrow> fix_time_precision \<Rightarrow> int \<Rightarrow> byte list \<times> nat" where
  "write_subsecond out prec ns_rem =
     (case prec of
        seconds \<Rightarrow> (out, 17)
      | millis \<Rightarrow> (write_digits (write_char out 17 (CHR ''.'')) 18 (nat (ns_rem sdiv 1000000)) 3, 21)
      | micros \<Rightarrow> (write_digits (write_char out 17 (CHR ''.'')) 18 (nat (ns_rem sdiv 1000)) 6, 24)
      | nanos \<Rightarrow> (write_digits (write_char out 17 (CHR ''.'')) 18 (nat ns_rem) 9, 27))"

text \<open>The result is the buffer and the length of the returned span, which starts at 0.\<close>

definition utc_time_to_fix_string ::
    "int \<Rightarrow> fix_time_precision \<Rightarrow> byte list \<Rightarrow> (byte list \<times> nat) expected_t" where
  "utc_time_to_fix_string tp prec out =
     (if length out < needed_chars prec then unexpected decimal_buffer_too_small
      else
        let sec_total = tp div kNsPerSec;
            ns_rem = tp smod kNsPerSec;
            ns_rem = (if ns_rem < 0 then ns_rem + kNsPerSec else ns_rem);
            day_count = sec_total sdiv 86400;
            time_of_day = sec_total smod 86400;
            epoch_days = (if time_of_day < 0 then day_count - 1 else day_count);
            time_of_day = (if time_of_day < 0 then time_of_day + 86400 else time_of_day);
            HH = time_of_day sdiv 3600;
            MM = (time_of_day smod 3600) sdiv 60;
            SS = time_of_day smod 60;
            dt = days_to_date epoch_days;
            out = write_digits out 0 (nat (year dt)) 4;
            out = write_digits out 4 (nat (month dt)) 2;
            out = write_digits out 6 (nat (day dt)) 2;
            out = write_char out 8 (CHR ''-'');
            out = write_digits out 9 (nat HH) 2;
            out = write_char out 11 (CHR '':'');
            out = write_digits out 12 (nat MM) 2;
            out = write_char out 14 (CHR '':'');
            out = write_digits out 15 (nat SS) 2
        in ok (write_subsecond out prec ns_rem))"

subsection \<open>Parsing\<close>

text \<open>The fraction loop: the accumulated digits, or \<^const>\<open>None\<close> on a non-digit.\<close>

fun fraction_loop :: "byte list \<Rightarrow> nat \<Rightarrow> int \<Rightarrow> int option" where
  "fraction_loop p 0 acc = Some acc"
| "fraction_loop [] (Suc w) acc = None"
| "fraction_loop (c # p) (Suc w) acc =
     (if \<not> is_digit c then None else fraction_loop p w (acc * 10 + int (digit_val c)))"

definition fraction_scale :: "int list" where
  "fraction_scale =
     [1000000000, 100000000, 10000000, 1000000, 100000, 10000, 1000, 100, 10, 1]"

definition parse_fraction :: "byte list \<Rightarrow> int expected_t" where
  "parse_fraction s =
     (if length s > 17 then
        let fraction_width = length s - 18 in
        case fraction_loop (drop 18 s) fraction_width 0 of
          None \<Rightarrow> unexpected wire_invalid_field_format
        | Some v \<Rightarrow> ok (v * fraction_scale ! fraction_width)
      else ok 0)"

text \<open>The end of the parser: the range check and the composition of the nanosecond count.\<close>

definition compose_utc :: "int \<Rightarrow> int \<Rightarrow> int expected_t" where
  "compose_utc epoch_sec ns_sub =
     (let (max_sec, max_sub) = split_floored INT64_MAX;
          (min_sec, min_sub) = split_floored INT64_MIN;
          ns_count = to_i64 (to_u64 (to_u64 epoch_sec * to_u64 kNsPerSec + to_u64 ns_sub))
      in if to_u64 (epoch_sec - (min_sec + 1)) \<ge> to_u64 (max_sec - min_sec - 1) \<and>
            ((epoch_sec > max_sec \<or> epoch_sec = max_sec \<and> ns_sub > max_sub) \<or>
             (epoch_sec < min_sec \<or> epoch_sec = min_sec \<and> ns_sub < min_sub))
         then unexpected wire_invalid_field_format
         else ok ns_count)"

definition fix_string_to_utc_time :: "byte list \<Rightarrow> int expected_t" where
  "fix_string_to_utc_time s =
     (let bad = unexpected wire_invalid_field_format; len = length s in
      if len < 17 \<or> len = 18 \<or> len > 27 then bad
      else if len > 17 \<and> s ! 17 \<noteq> CHR ''.'' then bad
      else let year_i = parse_digits s 4 in
      if year_i < 0 then bad
      else let month_i = parse_digits (drop 4 s) 2 in
      if month_i < 1 \<or> month_i > 12 then bad
      else let day_i = parse_digits (drop 6 s) 2 in
      if day_i < 1 \<or> day_i > 31 then bad
      else if day_i > days_in_month year_i month_i then bad
      else if s ! 8 \<noteq> CHR ''-'' then bad
      else let hh_i = parse_digits (drop 9 s) 2 in
      if hh_i < 0 \<or> hh_i > 23 then bad
      else if s ! 11 \<noteq> CHR '':'' then bad
      else let mm_i = parse_digits (drop 12 s) 2 in
      if mm_i < 0 \<or> mm_i > 59 then bad
      else if s ! 14 \<noteq> CHR '':'' then bad
      else let ss_i = parse_digits (drop 15 s) 2 in
      if ss_i < 0 \<or> ss_i > 60 then bad
      else case parse_fraction s of
        Inl e \<Rightarrow> unexpected e
      | Inr ns_sub \<Rightarrow>
          let epoch_days = date_to_days year_i month_i day_i;
              epoch_sec = epoch_days * 86400 + hh_i * 3600 + mm_i * 60 + ss_i
          in compose_utc epoch_sec ns_sub)"

subsection \<open>Truncating division\<close>

lemma tdiv_pos: "0 < b \<Longrightarrow> (a::int) sdiv b = (if 0 \<le> a then a div b else - (- a div b))"
  by (cases "a = 0") (auto simp: signed_divide_int_def sgn_if)

lemma tmod_pos: "0 < b \<Longrightarrow> (a::int) smod b = (if 0 \<le> a then a mod b else - (- a mod b))"
  by (cases "a = 0") (auto simp: signed_modulo_int_def sgn_if)

lemma tmod_zero_iff: "0 < b \<Longrightarrow> (a::int) smod b = 0 \<longleftrightarrow> a mod b = 0"
  by (auto simp: tmod_pos zmod_zminus1_eq_if) (metis less_irrefl pos_mod_bound)

text \<open>The correction of a truncated quotient and remainder to the floored ones.\<close>

lemma tdiv_floor:
  fixes a b :: int
  assumes "0 < b"
  shows "(if a smod b < 0 then a smod b + b else a smod b) = a mod b"
    and "(if a smod b < 0 then a sdiv b - 1 else a sdiv b) = a div b"
  using assms pos_mod_bound [of b a] pos_mod_sign [of b a]
  by (auto simp: tmod_pos tdiv_pos zmod_zminus1_eq_if zdiv_zminus1_eq_if simp del: pos_mod_sign)

lemma era_floor: "0 < b \<Longrightarrow> c = b - 1 \<Longrightarrow> (if z \<ge> 0 then z else z - c) sdiv b = (z::int) div b"
proof -
  assume b: "0 < b" "c = b - 1"
  have "(b - 1 - z) div b = - (z div b)"
  proof (rule int_div_pos_eq)
    show "b - 1 - z = b * - (z div b) + (b - 1 - z mod b)"
      using mult_div_mod_eq [of b z] by (simp add: algebra_simps)
  qed (use b pos_mod_bound [of b z] pos_mod_sign [of b z] in linarith)+
  then show ?thesis using b by (simp add: tdiv_pos)
qed

subsection \<open>Digits in a buffer\<close>

lemma write_digits_overwrite:
  "pos + w \<le> length buf \<Longrightarrow> write_digits buf pos v w = overwrite buf pos (dec_fixed w v)"
proof (induction w arbitrary: buf v)
  case 0
  then show ?case by simp
next
  case (Suc w)
  have "write_digits buf pos v (Suc w) =
      overwrite (buf[pos + w := digit_char (v mod 10)]) pos (dec_fixed w (v div 10))"
    using Suc by simp
  also have "\<dots> = overwrite buf pos (dec_fixed w (v div 10) @ [digit_char (v mod 10)])"
    using Suc.prems by (simp add: overwrite_def upd_conv_take_nth_drop)
  finally show ?case by simp
qed

lemma write_char_overwrite: "pos < length buf \<Longrightarrow> write_char buf pos c = overwrite buf pos [c]"
  by (simp add: write_char_def overwrite_update)

lemma parse_digits_loop_value:
  "parse_digits_loop (xs @ ys) (length xs) (int v) = (if digits xs then int (dec_acc v xs) else -1)"
proof (induction xs arbitrary: v)
  case Nil
  then show ?case by simp
next
  case (Cons c xs)
  show ?case using Cons.IH [of "v * 10 + digit_val c"] by simp
qed

lemma parse_digits_value:
  "length xs = w \<Longrightarrow> parse_digits (xs @ ys) w = (if digits xs then int (dec_value xs) else -1)"
  using parse_digits_loop_value [of xs ys 0] by (auto simp: parse_digits_def dec_value_def)

lemma fraction_loop_value:
  "fraction_loop (xs @ ys) (length xs) (int v) = (if digits xs then Some (int (dec_acc v xs)) else None)"
proof (induction xs arbitrary: v)
  case Nil
  then show ?case by simp
next
  case (Cons c xs)
  show ?case using Cons.IH [of "v * 10 + digit_val c"] by simp
qed

subsection \<open>The calendar\<close>

text \<open>A year of the era starts on 1 March; \<open>yoe_start\<close> is its first day of the era, and
  \<open>yoe_end\<close> the day after its last, which for the last year is the end of the era.\<close>

definition yoe_start :: "int \<Rightarrow> int" where
  "yoe_start y = 365 * y + y div 4 - y div 100"

definition yoe_end :: "int \<Rightarrow> int" where
  "yoe_end y = (if y = 399 then 146097 else yoe_start (y + 1))"

definition yoe_num :: "int \<Rightarrow> int" where
  "yoe_num doe = doe - doe div 1460 + doe div 36524 - doe div 146096"

lemma div_Suc_bounds:
  assumes "0 < (n::int)"
  shows "x div n \<le> (x + 1) div n" "(x + 1) div n \<le> x div n + 1"
proof -
  show "x div n \<le> (x + 1) div n" using assms by (intro zdiv_mono1) simp_all
  have "(x + 1) div n \<le> (x + n) div n" using assms by (intro zdiv_mono1) simp_all
  also have "\<dots> = x div n + 1" using assms by (intro div_add_self2) simp
  finally show "(x + 1) div n \<le> x div n + 1" .
qed

lemma yoe_num_step: "yoe_num x \<le> yoe_num (x + 1)"
proof -
  have four: "z div 146096 = z div 36524 div 4" for z :: int
    using zdiv_zmult2_eq [of 4 z 36524] by simp
  let ?q = "x div 36524" and ?q' = "(x + 1) div 36524"
  have "?q' = ?q \<or> ?q' = ?q + 1" using div_Suc_bounds [of 36524 x] by linarith
  then have "?q - ?q div 4 \<le> ?q' - ?q' div 4"
    using div_Suc_bounds [of 4 ?q] by auto
  then show ?thesis
    unfolding yoe_num_def four using div_Suc_bounds [of 1460 x] by linarith
qed

lemma yoe_num_mono: "x \<le> y \<Longrightarrow> yoe_num x \<le> yoe_num y"
  by (induction y rule: int_ge_induct) (use yoe_num_step order_trans in \<open>blast+\<close>)

text \<open>The 400 years of an era: the boundary days fall on the right side of the division,
  and a year of 366 days ends in the February of a leap year.\<close>

definition era_table_ok :: "int \<Rightarrow> bool" where
  "era_table_ok y \<longleftrightarrow> 365 * y \<le> yoe_num (yoe_start y) \<and> yoe_num (yoe_end y - 1) < 365 * (y + 1) \<and>
     yoe_end y - yoe_start y = (if is_leap (y + 1) then 366 else 365)"

lemma era_table: "0 \<le> y \<Longrightarrow> y \<le> 399 \<Longrightarrow> era_table_ok y"
proof -
  have "list_all era_table_ok [0..399]" by code_simp
  then show "0 \<le> y \<Longrightarrow> y \<le> 399 \<Longrightarrow> era_table_ok y" by (simp add: list_all_iff)
qed

lemma yoe_of_day:
  assumes "0 \<le> y" "y \<le> 399" "yoe_start y \<le> doe" "doe < yoe_end y"
  shows "yoe_num doe div 365 = y"
proof -
  have "365 * y \<le> yoe_num doe"
    using era_table [OF assms(1,2)] yoe_num_mono [OF assms(3)] by (simp add: era_table_ok_def)
  moreover have "yoe_num doe < 365 * (y + 1)"
    using era_table [OF assms(1,2)] yoe_num_mono [of doe "yoe_end y - 1"] assms(4)
    by (simp add: era_table_ok_def)
  ultimately show ?thesis by (intro int_div_pos_eq [of _ _ _ "yoe_num doe - 365 * y"]) simp_all
qed

lemma yoe_covers:
  assumes "0 \<le> doe" "doe < 146097"
  defines "y \<equiv> yoe_num doe div 365"
  shows "0 \<le> y" "y \<le> 399" "yoe_start y \<le> doe" "doe < yoe_end y"
proof -
  have "0 \<le> yoe_num doe" using yoe_num_mono [OF assms(1)] by (simp add: yoe_num_def)
  moreover have "yoe_num doe \<le> 145999" using yoe_num_mono [of doe 146096] assms(2) by (simp add: yoe_num_def)
  ultimately show y: "0 \<le> y" "y \<le> 399" unfolding y_def by linarith+
  have bounds: "365 * y \<le> yoe_num doe" "yoe_num doe < 365 * (y + 1)"
    unfolding y_def using mult_div_mod_eq [of 365 "yoe_num doe"] pos_mod_bound [of 365 "yoe_num doe"]
      pos_mod_sign [of 365 "yoe_num doe"] by simp_all
  show "yoe_start y \<le> doe"
  proof (rule ccontr)
    assume less: "\<not> yoe_start y \<le> doe"
    have "y \<noteq> 0" using less assms(1) by (auto simp: yoe_start_def)
    then have "yoe_num (yoe_end (y - 1) - 1) < 365 * y" "yoe_end (y - 1) = yoe_start y"
      using y era_table [of "y - 1"] by (auto simp: era_table_ok_def yoe_end_def)
    then show False using less bounds yoe_num_mono [of doe "yoe_start y - 1"] by simp
  qed
  show "doe < yoe_end y"
  proof (rule ccontr)
    assume ge: "\<not> doe < yoe_end y"
    then have "y \<noteq> 399" using assms(2) by (auto simp: yoe_end_def)
    then have "365 * (y + 1) \<le> yoe_num (yoe_start (y + 1))" "yoe_end y = yoe_start (y + 1)"
      using y era_table [of "y + 1"] by (auto simp: era_table_ok_def yoe_end_def)
    then show False using ge bounds yoe_num_mono [of "yoe_start (y + 1)" doe] by simp
  qed
qed

text \<open>The months of such a year, March first.\<close>

definition mp_length :: "bool \<Rightarrow> int \<Rightarrow> int" where
  "mp_length leap mp =
     (if mp = 11 then (if leap then 29 else 28) else [31, 30, 31, 30, 31, 31, 30, 31, 30, 31, 31] ! nat mp)"

definition mp_of :: "int \<Rightarrow> int" where "mp_of doy = (5 * doy + 2) div 153"
definition mp_start :: "int \<Rightarrow> int" where "mp_start mp = (153 * mp + 2) div 5"

definition mp_covers_ok :: "bool \<Rightarrow> int \<Rightarrow> bool" where
  "mp_covers_ok leap doy \<longleftrightarrow> 0 \<le> mp_of doy \<and> mp_of doy \<le> 11 \<and> mp_start (mp_of doy) \<le> doy \<and>
     doy < mp_start (mp_of doy) + mp_length leap (mp_of doy)"

lemma mp_covers:
  assumes "0 \<le> doy" "doy < (if leap then 366 else 365)"
  shows "mp_covers_ok leap doy"
proof -
  have "list_all (mp_covers_ok True) [0..365]" "list_all (mp_covers_ok False) [0..364]" by code_simp+
  then show ?thesis using assms by (cases leap) (simp_all add: list_all_iff)
qed

definition mp_inverse_ok :: "bool \<Rightarrow> int \<Rightarrow> int \<Rightarrow> bool" where
  "mp_inverse_ok leap mp d \<longleftrightarrow> 0 \<le> mp_start mp \<and> mp_of (mp_start mp + d - 1) = mp \<and>
     mp_start mp + d - 1 < (if leap then 366 else 365)"

lemma mp_of_day:
  assumes "0 \<le> mp" "mp \<le> 11" "1 \<le> d" "d \<le> mp_length leap mp"
  shows "mp_inverse_ok leap mp d"
proof -
  have "list_all (\<lambda>mp. list_all (mp_inverse_ok True mp) [1..mp_length True mp]) [0..11]"
    "list_all (\<lambda>mp. list_all (mp_inverse_ok False mp) [1..mp_length False mp]) [0..11]"
    by code_simp+
  then show ?thesis using assms by (cases leap) (simp_all add: list_all_iff)
qed

definition valid_date :: "int \<Rightarrow> int \<Rightarrow> int \<Rightarrow> bool" where
  "valid_date y m d \<longleftrightarrow> 1 \<le> m \<and> m \<le> 12 \<and> 1 \<le> d \<and> d \<le> days_in_month y m"

lemma is_leap_mod: "is_leap y \<longleftrightarrow> (y mod 4 = 0 \<and> y mod 100 \<noteq> 0) \<or> y mod 400 = 0"
  by (simp add: is_leap_def tmod_zero_iff)

lemma is_leap_era: "is_leap (y + e * 400) = is_leap y"
proof -
  have "(y + e * 400) mod 4 = y mod 4" "(y + e * 400) mod 100 = y mod 100"
    using mod_mult_self1 [of y "e * 100" 4] mod_mult_self1 [of y "e * 4" 100] by (simp_all add: mult.assoc)
  then show ?thesis by (simp add: is_leap_mod)
qed

text \<open>Both conversions in terms of the era, the year of the era and the month.\<close>

lemma yoe_range:
  assumes "0 \<le> y" "y \<le> 399"
  shows "0 \<le> yoe_start y" "yoe_end y \<le> 146097"
proof -
  have "0 \<le> y div 4 - y div 100" using zdiv_mono2 [of y 4 100] assms by simp
  then show "0 \<le> yoe_start y" using assms by (simp add: yoe_start_def)
  show "yoe_end y \<le> 146097"
  proof (cases "y = 399")
    case False
    then have "y \<le> 398" using assms by simp
    moreover have "(y + 1) div 4 \<le> 100" using assms by linarith
    moreover have "0 \<le> (y + 1) div 100" using assms by simp
    ultimately show ?thesis using False unfolding yoe_end_def yoe_start_def by simp
  qed (simp add: yoe_end_def)
qed

lemma days_to_date_era:
  assumes "0 \<le> y" "y \<le> 399" "yoe_start y \<le> doe" "doe < yoe_end y"
  shows "days_to_date (e * 146097 + doe - 719468) =
    (let doy = doe - yoe_start y; mp = mp_of doy; m = (if mp < 10 then mp + 3 else mp - 9)
     in \<lparr>year = y + e * 400 + (if m \<le> 2 then 1 else 0), month = m, day = doy - mp_start mp + 1\<rparr>)"
proof -
  have doe: "0 \<le> doe" "doe < 146097" using assms yoe_range [OF assms(1,2)] by simp_all
  let ?z = "e * 146097 + doe"
  have era: "(if ?z \<ge> 0 then ?z else ?z - 146096) sdiv 146097 = e"
    by (subst era_floor) (use doe in simp_all)
  have yoe: "(doe - doe div 1460 + doe div 36524 - doe div 146096) div 365 = y"
    using yoe_of_day [OF assms] by (simp add: yoe_num_def)
  have z: "e * 146097 + doe - 719468 + 719468 = ?z" "?z - e * 146097 = doe" by simp_all
  show ?thesis
    unfolding days_to_date_def Let_def by (simp only: z era yoe yoe_start_def mp_of_def mp_start_def)
qed

lemma date_to_days_era:
  assumes "0 \<le> y" "y \<le> 399" "0 \<le> mp" "mp \<le> 11"
  defines "m \<equiv> if mp < 10 then mp + 3 else mp - 9"
  shows "date_to_days (y + e * 400 + (if m \<le> 2 then 1 else 0)) m d =
    e * 146097 + (yoe_start y + mp_start mp + d - 1) - 719468"
proof -
  let ?y = "y + e * 400"
  have era: "(if ?y \<ge> 0 then ?y else ?y - 399) sdiv 400 = e"
    by (subst era_floor) (use assms(1,2) in simp_all)
  have mp: "(if m > 2 then m - 3 else m + 9) = mp" using assms(3,4) by (simp add: m_def)
  have y: "?y + c - c = ?y" "?y - e * 400 = y" for c by simp_all
  show ?thesis
    unfolding date_to_days_def Let_def by (simp only: y era mp) (simp add: yoe_start_def mp_start_def)
qed

lemma civil_length:
  assumes "0 \<le> mp" "mp \<le> 11"
  defines "m \<equiv> if mp < 10 then mp + 3 else mp - 9"
  shows "days_in_month (y + e * 400 + (if m \<le> 2 then 1 else 0)) m = mp_length (is_leap (y + 1)) mp"
proof -
  have "mp = 0 \<or> mp = 1 \<or> mp = 2 \<or> mp = 3 \<or> mp = 4 \<or> mp = 5 \<or> mp = 6 \<or> mp = 7 \<or> mp = 8 \<or>
      mp = 9 \<or> mp = 10 \<or> mp = 11" using assms(1,2) by arith
  then show ?thesis using is_leap_era [of "y + 1" e]
    by (auto simp: days_in_month_def mp_length_def m_def algebra_simps)
qed

subsection \<open>The calendar conversions are inverse\<close>

lemma days_to_date_valid:
  "valid_date (year (days_to_date n)) (month (days_to_date n)) (day (days_to_date n)) \<and>
   date_to_days (year (days_to_date n)) (month (days_to_date n)) (day (days_to_date n)) = n"
proof -
  define e doe where "e = (n + 719468) div 146097" and "doe = (n + 719468) mod 146097"
  define y where "y = yoe_num doe div 365"
  define doy mp where "doy = doe - yoe_start y" and "mp = mp_of doy"
  have n: "n = e * 146097 + doe - 719468"
    using div_mult_mod_eq [of "n + 719468" 146097] unfolding e_def doe_def by linarith
  have y: "0 \<le> y" "y \<le> 399" "yoe_start y \<le> doe" "doe < yoe_end y"
    using yoe_covers [of doe] by (simp_all add: doe_def y_def)
  have "0 \<le> doy" "doy < (if is_leap (y + 1) then 366 else 365)"
    using y era_table [OF y(1,2)] by (simp_all add: doy_def era_table_ok_def)
  note mp = mp_covers [OF this, folded mp_def, unfolded mp_covers_ok_def, folded mp_def]
  define m where "m = (if mp < 10 then mp + 3 else mp - 9)"
  have date: "days_to_date n =
      \<lparr>year = y + e * 400 + (if m \<le> 2 then 1 else 0), month = m, day = doy - mp_start mp + 1\<rparr>"
    unfolding n days_to_date_era [OF y] by (simp only: doy_def mp_def m_def Let_def)
  have "1 \<le> m" "m \<le> 12" using mp by (auto simp: m_def)
  moreover have "days_in_month (year (days_to_date n)) m = mp_length (is_leap (y + 1)) mp"
    using civil_length [of mp y e, folded m_def] mp unfolding date by simp
  moreover have "date_to_days (year (days_to_date n)) m (doy - mp_start mp + 1) = n"
    using date_to_days_era [OF y(1,2), of mp e "doy - mp_start mp + 1", folded m_def] mp
    unfolding date by (simp add: doy_def n)
  ultimately show ?thesis using mp unfolding date valid_date_def by simp
qed

lemma date_to_days_inverse:
  assumes "valid_date yr m d"
  shows "days_to_date (date_to_days yr m d) = \<lparr>year = yr, month = m, day = d\<rparr>"
proof -
  define mp where "mp = (if m > 2 then m - 3 else m + 9)"
  define yy where "yy = yr - (if m \<le> 2 then 1 else 0)"
  define e y where "e = yy div 400" and "y = yy mod 400"
  have mp: "0 \<le> mp" "mp \<le> 11" "(if mp < 10 then mp + 3 else mp - 9) = m"
    using assms by (auto simp: mp_def valid_date_def)
  have yr: "yr = y + e * 400 + (if m \<le> 2 then 1 else 0)"
    using div_mult_mod_eq [of yy 400] unfolding e_def y_def yy_def by linarith
  have y: "0 \<le> y" "y \<le> 399" using pos_mod_bound [of 400 yy] by (simp_all add: y_def)
  have len: "days_in_month yr m = mp_length (is_leap (y + 1)) mp"
    using civil_length [OF mp(1,2), of y e] mp(3) yr by simp
  have inv: "mp_inverse_ok (is_leap (y + 1)) mp d"
    using assms mp len by (intro mp_of_day) (simp_all add: valid_date_def)
  define doe where "doe = yoe_start y + mp_start mp + d - 1"
  have days: "date_to_days yr m d = e * 146097 + doe - 719468"
    using date_to_days_era [OF y mp(1,2), of e d] by (simp add: mp(3) yr doe_def)
  have "yoe_start y \<le> doe" "doe < yoe_end y"
    using inv era_table [OF y] assms
    by (auto simp: mp_inverse_ok_def era_table_ok_def doe_def valid_date_def split: if_splits)
  note date = days_to_date_era [OF y this, of e]
  have doy: "doe - yoe_start y = mp_start mp + d - 1" by (simp add: doe_def)
  have "mp_of (mp_start mp + d - 1) = mp" using inv by (simp add: mp_inverse_ok_def)
  then show ?thesis unfolding days date Let_def doy by (simp only: mp(3) yr) simp
qed

subsection \<open>The written text\<close>

definition utc_text :: "int \<Rightarrow> fix_time_precision \<Rightarrow> byte list" where
  "utc_text tp prec =
     (let sec = tp div kNsPerSec; ns = tp mod kNsPerSec; tod = sec mod 86400; dt = days_to_date (sec div 86400) in
      dec_fixed 4 (nat (year dt)) @ dec_fixed 2 (nat (month dt)) @ dec_fixed 2 (nat (day dt)) @ ''-'' @
      dec_fixed 2 (nat (tod div 3600)) @ '':'' @ dec_fixed 2 (nat (tod mod 3600 div 60)) @ '':'' @
      dec_fixed 2 (nat (tod mod 60)) @
      (case prec of seconds \<Rightarrow> []
       | millis \<Rightarrow> CHR ''.'' # dec_fixed 3 (nat (ns div 1000000))
       | micros \<Rightarrow> CHR ''.'' # dec_fixed 6 (nat (ns div 1000))
       | nanos \<Rightarrow> CHR ''.'' # dec_fixed 9 (nat ns)))"

lemma length_utc_text [simp]: "length (utc_text tp prec) = needed_chars prec"
  by (cases prec) (simp_all add: utc_text_def Let_def)

text \<open>The writes of the formatter concatenate.\<close>

lemma overwrite_chain:
  "n = pos + length a \<Longrightarrow> n + length b \<le> length buf \<Longrightarrow>
   overwrite (overwrite buf pos a) n b = overwrite buf pos (a @ b)"
  using overwrite_append [of pos a b buf] by simp

lemma utc_time_to_fix_string_text:
  assumes "needed_chars prec \<le> length out"
  shows "utc_time_to_fix_string tp prec out = ok (overwrite out 0 (utc_text tp prec), needed_chars prec)"
proof -
  have len: "17 \<le> length out" using assms by (cases prec) simp_all
  define tod where "tod = tp div kNsPerSec mod 86400"
  have tod: "0 \<le> tod" "tod < 86400" by (simp_all add: tod_def)
  have ns: "0 \<le> tp mod kNsPerSec" by (simp add: kNsPerSec_def)
  have trunc: "tod sdiv 3600 = tod div 3600" "tod smod 3600 = tod mod 3600" "tod smod 60 = tod mod 60"
    "(tod mod 3600) sdiv 60 = tod mod 3600 div 60"
    "(tp mod kNsPerSec) sdiv 1000000 = tp mod kNsPerSec div 1000000"
    "(tp mod kNsPerSec) sdiv 1000 = tp mod kNsPerSec div 1000"
    using tod ns by (simp_all add: tdiv_pos tmod_pos)
  show ?thesis
    unfolding utc_time_to_fix_string_def Let_def
    apply (subst tdiv_floor(1) [of kNsPerSec], simp add: kNsPerSec_def)
    apply (subst tdiv_floor [of 86400], simp)+
    using assms len
    apply (cases prec)
    apply (simp_all add: tod_def [symmetric] trunc write_subsecond_def write_digits_overwrite
        write_char_overwrite overwrite_chain utc_text_def Let_def)
    done
qed

subsection \<open>Composition never wraps\<close>

lemma split_range:
  "split_floored INT64_MAX = (9223372036, 854775807)" "split_floored INT64_MIN = (-9223372037, 145224192)"
  by (simp_all add: split_floored_def kNsPerSec_def INT64_MAX_def INT64_MIN_def tdiv_pos tmod_pos)

lemma fast_path:
  assumes "\<bar>x\<bar> < 2 ^ 62" shows "18446744072 \<le> to_u64 x \<longleftrightarrow> \<not> (0 \<le> x \<and> x < 18446744072)"
proof (cases "0 \<le> x")
  case True
  then show ?thesis using assms by (auto simp: to_u64_def)
next
  case False
  then have "(x + 2 ^ 64) mod 2 ^ 64 = x + 2 ^ 64" using assms by (intro mod_pos_pos_trivial) simp_all
  then have "x mod 2 ^ 64 = x + 2 ^ 64" by simp
  then show ?thesis using False assms by (simp add: to_u64_def)
qed

lemma compose_utc_exact:
  assumes "\<bar>epoch_sec\<bar> < 2 ^ 61" "0 \<le> ns" "ns < kNsPerSec"
  shows "compose_utc epoch_sec ns =
    (let t = epoch_sec * kNsPerSec + ns in
     if INT64_MIN \<le> t \<and> t \<le> INT64_MAX then ok t else unexpected wire_invalid_field_format)"
proof -
  have fast: "18446744072 \<le> to_u64 (epoch_sec + 9223372036) \<longleftrightarrow>
      \<not> (0 \<le> epoch_sec + 9223372036 \<and> epoch_sec + 9223372036 < 18446744072)"
    using assms(1) by (intro fast_path) simp
  have count: "to_i64 (to_u64 (to_u64 epoch_sec * to_u64 kNsPerSec + to_u64 ns)) = to_i64 (epoch_sec * kNsPerSec + ns)"
    by (simp only: to_u64_cong to_i64_to_u64)
  have "compose_utc epoch_sec ns =
      (if (epoch_sec > 9223372036 \<or> epoch_sec = 9223372036 \<and> ns > 854775807) \<or>
          (epoch_sec < -9223372037 \<or> epoch_sec = -9223372037 \<and> ns < 145224192)
       then unexpected wire_invalid_field_format else ok (to_i64 (epoch_sec * kNsPerSec + ns)))"
    unfolding compose_utc_def split_range count Let_def prod.case
    using fast by (auto simp: to_u64_def)
  also have "(epoch_sec > 9223372036 \<or> epoch_sec = 9223372036 \<and> ns > 854775807) \<longleftrightarrow>
      epoch_sec * kNsPerSec + ns > INT64_MAX"
    using assms(2,3) unfolding INT64_MAX_def kNsPerSec_def by auto
  also have "(epoch_sec < -9223372037 \<or> epoch_sec = -9223372037 \<and> ns < 145224192) \<longleftrightarrow>
      epoch_sec * kNsPerSec + ns < INT64_MIN"
    using assms(2,3) unfolding INT64_MIN_def kNsPerSec_def by auto
  finally show ?thesis by (simp add: Let_def to_i64_id not_less)
qed

subsection \<open>The grammar\<close>

text \<open>The number in a span of digits, the grammar of a timestamp, and the instant it
  denotes, as an unbounded number of nanoseconds.\<close>

definition span_num :: "byte list \<Rightarrow> nat \<Rightarrow> nat \<Rightarrow> int" where
  "span_num s k w = int (dec_value (sub_span s k w))"

definition utc_grammar :: "byte list \<Rightarrow> bool" where
  "utc_grammar s \<longleftrightarrow>
     (length s = 17 \<or> 19 \<le> length s \<and> length s \<le> 27 \<and> s ! 17 = CHR ''.'' \<and> digits (drop 18 s)) \<and>
     digits (sub_span s 0 8) \<and> s ! 8 = CHR ''-'' \<and> digits (sub_span s 9 2) \<and> s ! 11 = CHR '':'' \<and>
     digits (sub_span s 12 2) \<and> s ! 14 = CHR '':'' \<and> digits (sub_span s 15 2) \<and>
     valid_date (span_num s 0 4) (span_num s 4 2) (span_num s 6 2) \<and>
     span_num s 9 2 \<le> 23 \<and> span_num s 12 2 \<le> 59 \<and> span_num s 15 2 \<le> 60"

definition utc_seconds :: "byte list \<Rightarrow> int" where
  "utc_seconds s =
     date_to_days (span_num s 0 4) (span_num s 4 2) (span_num s 6 2) * 86400 +
     span_num s 9 2 * 3600 + span_num s 12 2 * 60 + span_num s 15 2"

definition utc_nanos :: "byte list \<Rightarrow> int" where
  "utc_nanos s = (if length s = 17 then 0 else int (dec_value (drop 18 s)) * 10 ^ (27 - length s))"

definition utc_instant :: "byte list \<Rightarrow> int" where
  "utc_instant s = utc_seconds s * kNsPerSec + utc_nanos s"

lemma parse_digits_span:
  "k + w \<le> length s \<Longrightarrow>
   parse_digits (drop k s) w = (if digits (sub_span s k w) then span_num s k w else -1)"
  using parse_digits_value [of "take w (drop k s)" w "drop w (drop k s)"]
  by (simp only: append_take_drop_id sub_span_def span_num_def) simp

lemma fraction_scale_nth: "n \<le> 9 \<Longrightarrow> fraction_scale ! n = 10 ^ (9 - n)"
proof -
  assume "n \<le> 9"
  then have "n = 0 \<or> n = 1 \<or> n = 2 \<or> n = 3 \<or> n = 4 \<or> n = 5 \<or> n = 6 \<or> n = 7 \<or> n = 8 \<or> n = 9" by arith
  then show ?thesis by (auto simp: fraction_scale_def)
qed

lemma parse_fraction_value:
  assumes "length s = 17 \<or> 19 \<le> length s \<and> length s \<le> 27"
  shows "parse_fraction s =
    (if length s = 17 \<or> digits (drop 18 s) then ok (utc_nanos s) else unexpected wire_invalid_field_format)"
proof -
  have "length s - 18 \<le> 9" using assms by linarith
  note scale = fraction_scale_nth [OF this]
  have "length s = 17 \<or> 9 - (length s - 18) = 27 - length s" using assms by linarith
  then show ?thesis
    using assms fraction_loop_value [of "drop 18 s" "[]" 0] scale
    by (auto simp: parse_fraction_def utc_nanos_def Let_def dec_value_def)
qed

lemma digits_date:
  "8 \<le> length s \<Longrightarrow> digits (sub_span s 0 8) \<longleftrightarrow>
     digits (sub_span s 0 4) \<and> digits (sub_span s 4 2) \<and> digits (sub_span s 6 2)"
proof -
  have "take 8 s = take 4 s @ take 2 (drop 4 s) @ take 2 (drop 6 s)"
    using take_add [of 4 4 s] take_add [of 2 2 "drop 4 s"] by simp
  then show ?thesis by (simp add: sub_span_def)
qed

lemma days_in_month_le: "1 \<le> m \<Longrightarrow> m \<le> 12 \<Longrightarrow> days_in_month y m \<le> 31"
proof -
  assume "1 \<le> m" "m \<le> 12"
  then have "m = 1 \<or> m = 2 \<or> m = 3 \<or> m = 4 \<or> m = 5 \<or> m = 6 \<or> m = 7 \<or> m = 8 \<or> m = 9 \<or> m = 10 \<or>
      m = 11 \<or> m = 12" by arith
  then show ?thesis by (auto simp: days_in_month_def)
qed

lemma span_num_nonneg [simp]: "0 \<le> span_num s k w" "\<not> span_num s k w < 0"
  by (simp_all add: span_num_def)

lemma fix_string_to_utc_time_grammar:
  assumes "utc_grammar s"
  shows "fix_string_to_utc_time s = compose_utc (utc_seconds s) (utc_nanos s)"
proof -
  have len: "length s = 17 \<or> 19 \<le> length s \<and> length s \<le> 27" using assms by (auto simp: utc_grammar_def)
  then have len': "\<not> length s < 17" "length s \<noteq> 18" "\<not> length s > 27" "17 \<le> length s" by auto
  have p: "parse_digits s 4 = span_num s 0 4" "parse_digits (drop 4 s) 2 = span_num s 4 2"
    "parse_digits (drop 6 s) 2 = span_num s 6 2" "parse_digits (drop 9 s) 2 = span_num s 9 2"
    "parse_digits (drop 12 s) 2 = span_num s 12 2" "parse_digits (drop 15 s) 2 = span_num s 15 2"
    using assms len' digits_date [of s] parse_digits_span [of 0 4 s] parse_digits_span [of _ 2 s]
    by (simp_all add: utc_grammar_def)
  have "parse_fraction s = ok (utc_nanos s)"
    using assms by (auto simp: parse_fraction_value [OF len] utc_grammar_def)
  moreover have dot: "17 < length s \<and> s ! 17 \<noteq> CHR ''.'' \<longleftrightarrow> False" using assms by (auto simp: utc_grammar_def)
  ultimately show ?thesis
    using assms days_in_month_le [of "span_num s 4 2" "span_num s 0 4"] len'
    by (simp add: fix_string_to_utc_time_def Let_def dot p utc_grammar_def valid_date_def utc_seconds_def)
qed

lemma fix_string_to_utc_time_reject:
  assumes "fix_string_to_utc_time s \<noteq> unexpected wire_invalid_field_format"
  shows "utc_grammar s"
proof -
  have len: "length s = 17 \<or> 19 \<le> length s \<and> length s \<le> 27" and "length s = 17 \<or> s ! 17 = CHR ''.''"
    using assms by (auto simp: fix_string_to_utc_time_def Let_def split: if_splits)
  moreover from len have "17 \<le> length s" by auto
  note p = parse_digits_span [of 0 4 s, simplified] parse_digits_span [of 4 2 s] parse_digits_span [of 6 2 s]
    parse_digits_span [of 9 2 s] parse_digits_span [of 12 2 s] parse_digits_span [of 15 2 s]
  have "length s = 17 \<or> digits (drop 18 s)"
    using assms by (simp add: fix_string_to_utc_time_def Let_def parse_fraction_value [OF len] split: if_splits)
  moreover have "digits (sub_span s 0 4) \<and> digits (sub_span s 4 2) \<and> digits (sub_span s 6 2) \<and>
      digits (sub_span s 9 2) \<and> digits (sub_span s 12 2) \<and> digits (sub_span s 15 2)"
    using assms \<open>17 \<le> length s\<close>
    by (simp add: fix_string_to_utc_time_def Let_def p split: if_splits)
  moreover from this have "valid_date (span_num s 0 4) (span_num s 4 2) (span_num s 6 2) \<and>
      s ! 8 = CHR ''-'' \<and> span_num s 9 2 \<le> 23 \<and> s ! 11 = CHR '':'' \<and> span_num s 12 2 \<le> 59 \<and>
      s ! 14 = CHR '':'' \<and> span_num s 15 2 \<le> 60"
    using assms \<open>17 \<le> length s\<close>
    by (simp add: fix_string_to_utc_time_def Let_def p valid_date_def not_less split: if_splits)
  ultimately show ?thesis using digits_date [of s] by (auto simp: utc_grammar_def)
qed

lemma date_to_days_bound:
  assumes "0 \<le> y" "y < 10000" "1 \<le> m" "m \<le> 12" "1 \<le> d" "d \<le> 31"
  shows "\<bar>date_to_days y m d\<bar> \<le> 5000000"
proof -
  define z e where "z = y - (if m \<le> 2 then 1 else 0)" and "e = z div 400"
  define mp where "mp = (if m > 2 then m - 3 else m + 9)"
  have e: "(if z \<ge> 0 then z else z - 399) sdiv 400 = e" unfolding e_def by (rule era_floor) simp_all
  have r: "-1 \<le> z" "z < 10000" "0 \<le> mp" "mp \<le> 11" using assms by (auto simp: z_def mp_def)
  have y: "z - e * 400 = z mod 400" unfolding e_def by (simp add: minus_div_mult_eq_mod)
  have "date_to_days y m d = e * 146097 + (z mod 400 * 365 + z mod 400 div 4 - z mod 400 div 100 +
      ((153 * mp + 2) div 5 + d - 1)) - 719468"
    unfolding date_to_days_def Let_def z_def [symmetric] e y mp_def ..
  moreover have "-1 \<le> e" "e \<le> 24" using r unfolding e_def by linarith+
  moreover have "0 \<le> z mod 400" "z mod 400 < 400" by simp_all
  moreover from this have "0 \<le> z mod 400 div 4" "z mod 400 div 4 < 100" "0 \<le> z mod 400 div 100"
    "z mod 400 div 100 < 4" by linarith+
  moreover have "0 \<le> (153 * mp + 2) div 5" "(153 * mp + 2) div 5 \<le> 400" using r by linarith+
  ultimately show ?thesis using assms(5,6) by linarith
qed

lemma span_num_less: "digits (sub_span s k w) \<Longrightarrow> span_num s k w < 10 ^ w"
proof -
  assume "digits (sub_span s k w)"
  then have "dec_value (sub_span s k w) < 10 ^ length (sub_span s k w)" by (rule dec_value_less)
  also have "(10::nat) ^ length (sub_span s k w) \<le> 10 ^ w"
    by (intro power_increasing) (simp_all add: sub_span_def)
  finally have "int (dec_value (sub_span s k w)) < int (10 ^ w)" by (simp only: of_nat_less_iff)
  then show ?thesis by (simp add: span_num_def)
qed

lemma utc_nanos_range: "utc_grammar s \<Longrightarrow> 0 \<le> utc_nanos s \<and> utc_nanos s < kNsPerSec"
proof (cases "length s = 17")
  case False
  assume g: "utc_grammar s"
  then have len: "19 \<le> length s" "length s \<le> 27" and "digits (drop 18 s)"
    using False by (auto simp: utc_grammar_def)
  then have "dec_value (drop 18 s) < 10 ^ (length s - 18)" using dec_value_less [of "drop 18 s"] by simp
  then have "dec_value (drop 18 s) * 10 ^ (27 - length s) < 10 ^ (length s - 18) * 10 ^ (27 - length s)"
    by simp
  also have "\<dots> = 10 ^ 9" using len by (simp add: power_add [symmetric])
  finally have "int (dec_value (drop 18 s) * 10 ^ (27 - length s)) < int (10 ^ 9)" by (simp only: of_nat_less_iff)
  then show ?thesis using False by (simp add: utc_nanos_def kNsPerSec_def)
qed (simp add: utc_nanos_def kNsPerSec_def)

lemma utc_seconds_range: "utc_grammar s \<Longrightarrow> \<bar>utc_seconds s\<bar> < 2 ^ 61"
proof -
  assume g: "utc_grammar s"
  then have "17 \<le> length s" by (auto simp: utc_grammar_def)
  then have "span_num s 0 4 < 10000" using g digits_date [of s] span_num_less [of s 0 4] by (simp add: utc_grammar_def)
  then have "\<bar>date_to_days (span_num s 0 4) (span_num s 4 2) (span_num s 6 2)\<bar> \<le> 5000000"
    using g days_in_month_le [of "span_num s 4 2" "span_num s 0 4"]
    by (intro date_to_days_bound) (auto simp: utc_grammar_def valid_date_def)
  moreover have "span_num s 9 2 \<le> 23" "span_num s 12 2 \<le> 59" "span_num s 15 2 \<le> 60"
    using g by (simp_all add: utc_grammar_def)
  moreover note span_num_nonneg(1) [of s 9 2] span_num_nonneg(1) [of s 12 2] span_num_nonneg(1) [of s 15 2]
  ultimately have "\<bar>utc_seconds s\<bar> < 1000000000000" unfolding utc_seconds_def by linarith
  then show ?thesis by simp
qed

text \<open>C12. The timestamp parser accepts exactly the grammar with a real calendar date, and
  returns the instant it denotes, computed in unbounded integers, whenever a nanosecond
  count can hold it; every other input is refused.  In particular the unsigned range check
  and the modular composition never wrap.\<close>

theorem fix_string_to_utc_time_exact:
  "fix_string_to_utc_time s =
     (if utc_grammar s \<and> utc_wf (utc_instant s) then ok (utc_instant s)
      else unexpected wire_invalid_field_format)"
proof (cases "utc_grammar s")
  case True
  then show ?thesis
    using compose_utc_exact [OF utc_seconds_range, of s "utc_nanos s"] utc_nanos_range [of s]
    by (simp add: fix_string_to_utc_time_grammar Let_def utc_wf_def utc_instant_def)
next
  case False
  then show ?thesis using fix_string_to_utc_time_reject [of s] by auto
qed

text \<open>C18. The two calendar conversions are inverse to each other: every day number maps to a
  valid date of the proleptic Gregorian calendar that maps back to it, and every valid date
  maps to a day number that maps back to it.\<close>

theorem calendar_inverse:
  "date_to_days (year (days_to_date n)) (month (days_to_date n)) (day (days_to_date n)) = n \<and>
   valid_date (year (days_to_date n)) (month (days_to_date n)) (day (days_to_date n)) \<and>
   (valid_date y m d \<longrightarrow> days_to_date (date_to_days y m d) = \<lparr>year = y, month = m, day = d\<rparr>)"
  using days_to_date_valid date_to_days_inverse by blast

theorem calendar_inverse_witness:
  "days_to_date (date_to_days 2024 2 29) = \<lparr>year = 2024, month = 2, day = 29\<rparr>"
proof -
  have "valid_date 2024 2 29" by code_simp
  then show ?thesis using calendar_inverse by blast
qed

subsection \<open>Format, then parse\<close>

fun precision_unit :: "fix_time_precision \<Rightarrow> int" where
  "precision_unit seconds = 1000000000"
| "precision_unit millis = 1000000"
| "precision_unit micros = 1000"
| "precision_unit nanos = 1"

definition floor_to :: "fix_time_precision \<Rightarrow> int \<Rightarrow> int" where
  "floor_to prec tp = tp div precision_unit prec * precision_unit prec"

lemma year_range:
  assumes "-200000 \<le> n" "n \<le> 200000" shows "1200 \<le> year (days_to_date n)" "year (days_to_date n) \<le> 2801"
proof -
  define e doe where "e = (n + 719468) div 146097" and "doe = (n + 719468) mod 146097"
  have n: "n = e * 146097 + doe - 719468"
    using div_mult_mod_eq [of "n + 719468" 146097] unfolding e_def doe_def by linarith
  have e: "3 \<le> e" "e \<le> 6" using assms unfolding e_def by linarith+
  note y = yoe_covers [of doe]
  have doe: "0 \<le> doe" "doe < 146097" by (simp_all add: doe_def)
  show "1200 \<le> year (days_to_date n)" "year (days_to_date n) \<le> 2801"
    unfolding n days_to_date_era [OF y [OF doe]] Let_def using e y(1,2) [OF doe] by simp_all
qed

text \<open>The fraction the formatter prints at a precision: its digits and its value.\<close>

definition fraction_width :: "fix_time_precision \<Rightarrow> nat" where
  "fraction_width prec = needed_chars prec - 18"

lemma utc_text_fraction:
  "drop 18 (utc_text tp prec) = dec_fixed (fraction_width prec) (nat (tp mod kNsPerSec div precision_unit prec))"
  by (cases prec) (simp_all add: utc_text_def Let_def fraction_width_def)

lemma floor_to_split:
  assumes "kNsPerSec = k * u" "0 < u"
  shows "tp div u * u - tp div kNsPerSec * kNsPerSec = tp mod kNsPerSec div u * u"
proof -
  have "tp div u = (tp mod kNsPerSec + (tp div kNsPerSec * k) * u) div u"
    using mod_div_mult_eq [of tp kNsPerSec] by (simp add: assms(1) mult.assoc)
  also have "\<dots> = tp div kNsPerSec * k + tp mod kNsPerSec div u"
    using assms(2) by (intro div_mult_self1) simp
  finally show ?thesis by (simp add: assms(1) distrib_right mult.assoc)
qed

lemma utc_nanos_text: "utc_nanos (utc_text tp prec) = floor_to prec tp - tp div kNsPerSec * kNsPerSec"
proof -
  define r where "r = tp mod kNsPerSec"
  have r: "0 \<le> r" "r < 1000000000" by (simp_all add: r_def kNsPerSec_def)
  have "nat (r div 1000000) < 10 ^ 3" "nat (r div 1000) < 10 ^ 6" "nat r < 10 ^ 9" using r by auto
  then have "utc_nanos (utc_text tp prec) = r div precision_unit prec * precision_unit prec"
    using r by (cases prec) (simp_all add: utc_nanos_def utc_text_fraction fraction_width_def
        dec_value_dec_fixed r_def [symmetric])
  moreover have "kNsPerSec = (kNsPerSec div precision_unit prec) * precision_unit prec" "0 < precision_unit prec"
    by (cases prec; simp add: kNsPerSec_def)+
  ultimately show ?thesis by (simp add: floor_to_split floor_to_def r_def)
qed

lemma utc_layout_spans:
  assumes "s = dec_fixed 4 Y @ dec_fixed 2 M @ dec_fixed 2 D @ ''-'' @ dec_fixed 2 h @ '':'' @ dec_fixed 2 m @ '':'' @
      dec_fixed 2 sc @ fr"
  shows "sub_span s 0 4 = dec_fixed 4 Y" "sub_span s 4 2 = dec_fixed 2 M" "sub_span s 6 2 = dec_fixed 2 D"
    "sub_span s 9 2 = dec_fixed 2 h" "sub_span s 12 2 = dec_fixed 2 m" "sub_span s 15 2 = dec_fixed 2 sc"
    "s ! 8 = CHR ''-''" "s ! 11 = CHR '':''" "s ! 14 = CHR '':''"
  by (simp_all add: assms sub_span_def nth_append)

lemma utc_text_layout:
  fixes tp prec
  defines "sec \<equiv> tp div kNsPerSec"
  defines "tod \<equiv> sec mod 86400" and "dt \<equiv> days_to_date (sec div 86400)"
  assumes "utc_wf tp"
  shows "utc_grammar (utc_text tp prec)" "utc_seconds (utc_text tp prec) = sec"
proof -
  let ?s = "utc_text tp prec"
  have "-9223372037 \<le> sec" "sec \<le> 9223372036"
    using assms(4) unfolding sec_def utc_wf_def INT64_MIN_def INT64_MAX_def kNsPerSec_def by linarith+
  then have "-200000 \<le> sec div 86400" "sec div 86400 \<le> 200000" by linarith+
  note yr = year_range [OF this, folded dt_def]
  note val = days_to_date_valid [of "sec div 86400", folded dt_def]
  then have md: "1 \<le> month dt" "month dt \<le> 12" "1 \<le> day dt" "day dt \<le> 31"
    using days_in_month_le [of "month dt" "year dt"] by (auto simp: valid_date_def)
  have tod: "0 \<le> tod" "tod < 86400" by (simp_all add: tod_def)
  have pos: "0 \<le> tod div 3600" "0 \<le> tod mod 3600 div 60" "0 \<le> tod mod 60"
    using tod by (simp_all add: pos_imp_zdiv_nonneg_iff)
  have hms: "tod div 3600 \<le> 23" "tod mod 3600 div 60 \<le> 59" "tod mod 60 \<le> 60"
    using tod by linarith+
  obtain fr where s: "?s = dec_fixed 4 (nat (year dt)) @ dec_fixed 2 (nat (month dt)) @ dec_fixed 2 (nat (day dt)) @
      ''-'' @ dec_fixed 2 (nat (tod div 3600)) @ '':'' @ dec_fixed 2 (nat (tod mod 3600 div 60)) @ '':'' @
      dec_fixed 2 (nat (tod mod 60)) @ fr" "fr = drop 17 ?s"
    by (simp add: utc_text_def Let_def sec_def tod_def dt_def)
  have small: "nat (year dt) < 10 ^ 4" "nat (month dt) < 10 ^ 2" "nat (day dt) < 10 ^ 2"
    "nat (tod div 3600) < 10 ^ 2" "nat (tod mod 3600 div 60) < 10 ^ 2" "nat (tod mod 60) < 10 ^ 2"
    using yr(2) md(2,4) hms by simp_all
  note spans = utc_layout_spans [OF s(1)]
  have sp: "span_num ?s 0 4 = year dt" "span_num ?s 4 2 = month dt" "span_num ?s 6 2 = day dt"
    "span_num ?s 9 2 = tod div 3600" "span_num ?s 12 2 = tod mod 3600 div 60" "span_num ?s 15 2 = tod mod 60"
    unfolding span_num_def spans dec_value_dec_fixed small [THEN mod_less] using yr(1) md(1,3) pos by simp_all
  have frac: "length ?s = 17 \<or> 19 \<le> length ?s \<and> length ?s \<le> 27 \<and> ?s ! 17 = CHR ''.'' \<and> digits (drop 18 ?s)"
    by (cases prec) (simp_all add: utc_text_fraction, simp_all add: utc_text_def Let_def nth_append)
  show "utc_grammar ?s"
  proof -
    have "8 \<le> length ?s" using frac by auto
    then show ?thesis
      unfolding utc_grammar_def using frac val hms digits_date [of ?s] by (simp add: sp spans)
  qed
  have "utc_seconds ?s = sec div 86400 * 86400 + (tod div 3600 * 3600 + tod mod 3600 div 60 * 60 + tod mod 60)"
    using sp val by (simp add: utc_seconds_def)
  also have "tod div 3600 * 3600 + tod mod 3600 div 60 * 60 + tod mod 60 = tod"
  proof -
    have "tod mod 3600 mod 60 = tod mod 60" by (rule mod_mod_cancel) simp
    then show ?thesis
      using div_mult_mod_eq [of tod 3600] div_mult_mod_eq [of "tod mod 3600" 60] by linarith
  qed
  finally show "utc_seconds ?s = sec" by (simp add: tod_def)
qed

lemma fix_time_text:
  assumes "utc_wf tp"
  shows "fix_string_to_utc_time (utc_text tp prec) =
    (if INT64_MIN \<le> floor_to prec tp then ok (floor_to prec tp) else unexpected wire_invalid_field_format)"
proof -
  let ?s = "utc_text tp prec"
  note g = utc_text_layout [OF assms, of prec]
  have "utc_instant ?s = floor_to prec tp" by (simp add: utc_instant_def g(2) utc_nanos_text)
  moreover have "floor_to prec tp \<le> tp"
    unfolding floor_to_def using pos_mod_sign [of "precision_unit prec" tp] div_mult_mod_eq [of tp "precision_unit prec"]
    by (cases prec) simp_all
  ultimately show ?thesis
    using compose_utc_exact [OF utc_seconds_range [OF g(1)], of "utc_nanos ?s"] utc_nanos_range [OF g(1)] assms
    by (simp add: fix_string_to_utc_time_grammar [OF g(1)] Let_def utc_wf_def utc_instant_def)
qed

text \<open>C15. Formatting an instant and parsing the text gives back the instant, floored to the
  unit of the precision (the whole instant at nanoseconds), for every value a nanosecond
  count can hold; only where the floored instant lies before the smallest one is the text
  refused.  The formatter succeeds on every buffer of the documented size and leaves the
  bytes behind its text alone.\<close>

theorem utc_time_round_trip:
  assumes "utc_wf tp" "needed_chars prec \<le> length out"
  shows "\<exists>out'. utc_time_to_fix_string tp prec out = ok (out', needed_chars prec) \<and>
    length out' = length out \<and> drop (needed_chars prec) out' = drop (needed_chars prec) out \<and>
    fix_string_to_utc_time (take (needed_chars prec) out') =
      (if INT64_MIN \<le> floor_to prec tp then ok (floor_to prec tp) else unexpected wire_invalid_field_format)"
  using assms fix_time_text [of tp prec] length_utc_text [of tp prec]
  by (simp add: utc_time_to_fix_string_text overwrite_def)

theorem utc_time_round_trip_witness:
  "fix_string_to_utc_time (take 21 (overwrite (replicate 32 (CHR ''x'')) 0 (utc_text 1700000000123456789 millis))) =
   ok 1700000000123000000"
  using utc_time_round_trip [of 1700000000123456789 millis "replicate 32 (CHR ''x'')"]
  by (auto simp: utc_wf_def INT64_MIN_def INT64_MAX_def floor_to_def utc_time_to_fix_string_text)

end
