(* ===== verification/Fixpp_TagScan.thy ===== *)
theory Fixpp_TagScan
  imports Fixpp_Prelude
begin

text \<open>
  The bounded decimal accumulators of \<^verbatim>\<open>include/fixpp/wire/tag_scan.hpp\<close>, which every
  scanner of the wire layer uses.  The accumulators are \<^verbatim>\<open>std::uint32_t\<close>: additions and
  multiplications are written with \<open>u32\<close>, subtractions with \<open>u32_sub\<close>, and the lemmas show that
  no wrap-around happens and what is computed instead.
\<close>

datatype field_fault = fault_none | malformed_tag | length_data_mismatch

text \<open>The in-out parameter is the first component of the result.\<close>

definition accumulate_tag_digit :: "nat \<Rightarrow> byte \<Rightarrow> nat \<times> bool" where
  "accumulate_tag_digit tag c =
     (let d = u32_sub (byte_val c) 48 in
      if tag > u32_sub 0xFFFF d div 10 then (tag, False)
      else (u32 (u32 (tag * 10) + d), True))"

definition accumulate_bounded :: "nat \<Rightarrow> byte \<Rightarrow> nat \<Rightarrow> nat \<times> bool" where
  "accumulate_bounded acc c cap =
     (let d = u32_sub (byte_val c) 48 in
      if acc > u32_sub cap d div 10 then (cap, False)
      else (u32 (u32 (acc * 10) + d), True))"

fun parse_bounded_loop :: "nat \<Rightarrow> byte list \<Rightarrow> nat" where
  "parse_bounded_loop acc [] = acc"
| "parse_bounded_loop acc (c # bytes) =
     (if \<not> is_digit c then acc
      else parse_bounded_loop (fst (accumulate_bounded acc c 0xFFFFFFFF)) bytes)"

definition parse_bounded_u32 :: "byte list \<Rightarrow> nat" where
  "parse_bounded_u32 bytes = parse_bounded_loop 0 bytes"

subsection \<open>Appending one digit\<close>

lemma digit_offset [simp]: "is_digit c \<Longrightarrow> u32_sub (byte_val c) 48 = digit_val c"
  by (simp add: u32_sub_id is_digit_def digit_val_def)

lemma cap_guard: "d < 10 \<Longrightarrow> d \<le> cap \<Longrightarrow> acc > (cap - d) div 10 \<longleftrightarrow> acc * 10 + d > (cap::nat)"
  by linarith

lemma accumulate_tag_digit_exact:
  assumes "is_digit c"
  shows "accumulate_tag_digit tag c =
    (if tag * 10 + digit_val c \<le> 0xFFFF then (tag * 10 + digit_val c, True) else (tag, False))"
proof -
  have d: "digit_val c < 10" using assms by (rule digit_val_less)
  then have "u32_sub 0xFFFF (digit_val c) = 0xFFFF - digit_val c" by (intro u32_sub_id) simp_all
  with assms d cap_guard [OF d, of "0xFFFF" tag] show ?thesis
    by (auto simp: accumulate_tag_digit_def Let_def)
qed

lemma accumulate_bounded_exact:
  assumes "is_digit c" "9 \<le> cap" "cap < 2 ^ 32"
  shows "accumulate_bounded acc c cap =
    (if acc * 10 + digit_val c \<le> cap then (acc * 10 + digit_val c, True) else (cap, False))"
proof -
  have d: "digit_val c < 10" using assms by (intro digit_val_less)
  then have "u32_sub cap (digit_val c) = cap - digit_val c" using assms by (intro u32_sub_id) simp_all
  with assms d cap_guard [OF d, of cap acc] show ?thesis
    by (auto simp: accumulate_bounded_def Let_def)
qed

lemma fst_accumulate_bounded:
  assumes "is_digit c" "9 \<le> cap" "cap < 2 ^ 32"
  shows "fst (accumulate_bounded (min v cap) c cap) = min (v * 10 + digit_val c) cap"
  using accumulate_bounded_exact [OF assms, of "min v cap"] assms(2) by (auto simp: min_def)

subsection \<open>Whole numbers\<close>

lemma parse_bounded_loop_value:
  "parse_bounded_loop (min v 0xFFFFFFFF) s = min (dec_acc v (takeWhile is_digit s)) 0xFFFFFFFF"
proof (induction s arbitrary: v)
  case Nil
  then show ?case by simp
next
  case (Cons c s)
  show ?case
  proof (cases "is_digit c")
    case True
    then show ?thesis
      using Cons.IH [of "v * 10 + digit_val c"] fst_accumulate_bounded [OF True, of "0xFFFFFFFF" v] by simp
  qed simp
qed

lemma parse_bounded_u32_value:
  "parse_bounded_u32 s = min (dec_value (takeWhile is_digit s)) 0xFFFFFFFF"
  using parse_bounded_loop_value [of 0 s] by (simp add: parse_bounded_u32_def dec_value_def)

text \<open>The digit loop of a tag, as the scanners run it: the tag, unless a byte is not a digit
  or the number leaves the 16-bit tag space.\<close>

fun tag_loop :: "nat \<Rightarrow> byte list \<Rightarrow> nat option" where
  "tag_loop tag [] = Some tag"
| "tag_loop tag (c # cs) =
     (if is_digit c then
        (case accumulate_tag_digit tag c of (tag, fits) \<Rightarrow> if fits then tag_loop tag cs else None)
      else None)"

lemma tag_loop_value:
  "tag_loop tag cs = (if digits cs \<and> (cs = [] \<or> dec_acc tag cs \<le> 0xFFFF) then Some (dec_acc tag cs) else None)"
proof (induction cs arbitrary: tag)
  case Nil
  then show ?case by simp
next
  case (Cons c cs)
  show ?case
    using Cons.IH [of "tag * 10 + digit_val c"] dec_acc_mono [of "tag * 10 + digit_val c" cs]
    by (cases "cs = []") (auto simp: accumulate_tag_digit_exact)
qed

text \<open>C20. The saturating number scanner returns the number its leading digits denote, capped
  at the largest 32-bit value: an overlong count never wraps to a small one.\<close>

theorem parse_bounded_u32_saturates:
  "parse_bounded_u32 s = min (dec_value (takeWhile is_digit s)) (2 ^ 32 - 1)"
  using parse_bounded_u32_value [of s] by simp

text \<open>C21. The tag accumulator, run over digits from 0, accepts exactly the decimal
  numbers of the 16-bit tag space and computes them without wrap-around, whatever the number
  of digits.\<close>

theorem tag_digits_exact:
  "digits ds \<Longrightarrow> tag_loop 0 ds = (if dec_value ds \<le> 0xFFFF then Some (dec_value ds) else None)"
  by (auto simp: tag_loop_value dec_value_def)

theorem tag_digits_exact_witness:
  "tag_loop 0 ''65535'' = Some 65535 \<and> tag_loop 0 ''4294967304'' = None"
proof -
  have "digits ''65535''" "digits ''4294967304''" "dec_value ''65535'' = 65535"
    "dec_value ''4294967304'' = 4294967304"
    by (simp_all add: is_digit_def dec_value_def digit_val_def)
  then show ?thesis using tag_digits_exact [of "''65535''"] tag_digits_exact [of "''4294967304''"] by simp
qed

end
