(* ===== verification/Fixpp_LengthData.thy ===== *)
theory Fixpp_LengthData
  imports Fixpp_TagScan
begin

text \<open>
  Length and Data fields: the standard pairs of \<^verbatim>\<open>include/fixpp/core/length_data_pairs.hpp\<close>, the
  dictionary hooks of \<^verbatim>\<open>include/fixpp/wire/dict_hooks.hpp\<close> (with \<^verbatim>\<open>group_context\<close> of
  \<^verbatim>\<open>group_view.hpp\<close>, which their callbacks take), the outbound check
  \<^verbatim>\<open>length_data_checker\<close> (\<^verbatim>\<open>length_data_check.hpp\<close>) and the inbound reader
  \<^verbatim>\<open>length_data_carry\<close> (\<^verbatim>\<open>length_data_carry.hpp\<close>).

  The callbacks of a dictionary are arguments: a hook is an optional function.
\<close>

unbundle bit_operations_syntax

subsection \<open>The standard pairs\<close>

record length_data_pair =
  length_tag :: nat
  data_tag :: nat

definition standard_length_data_pairs :: "length_data_pair list" where
  "standard_length_data_pairs = map (\<lambda>(l, d). \<lparr>length_tag = l, data_tag = d\<rparr>)
     [(90, 91), (93, 89), (95, 96), (212, 213), (348, 349), (350, 351), (352, 353), (354, 355),
      (356, 357), (358, 359), (360, 361), (362, 363), (364, 365), (445, 446), (618, 619), (621,
      622), (1184, 1185), (1277, 1278), (1280, 1281), (1282, 1283), (1397, 1398), (1401, 1402),
      (1403, 1404), (1468, 1469), (1525, 1527), (1578, 1579), (1620, 1621), (1664, 1665), (1678,
      1697), (1733, 1734), (1871, 1872), (1874, 1875), (2072, 2073), (2074, 2075), (2111, 2112),
      (2179, 2180), (2287, 2288), (2351, 2352), (2372, 2371), (2481, 2482), (2494, 2493), (2522,
      2521), (2637, 2638), (2651, 2652), (2665, 2666), (2715, 2716), (2718, 2719), (2721, 2722),
      (2797, 2798), (2802, 2801), (2809, 2808), (2815, 2814), (2971, 2972), (40004, 40005),
      (40008, 40009), (40978, 40979), (40980, 40981), (40982, 40983), (40984, 40985), (40986,
      40987), (40988, 40989), (41083, 41084), (41101, 41102), (41107, 41108), (41256, 41257),
      (41320, 41321), (41324, 41325), (41458, 41459), (41476, 41477), (41482, 41483), (41653,
      41654), (41710, 41711), (41806, 41807), (41811, 41812), (41873, 41874), (41969, 41970),
      (42025, 42026), (42171, 42172), (42451, 42452), (42652, 42653), (42947, 42948), (43109,
      42684), (43110, 42486), (43111, 42982)]"

text \<open>\<^verbatim>\<open>std::ranges::lower_bound\<close> with a projection: the first position whose key is not below.\<close>

definition lower_bound :: "('a \<Rightarrow> nat) \<Rightarrow> nat \<Rightarrow> 'a list \<Rightarrow> nat" where
  "lower_bound key k xs = length (takeWhile (\<lambda>x. key x < k) xs)"

definition standard_data_tag_for_length :: "nat \<Rightarrow> nat" where
  "standard_data_tag_for_length l =
     (let it = lower_bound length_tag l standard_length_data_pairs in
      if it \<noteq> length standard_length_data_pairs \<and> length_tag (standard_length_data_pairs ! it) = l
      then data_tag (standard_length_data_pairs ! it) else 0)"

definition standard_pairs_by_data :: "length_data_pair list" where
  "standard_pairs_by_data = sort_key data_tag standard_length_data_pairs"

definition standard_length_tag_for_data :: "nat \<Rightarrow> nat" where
  "standard_length_tag_for_data d =
     (let it = lower_bound data_tag d standard_pairs_by_data in
      if it \<noteq> length standard_pairs_by_data \<and> data_tag (standard_pairs_by_data ! it) = d
      then length_tag (standard_pairs_by_data ! it) else 0)"

definition is_standard_pair_tag :: "nat \<Rightarrow> bool" where
  "is_standard_pair_tag tag \<longleftrightarrow> standard_data_tag_for_length tag \<noteq> 0 \<or> standard_length_tag_for_data tag \<noteq> 0"

definition set_tag_bit :: "64 word list \<Rightarrow> nat \<Rightarrow> 64 word list" where
  "set_tag_bit bits t = bits[drop_bit 6 t := bits ! drop_bit 6 t OR push_bit (t AND 63) 1]"

definition standard_pair_tag_bits :: "64 word list" where
  "standard_pair_tag_bits =
     foldl (\<lambda>bits p. set_tag_bit (set_tag_bit bits (length_tag p)) (data_tag p)) (replicate 1024 0)
       standard_length_data_pairs"

definition standard_pair_tag_min :: nat where
  "standard_pair_tag_min = foldl (\<lambda>lo p. min lo (min (length_tag p) (data_tag p))) 0xFFFF standard_length_data_pairs"

definition standard_pair_tag_max :: nat where
  "standard_pair_tag_max = foldl (\<lambda>hi p. max hi (max (length_tag p) (data_tag p))) 0 standard_length_data_pairs"

definition standard_pair_tag_bit :: "nat \<Rightarrow> bool" where
  "standard_pair_tag_bit tag \<longleftrightarrow>
     \<not> (tag < standard_pair_tag_min \<or> tag > standard_pair_tag_max) \<and>
     (drop_bit (tag AND 63) (standard_pair_tag_bits ! drop_bit 6 tag)) AND 1 \<noteq> 0"

subsection \<open>Dictionary hooks\<close>

record group_context =
  msg_type :: "byte list"
  parent_path :: "nat list"
  depth :: nat

definition pushed :: "group_context \<Rightarrow> nat \<Rightarrow> group_context" where
  "pushed ctx no_tag =
     (if depth ctx < length (parent_path ctx)
      then ctx\<lparr>parent_path := (parent_path ctx)[depth ctx := no_tag], depth := depth ctx + 1\<rparr>
      else ctx)"

datatype pair_side = side_length | side_data

record dict_hooks =
  classify_fn :: "(byte list \<Rightarrow> nat \<Rightarrow> bool) option"
  group_member_fn :: "(group_context \<Rightarrow> nat \<Rightarrow> nat \<Rightarrow> bool) option"
  group_delim_fn :: "(group_context \<Rightarrow> nat \<Rightarrow> nat) option"
  length_pair_fn :: "(nat \<Rightarrow> pair_side \<Rightarrow> nat) option"

definition dict_hooks_none :: dict_hooks where
  "dict_hooks_none =
     \<lparr>classify_fn = None, group_member_fn = None, group_delim_fn = None, length_pair_fn = None\<rparr>"

definition data_tag_for_length :: "dict_hooks \<Rightarrow> nat \<Rightarrow> nat" where
  "data_tag_for_length hooks l =
     (if standard_pair_tag_bit l then standard_data_tag_for_length l
      else case length_pair_fn hooks of
        None \<Rightarrow> 0
      | Some length_pair \<Rightarrow>
          let data = length_pair l side_length in
          if data \<noteq> 0 \<and> \<not> is_standard_pair_tag data then data else 0)"

definition length_tag_for_data :: "dict_hooks \<Rightarrow> nat \<Rightarrow> nat" where
  "length_tag_for_data hooks d =
     (if standard_pair_tag_bit d then standard_length_tag_for_data d
      else case length_pair_fn hooks of
        None \<Rightarrow> 0
      | Some length_pair \<Rightarrow>
          let len = length_pair d side_data in
          if len \<noteq> 0 \<and> \<not> is_standard_pair_tag len then len else 0)"

subsection \<open>Dictionary-declared pairs\<close>

text \<open>The two maps of \<^verbatim>\<open>table_view\<close> (\<^verbatim>\<open>include/fixpp/dict/table_view.hpp\<close>) that hold a
  dictionary's own pairs, and the flag that says that one of them is not standard.\<close>

record pair_table =
  length_pair_data_map :: "nat \<rightharpoonup> nat"
  data_pair_length_map :: "nat \<rightharpoonup> nat"
  has_nonstandard_pair :: bool

definition pair_table_empty :: pair_table where
  "pair_table_empty =
     \<lparr>length_pair_data_map = Map.empty, data_pair_length_map = Map.empty, has_nonstandard_pair = False\<rparr>"

definition length_pair_data_tag :: "pair_table \<Rightarrow> nat \<Rightarrow> nat" where
  "length_pair_data_tag tv l = (case length_pair_data_map tv l of None \<Rightarrow> 0 | Some d \<Rightarrow> d)"

definition data_pair_length_tag :: "pair_table \<Rightarrow> nat \<Rightarrow> nat" where
  "data_pair_length_tag tv d = (case data_pair_length_map tv d of None \<Rightarrow> 0 | Some l \<Rightarrow> l)"

text \<open>What follows the two insertions: the old partners are dropped, and the flag is set last.\<close>

definition drop_displaced :: "nat \<Rightarrow> nat \<Rightarrow> nat \<Rightarrow> nat \<Rightarrow> pair_table \<Rightarrow> pair_table" where
  "drop_displaced displaced_data displaced_length l d tv =
     (let tv = (if displaced_data \<noteq> 0 \<and> displaced_data \<noteq> d
                then tv\<lparr>data_pair_length_map := (data_pair_length_map tv)(displaced_data := None)\<rparr> else tv);
          tv = (if displaced_length \<noteq> 0 \<and> displaced_length \<noteq> l
                then tv\<lparr>length_pair_data_map := (length_pair_data_map tv)(displaced_length := None)\<rparr> else tv)
      in if \<not> is_standard_pair_tag l \<and> \<not> is_standard_pair_tag d
         then tv\<lparr>has_nonstandard_pair := True\<rparr> else tv)"

text \<open>The two insertions may each fail to allocate a new node; \<open>oom1\<close> and \<open>oom2\<close> say whether
  the allocator would refuse.  The boolean result says that the call threw.\<close>

definition set_length_pair_data_tag ::
    "bool \<Rightarrow> bool \<Rightarrow> nat \<Rightarrow> nat \<Rightarrow> pair_table \<Rightarrow> bool \<times> pair_table" where
  "set_length_pair_data_tag oom1 oom2 l d tv =
     (if l = 0 \<or> d = 0 then (False, tv)
      else
        let displaced_data = length_pair_data_tag tv l;
            displaced_length = data_pair_length_tag tv d in
        if oom1 \<and> length_pair_data_map tv l = None then (True, tv)
        else
          let tv = tv\<lparr>length_pair_data_map := (length_pair_data_map tv)(l \<mapsto> d)\<rparr> in
          if oom2 \<and> data_pair_length_map tv d = None then
            (True, tv\<lparr>length_pair_data_map :=
               (if displaced_data = 0 then (length_pair_data_map tv)(l := None)
                else (length_pair_data_map tv)(l \<mapsto> displaced_data))\<rparr>)
          else
            let tv = tv\<lparr>data_pair_length_map := (data_pair_length_map tv)(d \<mapsto> l)\<rparr>
            in (False, drop_displaced displaced_data displaced_length l d tv))"

text \<open>\<^verbatim>\<open>dict_hooks::for_table_view\<close>; the dictionary's other three lookups are arguments.\<close>

definition for_table_view ::
    "(byte list \<Rightarrow> nat \<Rightarrow> bool) \<Rightarrow> (group_context \<Rightarrow> nat \<Rightarrow> nat list) \<Rightarrow> (group_context \<Rightarrow> nat \<Rightarrow> nat) \<Rightarrow>
     pair_table \<Rightarrow> dict_hooks" where
  "for_table_view field_valid_for group_member_tags group_first_field tv =
     \<lparr>classify_fn = Some field_valid_for,
      group_member_fn = Some (\<lambda>ctx no_tag tag. list_ex (\<lambda>m. m = tag) (group_member_tags ctx no_tag)),
      group_delim_fn = Some group_first_field,
      length_pair_fn =
        (if has_nonstandard_pair tv
         then Some (\<lambda>tag from. case from of side_length \<Rightarrow> length_pair_data_tag tv tag
                                         | side_data \<Rightarrow> data_pair_length_tag tv tag)
         else None)\<rparr>"

subsection \<open>The outbound check\<close>

record length_data_checker =
  awaited_data :: nat
  awaited_len :: nat
  failed :: bool

definition checker_init :: length_data_checker where
  "checker_init = \<lparr>awaited_data = 0, awaited_len = 0, failed = False\<rparr>"

text \<open>The digits of a Length value; \<^const>\<open>None\<close> where the loop refuses.\<close>

fun count_loop :: "nat \<Rightarrow> byte list \<Rightarrow> nat option" where
  "count_loop count [] = Some count"
| "count_loop count (c # value) =
     (if \<not> is_digit c then None
      else case accumulate_bounded count c 0xFFFFFFFF of (count, fits) \<Rightarrow>
        if \<not> fits then None else count_loop count value)"

definition observe ::
    "dict_hooks \<Rightarrow> length_data_checker \<Rightarrow> nat \<Rightarrow> byte list \<Rightarrow> bool \<times> length_data_checker" where
  "observe hooks st tag value =
     (if failed st then (False, st)
      else if awaited_data st \<noteq> 0 then
        let good = (tag = awaited_data st \<and> value \<noteq> [] \<and> length value = awaited_len st);
            st = st\<lparr>awaited_data := 0\<rparr>
        in if \<not> good then (False, st\<lparr>failed := True\<rparr>) else (True, st)
      else if length_tag_for_data hooks tag \<noteq> 0 then (False, st\<lparr>failed := True\<rparr>)
      else
        let data = data_tag_for_length hooks tag in
        if data \<noteq> 0 then
          if value = [] then (False, st\<lparr>failed := True\<rparr>)
          else case count_loop 0 value of
            None \<Rightarrow> (False, st\<lparr>failed := True\<rparr>)
          | Some count \<Rightarrow>
              if count = 0 then (False, st\<lparr>failed := True\<rparr>)
              else (True, st\<lparr>awaited_data := data, awaited_len := count\<rparr>)
        else (True, st))"

definition checker_finish :: "length_data_checker \<Rightarrow> bool \<times> length_data_checker" where
  "checker_finish st =
     (\<not> failed st \<and> awaited_data st = 0, st\<lparr>failed := False, awaited_data := 0\<rparr>)"

subsection \<open>The inbound reader\<close>

definition counted_value_end :: "byte list \<Rightarrow> nat \<Rightarrow> nat \<Rightarrow> nat option" where
  "counted_value_end buf vstart count =
     (if vstart > length buf \<or> count \<ge> length buf - vstart then None
      else if buf ! (vstart + count) \<noteq> SOH then None
      else Some (vstart + count))"

text \<open>The loop that walks to the next SOH or the end of the buffer.\<close>

function next_soh :: "byte list \<Rightarrow> nat \<Rightarrow> nat" where
  "next_soh buf i = (if i < length buf \<and> buf ! i \<noteq> SOH then next_soh buf (i + 1) else i)"
  by pat_completeness auto
termination
  by (relation "measure (\<lambda>(buf, i). length buf - i)") auto

declare next_soh.simps [simp del]

record length_data_carry =
  carry_tag :: nat
  carry_count :: nat

definition carry_init :: length_data_carry where
  "carry_init = \<lparr>carry_tag = 0, carry_count = 0\<rparr>"

record value_extent =
  ext_end :: nat
  counted :: bool

definition read_value ::
    "dict_hooks \<Rightarrow> length_data_carry \<Rightarrow> byte list \<Rightarrow> nat \<Rightarrow> nat \<Rightarrow> value_extent option \<times> length_data_carry" where
  "read_value hooks st buf vstart tag =
     (let is_counted = (carry_tag st \<noteq> 0 \<and> carry_tag st = tag);
          st = st\<lparr>carry_tag := 0\<rparr>;
          found = (if is_counted then counted_value_end buf vstart (carry_count st)
                   else Some (next_soh buf vstart))
      in case found of
           None \<Rightarrow> (None, st)
         | Some e \<Rightarrow>
             let st = st\<lparr>carry_tag := data_tag_for_length hooks tag\<rparr>;
                 st = (if carry_tag st \<noteq> 0
                       then st\<lparr>carry_count := parse_bounded_u32 (sub_span buf vstart (e - vstart))\<rparr> else st)
             in (Some \<lparr>ext_end = e, counted = is_counted\<rparr>, st))"

definition carry_reset :: "length_data_carry \<Rightarrow> length_data_carry" where
  "carry_reset st = st\<lparr>carry_tag := 0\<rparr>"

subsection \<open>Table lookup\<close>

lemma lower_bound_find:
  assumes "sorted_wrt (<) (map key xs)"
  shows "(let it = lower_bound key k xs in if it \<noteq> length xs \<and> key (xs ! it) = k then f (xs ! it) else 0) =
    (case find (\<lambda>x. key x = k) xs of None \<Rightarrow> 0 | Some x \<Rightarrow> f x)"
  using assms
proof (induction xs)
  case Nil
  then show ?case by (simp add: lower_bound_def)
next
  case (Cons x xs)
  show ?case
  proof (cases "key x < k")
    case True
    then show ?thesis using Cons by (auto simp: lower_bound_def Let_def split: if_split_asm)
  next
    case False
    moreover from Cons.prems False have "find (\<lambda>x. key x = k) xs = None" if "key x \<noteq> k"
      using that by (auto simp: find_None_iff)
    ultimately show ?thesis by (auto simp: lower_bound_def)
  qed
qed

lemma find_member: "find P xs = Some x \<Longrightarrow> x \<in> set xs \<and> P x"
  by (auto simp: find_Some_iff)

lemma pairs_sorted: "sorted_wrt (<) (map length_tag standard_length_data_pairs)"
  by (simp add: standard_length_data_pairs_def sorted_wrt1 sorted_wrt2 del: sorted_wrt.simps(2))

text \<open>The two columns share no tag, every tag lies in the stated range, and no Data tag is paired twice.\<close>

lemma pairs_columns:
  "list_all (\<lambda>p. 89 \<le> length_tag p \<and> length_tag p \<le> 43111 \<and> 89 \<le> data_tag p \<and> data_tag p \<le> 43111 \<and>
     data_tag p \<notin> set (map length_tag standard_length_data_pairs)) standard_length_data_pairs"
  by (simp add: standard_length_data_pairs_def)

lemma pairs_data_distinct: "distinct (map data_tag standard_length_data_pairs)"
  by (simp add: standard_length_data_pairs_def)

lemma pairs_by_data_sorted: "sorted_wrt (<) (map data_tag standard_pairs_by_data)"
proof -
  have "distinct (map data_tag standard_pairs_by_data)"
    using pairs_data_distinct by (simp add: standard_pairs_by_data_def distinct_map)
  then show ?thesis by (simp add: strict_sorted_iff standard_pairs_by_data_def)
qed

lemma set_pairs_by_data [simp]: "set standard_pairs_by_data = set standard_length_data_pairs"
  by (simp add: standard_pairs_by_data_def)

lemma standard_data_tag_iff:
  "standard_data_tag_for_length l = d \<and> d \<noteq> 0 \<longleftrightarrow> \<lparr>length_tag = l, data_tag = d\<rparr> \<in> set standard_length_data_pairs"
  (is "?L \<longleftrightarrow> ?R")
proof -
  have eq: "standard_data_tag_for_length l =
      (case find (\<lambda>p. length_tag p = l) standard_length_data_pairs of None \<Rightarrow> 0 | Some p \<Rightarrow> data_tag p)"
    unfolding standard_data_tag_for_length_def by (rule lower_bound_find [OF pairs_sorted])
  have dist: "distinct (map length_tag standard_length_data_pairs)"
    using pairs_sorted strict_sorted_iff by blast
  show ?thesis
  proof
    assume ?L
    then obtain p where "find (\<lambda>p. length_tag p = l) standard_length_data_pairs = Some p" "data_tag p = d"
      by (auto simp: eq split: option.splits)
    then have "p \<in> set standard_length_data_pairs" "length_tag p = l" by (auto dest: find_member)
    moreover from this have "p = \<lparr>length_tag = l, data_tag = d\<rparr>" using \<open>data_tag p = d\<close> by simp
    ultimately show ?R by simp
  next
    assume r: ?R
    then obtain p where p: "find (\<lambda>p. length_tag p = l) standard_length_data_pairs = Some p"
      by (cases "find (\<lambda>p. length_tag p = l) standard_length_data_pairs") (auto simp: find_None_iff)
    then have "p \<in> set standard_length_data_pairs" "length_tag p = l" by (auto dest: find_member)
    then have "p = \<lparr>length_tag = l, data_tag = d\<rparr>"
      using r dist by (metis distinct_map inj_onD length_data_pair.select_convs(1))
    then show ?L using p r pairs_columns by (auto simp: eq list_all_iff)
  qed
qed

lemma standard_length_tag_iff:
  "standard_length_tag_for_data d = l \<and> l \<noteq> 0 \<longleftrightarrow> \<lparr>length_tag = l, data_tag = d\<rparr> \<in> set standard_length_data_pairs"
  (is "?L \<longleftrightarrow> ?R")
proof -
  have eq: "standard_length_tag_for_data d =
      (case find (\<lambda>p. data_tag p = d) standard_pairs_by_data of None \<Rightarrow> 0 | Some p \<Rightarrow> length_tag p)"
    unfolding standard_length_tag_for_data_def by (rule lower_bound_find [OF pairs_by_data_sorted])
  have dist: "distinct (map data_tag standard_pairs_by_data)"
    using pairs_by_data_sorted strict_sorted_iff by blast
  show ?thesis
  proof
    assume ?L
    then obtain p where "find (\<lambda>p. data_tag p = d) standard_pairs_by_data = Some p" "length_tag p = l"
      by (auto simp: eq split: option.splits)
    then have "p \<in> set standard_length_data_pairs" "data_tag p = d" by (auto dest: find_member)
    moreover from this have "p = \<lparr>length_tag = l, data_tag = d\<rparr>" using \<open>length_tag p = l\<close> by simp
    ultimately show ?R by simp
  next
    assume r: ?R
    then obtain p where p: "find (\<lambda>p. data_tag p = d) standard_pairs_by_data = Some p"
      by (cases "find (\<lambda>p. data_tag p = d) standard_pairs_by_data") (auto simp: find_None_iff)
    then have "p \<in> set standard_pairs_by_data" "data_tag p = d" by (auto dest: find_member)
    then have "p = \<lparr>length_tag = l, data_tag = d\<rparr>"
      using r dist by (metis distinct_map inj_onD length_data_pair.select_convs(2) set_pairs_by_data)
    then show ?L using p r pairs_columns by (auto simp: eq list_all_iff)
  qed
qed

lemma standard_length_is_not_data:
  "standard_data_tag_for_length t \<noteq> 0 \<Longrightarrow> standard_length_tag_for_data t = 0"
  using standard_data_tag_iff [of t "standard_data_tag_for_length t"]
    standard_length_tag_iff [of t "standard_length_tag_for_data t"] pairs_columns
  by (force simp: list_all_iff)

subsection \<open>The bit set\<close>

lemma nat_and_63: "(t::nat) AND 63 = t mod 64"
proof -
  have m: "(63::nat) = mask 6" by (simp add: mask_eq_exp_minus_1)
  show ?thesis unfolding m take_bit_eq_mask [symmetric] by (simp add: take_bit_eq_mod)
qed

lemma nat_drop_6: "drop_bit 6 (t::nat) = t div 64"
  by (simp add: drop_bit_eq_div)

definition tag_bit :: "64 word list \<Rightarrow> nat \<Rightarrow> bool" where
  "tag_bit bits t \<longleftrightarrow> bit (bits ! (t div 64)) (t mod 64)"

lemma length_set_tag_bit [simp]: "length (set_tag_bit bits t) = length bits"
  by (simp add: set_tag_bit_def)

lemma tag_bit_set:
  assumes "length bits = 1024" "t < 65536" "u < 65536"
  shows "tag_bit (set_tag_bit bits t) u \<longleftrightarrow> tag_bit bits u \<or> u = t"
proof -
  have "u div 64 < 1024" "t div 64 < 1024" using assms by auto
  moreover have "u = t \<longleftrightarrow> u div 64 = t div 64 \<and> u mod 64 = t mod 64"
    by (metis div_mult_mod_eq)
  ultimately show ?thesis using assms(1)
    by (auto simp: tag_bit_def set_tag_bit_def nat_and_63 nat_drop_6 nth_list_update bit_simps)
qed

lemma tag_bit_fold:
  assumes "length bits = 1024" "u < 65536"
    "list_all (\<lambda>p. length_tag p < 65536 \<and> data_tag p < 65536) ps"
  shows "tag_bit (foldl (\<lambda>bits p. set_tag_bit (set_tag_bit bits (length_tag p)) (data_tag p)) bits ps) u \<longleftrightarrow>
    tag_bit bits u \<or> (\<exists>p \<in> set ps. u = length_tag p \<or> u = data_tag p)"
  using assms by (induction ps arbitrary: bits) (auto simp: tag_bit_set)

lemma odd_drop_bit_word: "(drop_bit n w AND 1 \<noteq> (0 :: 64 word)) = bit w n"
  by (simp add: and_one_eq bit_iff_odd_drop_bit odd_iff_mod_2_eq_one [symmetric] mod_2_eq_odd)

lemma is_standard_pair_tag_iff:
  "is_standard_pair_tag u \<longleftrightarrow> (\<exists>p \<in> set standard_length_data_pairs. u = length_tag p \<or> u = data_tag p)"
proof
  assume "is_standard_pair_tag u"
  then show "\<exists>p \<in> set standard_length_data_pairs. u = length_tag p \<or> u = data_tag p"
    using standard_data_tag_iff [of u] standard_length_tag_iff [of u]
    by (metis is_standard_pair_tag_def length_data_pair.select_convs)
next
  assume "\<exists>p \<in> set standard_length_data_pairs. u = length_tag p \<or> u = data_tag p"
  then obtain l d where "\<lparr>length_tag = l, data_tag = d\<rparr> \<in> set standard_length_data_pairs" "u = l \<or> u = d"
    by (metis length_data_pair.surjective unit.exhaust)
  then show "is_standard_pair_tag u"
    using standard_data_tag_iff [of l d] standard_length_tag_iff [of d l] by (auto simp: is_standard_pair_tag_def)
qed

lemma standard_pair_tag_range: "standard_pair_tag_min = 89" "standard_pair_tag_max = 43111"
  by (simp_all add: standard_pair_tag_min_def standard_pair_tag_max_def standard_length_data_pairs_def)

lemma standard_pair_tag_bit_exact: "standard_pair_tag_bit u = is_standard_pair_tag u"
proof (cases "u < 65536")
  case False
  then show ?thesis using pairs_columns
    by (auto simp: standard_pair_tag_bit_def is_standard_pair_tag_iff standard_pair_tag_range list_all_iff)
next
  case True
  have "list_all (\<lambda>p. length_tag p < 65536 \<and> data_tag p < 65536) standard_length_data_pairs"
    using pairs_columns by (fastforce simp: list_all_iff)
  then have bits: "tag_bit standard_pair_tag_bits u = is_standard_pair_tag u"
    using tag_bit_fold [of "replicate 1024 0" u standard_length_data_pairs] True
    by (simp add: standard_pair_tag_bits_def is_standard_pair_tag_iff tag_bit_def less_mult_imp_div_less)
  moreover have "(drop_bit (u AND 63) (standard_pair_tag_bits ! drop_bit 6 u) AND 1 \<noteq> 0) = tag_bit standard_pair_tag_bits u"
    by (simp add: odd_drop_bit_word tag_bit_def nat_and_63 nat_drop_6)
  moreover have "is_standard_pair_tag u \<Longrightarrow> standard_pair_tag_min \<le> u \<and> u \<le> standard_pair_tag_max"
    using pairs_columns by (auto simp: is_standard_pair_tag_iff standard_pair_tag_range list_all_iff)
  ultimately show ?thesis by (auto simp: standard_pair_tag_bit_def)
qed

subsection \<open>The pair laws\<close>

text \<open>What the scanners and the checker rely on of a pairing: the two lookups are inverse
  on nonzero tags.  A typed pairing in addition has no tag on both sides.\<close>

locale length_pairs =
  fixes data_of :: "nat \<Rightarrow> nat" and length_of :: "nat \<Rightarrow> nat"
  assumes pair_inverse: "l \<noteq> 0 \<Longrightarrow> d \<noteq> 0 \<Longrightarrow> data_of l = d \<longleftrightarrow> length_of d = l"
    and zero_unpaired: "data_of 0 = 0" "length_of 0 = 0"
begin

lemma length_of_data_of: "data_of l \<noteq> 0 \<Longrightarrow> length_of (data_of l) = l"
  using pair_inverse [of l "data_of l"] zero_unpaired by metis

lemma data_of_length_of: "length_of d \<noteq> 0 \<Longrightarrow> data_of (length_of d) = d"
  using pair_inverse [of "length_of d" d] zero_unpaired by metis

lemma data_of_inject: "data_of l = data_of l' \<Longrightarrow> data_of l \<noteq> 0 \<Longrightarrow> l = l'"
  using length_of_data_of by metis

end

locale typed_length_pairs = length_pairs +
  assumes typed: "data_of t \<noteq> 0 \<Longrightarrow> length_of t = 0"
begin

lemma no_chain: "data_of t \<noteq> 0 \<Longrightarrow> data_of (data_of t) = 0"
  using typed [of "data_of t"] length_of_data_of [of t] zero_unpaired by metis

end

lemma zero_not_standard: "standard_data_tag_for_length 0 = 0" "standard_length_tag_for_data 0 = 0"
  "\<not> is_standard_pair_tag 0"
proof -
  show "\<not> is_standard_pair_tag 0" using pairs_columns
    by (auto simp: is_standard_pair_tag_iff list_all_iff)
  then show "standard_data_tag_for_length 0 = 0" "standard_length_tag_for_data 0 = 0"
    by (simp_all add: is_standard_pair_tag_def)
qed

lemma standard_partner:
  "standard_data_tag_for_length l = d \<Longrightarrow> d \<noteq> 0 \<Longrightarrow> is_standard_pair_tag l \<and> is_standard_pair_tag d"
  "standard_length_tag_for_data d = l \<Longrightarrow> l \<noteq> 0 \<Longrightarrow> is_standard_pair_tag l \<and> is_standard_pair_tag d"
  using standard_data_tag_iff [of l d] standard_length_tag_iff [of d l]
  by (auto simp: is_standard_pair_tag_def)

lemma standard_inverse:
  "l \<noteq> 0 \<Longrightarrow> d \<noteq> 0 \<Longrightarrow> standard_data_tag_for_length l = d \<longleftrightarrow> standard_length_tag_for_data d = l"
  using standard_data_tag_iff [of l d] standard_length_tag_iff [of d l] by blast

interpretation std_pairs: typed_length_pairs "data_tag_for_length dict_hooks_none" "length_tag_for_data dict_hooks_none"
proof
  have d: "data_tag_for_length dict_hooks_none t = standard_data_tag_for_length t" for t
    using standard_partner(1) [of t]
    by (auto simp: data_tag_for_length_def dict_hooks_none_def standard_pair_tag_bit_exact is_standard_pair_tag_def)
  have l: "length_tag_for_data dict_hooks_none t = standard_length_tag_for_data t" for t
    using standard_partner(2) [of t]
    by (auto simp: length_tag_for_data_def dict_hooks_none_def standard_pair_tag_bit_exact is_standard_pair_tag_def)
  show "l \<noteq> 0 \<Longrightarrow> d \<noteq> 0 \<Longrightarrow>
      (data_tag_for_length dict_hooks_none l = d) = (length_tag_for_data dict_hooks_none d = l)" for l d
    unfolding d l by (rule standard_inverse)
  show "data_tag_for_length dict_hooks_none 0 = 0" "length_tag_for_data dict_hooks_none 0 = 0"
    unfolding d l by (rule zero_not_standard)+
  show "data_tag_for_length dict_hooks_none t \<noteq> 0 \<Longrightarrow> length_tag_for_data dict_hooks_none t = 0" for t
    unfolding d l by (rule standard_length_is_not_data)
qed

subsection \<open>The dictionary's pair maps\<close>

definition pair_inv :: "pair_table \<Rightarrow> bool" where
  "pair_inv tv \<longleftrightarrow>
     (\<forall>l d. length_pair_data_map tv l = Some d \<longleftrightarrow> data_pair_length_map tv d = Some l) \<and>
     (\<forall>l d. length_pair_data_map tv l = Some d \<longrightarrow> l \<noteq> 0 \<and> d \<noteq> 0)"

lemma pair_inv_empty: "pair_inv pair_table_empty"
  by (simp add: pair_inv_def pair_table_empty_def)

lemma pair_inv_facts:
  assumes "pair_inv tv"
  shows "length_pair_data_map tv l = Some d \<longleftrightarrow> data_pair_length_map tv d = Some l"
    and "length_pair_data_map tv l = Some d \<Longrightarrow> l \<noteq> 0 \<and> d \<noteq> 0"
    and "data_pair_length_map tv d = Some l \<Longrightarrow> l \<noteq> 0 \<and> d \<noteq> 0"
  using assms unfolding pair_inv_def by blast+

lemma displaced:
  assumes "pair_inv tv"
  shows "length_pair_data_tag tv l = 0 \<longleftrightarrow> length_pair_data_map tv l = None"
    and "data_pair_length_tag tv d = 0 \<longleftrightarrow> data_pair_length_map tv d = None"
    and "d \<noteq> 0 \<Longrightarrow> length_pair_data_tag tv l = d \<longleftrightarrow> length_pair_data_map tv l = Some d"
    and "l \<noteq> 0 \<Longrightarrow> data_pair_length_tag tv d = l \<longleftrightarrow> data_pair_length_map tv d = Some l"
  using pair_inv_facts(2,3) [OF assms]
  by (auto simp: length_pair_data_tag_def data_pair_length_tag_def split: option.splits)

lemma repaired_inverse:
  assumes FG: "\<And>x y. F x = Some y \<longleftrightarrow> G y = Some x"
  shows "(\<not> (G d = Some x \<and> x \<noteq> l) \<and> (if x = l then y = d else F x = Some y)) \<longleftrightarrow>
    (\<not> (F l = Some y \<and> y \<noteq> d) \<and> (if y = d then x = l else G y = Some x))"
proof -
  have "G d \<noteq> Some x" if "G y = Some x" "y \<noteq> d"
    using FG [of x y] FG [of x d] that by auto
  then show ?thesis by (cases "x = l"; cases "y = d") (auto simp: FG)
qed

lemma set_pair_rollback:
  assumes "pair_inv tv" "set_length_pair_data_tag oom1 oom2 l d tv = (True, tv')"
  shows "tv' = tv"
proof -
  have "(length_pair_data_map tv)(l := None) = length_pair_data_map tv" if "length_pair_data_tag tv l = 0"
    using that displaced(1) [OF assms(1)] by auto
  moreover have "(length_pair_data_map tv)(l \<mapsto> length_pair_data_tag tv l) = length_pair_data_map tv"
    if "length_pair_data_tag tv l \<noteq> 0"
    using that by (auto simp: length_pair_data_tag_def split: option.splits)
  ultimately show ?thesis using assms(2)
    by (auto simp: set_length_pair_data_tag_def Let_def split: if_splits)
qed

lemma set_pair_inv:
  assumes "pair_inv tv" "set_length_pair_data_tag oom1 oom2 l d tv = (thrown, tv')"
  shows "pair_inv tv'"
proof (cases thrown)
  case True
  then show ?thesis using set_pair_rollback assms by metis
next
  case False
  show ?thesis
  proof (cases "l = 0 \<or> d = 0")
    case True
    then show ?thesis using assms by (auto simp: set_length_pair_data_tag_def)
  next
    case nz: False
    let ?d0 = "length_pair_data_tag tv l" and ?l0 = "data_pair_length_tag tv d"
    have tv': "tv' = drop_displaced ?d0 ?l0 l d (tv\<lparr>length_pair_data_map := (length_pair_data_map tv)(l \<mapsto> d),
        data_pair_length_map := (data_pair_length_map tv)(d \<mapsto> l)\<rparr>)"
      using assms(2) False nz by (simp add: set_length_pair_data_tag_def Let_def split: if_splits)
    have old: "?l0 \<noteq> 0 \<and> ?l0 \<noteq> l \<and> x = ?l0 \<longleftrightarrow> data_pair_length_map tv d = Some x \<and> x \<noteq> l"
      "?d0 \<noteq> 0 \<and> ?d0 \<noteq> d \<and> y = ?d0 \<longleftrightarrow> length_pair_data_map tv l = Some y \<and> y \<noteq> d" for x y
      using displaced [OF assms(1)] pair_inv_facts(2,3) [OF assms(1)] by metis+
    have f: "length_pair_data_map tv' x = Some y \<longleftrightarrow>
        \<not> (data_pair_length_map tv d = Some x \<and> x \<noteq> l) \<and> (if x = l then y = d else length_pair_data_map tv x = Some y)" for x y
      unfolding old(1) [symmetric] by (auto simp: tv' drop_displaced_def Let_def)
    have i: "data_pair_length_map tv' y = Some x \<longleftrightarrow>
        \<not> (length_pair_data_map tv l = Some y \<and> y \<noteq> d) \<and> (if y = d then x = l else data_pair_length_map tv y = Some x)" for x y
      unfolding old(2) [symmetric] by (auto simp: tv' drop_displaced_def Let_def)
    have "length_pair_data_map tv' x = Some y \<longleftrightarrow> data_pair_length_map tv' y = Some x" for x y
      unfolding f i by (rule repaired_inverse [OF pair_inv_facts(1) [OF assms(1)]])
    moreover have "length_pair_data_map tv' x = Some y \<Longrightarrow> x \<noteq> 0 \<and> y \<noteq> 0" for x y
      unfolding f using pair_inv_facts(2) [OF assms(1)] nz by (auto split: if_splits)
    ultimately show ?thesis unfolding pair_inv_def by blast
  qed
qed

text \<open>Every table a dictionary can build: a sequence of registrations, failed ones included.\<close>

inductive pair_reachable :: "pair_table \<Rightarrow> bool" where
  empty: "pair_reachable pair_table_empty"
| register: "pair_reachable tv \<Longrightarrow> set_length_pair_data_tag oom1 oom2 l d tv = (thrown, tv') \<Longrightarrow> pair_reachable tv'"

lemma pair_reachable_inv: "pair_reachable tv \<Longrightarrow> pair_inv tv"
  by (induction rule: pair_reachable.induct) (auto intro: pair_inv_empty set_pair_inv)

lemma hooks_pairs:
  assumes "pair_inv tv"
  shows "length_pairs (data_tag_for_length (for_table_view valid members first_field tv))
    (length_tag_for_data (for_table_view valid members first_field tv))" (is "length_pairs ?D ?L")
proof
  have "data_pair_length_tag tv 0 = 0" "length_pair_data_tag tv 0 = 0"
    using pair_inv_facts(2,3) [OF assms]
    by (auto simp: length_pair_data_tag_def data_pair_length_tag_def split: option.splits)
  then show "?D 0 = 0" "?L 0 = 0"
    by (simp_all add: data_tag_for_length_def length_tag_for_data_def for_table_view_def
        standard_pair_tag_bit_exact zero_not_standard)
  fix l d :: nat
  assume nz: "l \<noteq> 0" "d \<noteq> 0"
  have D: "?D l = d \<longleftrightarrow> (if is_standard_pair_tag l then standard_data_tag_for_length l = d
      else has_nonstandard_pair tv \<and> length_pair_data_map tv l = Some d \<and> \<not> is_standard_pair_tag d)"
    using nz unfolding displaced(3) [OF assms nz(2), symmetric]
    by (auto simp: data_tag_for_length_def for_table_view_def standard_pair_tag_bit_exact Let_def)
  have L: "?L d = l \<longleftrightarrow> (if is_standard_pair_tag d then standard_length_tag_for_data d = l
      else has_nonstandard_pair tv \<and> data_pair_length_map tv d = Some l \<and> \<not> is_standard_pair_tag l)"
    using nz unfolding displaced(4) [OF assms nz(1), symmetric]
    by (auto simp: length_tag_for_data_def for_table_view_def standard_pair_tag_bit_exact Let_def)
  show "?D l = d \<longleftrightarrow> ?L d = l"
    unfolding D L using nz standard_inverse [of l d] standard_partner [of l d] standard_partner(2) [of d l]
      pair_inv_facts(1) [OF assms, of l d] by auto
qed

subsection \<open>What the checker accepts\<close>

text \<open>The fields of one container, in order, as the two builders run the checker: stop at
  the first violation, then finish.\<close>

fun observe_all ::
    "dict_hooks \<Rightarrow> length_data_checker \<Rightarrow> (nat \<times> byte list) list \<Rightarrow> bool \<times> length_data_checker" where
  "observe_all hooks st [] = (True, st)"
| "observe_all hooks st ((tag, value) # fs) =
     (case observe hooks st tag value of (good, st) \<Rightarrow> if good then observe_all hooks st fs else (False, st))"

definition check_container :: "dict_hooks \<Rightarrow> (nat \<times> byte list) list \<Rightarrow> bool" where
  "check_container hooks fs =
     (case observe_all hooks checker_init fs of (good, st) \<Rightarrow> good \<and> fst (checker_finish st))"

text \<open>A Length value: digits that denote a nonzero 32-bit count.\<close>

definition length_value :: "byte list \<Rightarrow> nat \<Rightarrow> bool" where
  "length_value v n \<longleftrightarrow> v \<noteq> [] \<and> digits v \<and> dec_value v = n \<and> 0 < n \<and> n < 2 ^ 32"

fun well_paired :: "dict_hooks \<Rightarrow> (nat \<times> byte list) list \<Rightarrow> bool" where
  "well_paired hooks [] = True"
| "well_paired hooks [(tag, value)] \<longleftrightarrow> length_tag_for_data hooks tag = 0 \<and> data_tag_for_length hooks tag = 0"
| "well_paired hooks ((tag, value) # (tag', value') # fs) \<longleftrightarrow>
     length_tag_for_data hooks tag = 0 \<and>
     (if data_tag_for_length hooks tag = 0 then well_paired hooks ((tag', value') # fs)
      else tag' = data_tag_for_length hooks tag \<and> length_value value (length value') \<and> well_paired hooks fs)"

lemma count_loop_value:
  "count \<le> 0xFFFFFFFF \<Longrightarrow>
   count_loop count v = (if digits v \<and> dec_acc count v \<le> 0xFFFFFFFF then Some (dec_acc count v) else None)"
proof (induction v arbitrary: count)
  case (Cons c v)
  show ?case
    using Cons.IH [of "count * 10 + digit_val c"] dec_acc_mono [of "count * 10 + digit_val c" v]
    by (auto simp: accumulate_bounded_exact)
qed simp

lemma count_loop_length_value:
  "value \<noteq> [] \<and> (\<exists>n. count_loop 0 value = Some n \<and> n \<noteq> 0 \<and> P n) \<longleftrightarrow> (\<exists>n. length_value value n \<and> P n)"
  using count_loop_value [of 0 "value"] by (auto simp: length_value_def dec_value_def)

text \<open>Between two pairs the checker waits for nothing.\<close>

definition checker_idle :: "length_data_checker \<Rightarrow> bool" where
  "checker_idle st \<longleftrightarrow> \<not> failed st \<and> awaited_data st = 0"

lemma observe_idle_plain:
  "checker_idle st \<Longrightarrow> length_tag_for_data hooks tag = 0 \<Longrightarrow> data_tag_for_length hooks tag = 0 \<Longrightarrow>
   observe hooks st tag v = (True, st)"
  by (simp add: checker_idle_def observe_def)

lemma observe_idle_data:
  "checker_idle st \<Longrightarrow> length_tag_for_data hooks tag \<noteq> 0 \<Longrightarrow> \<not> fst (observe hooks st tag v)"
  by (simp add: checker_idle_def observe_def)

lemma observe_idle_length:
  assumes "checker_idle st" "length_tag_for_data hooks tag = 0" "data_tag_for_length hooks tag \<noteq> 0"
  shows "observe hooks st tag v =
    (if length_value v (dec_value v)
     then (True, st\<lparr>awaited_data := data_tag_for_length hooks tag, awaited_len := dec_value v\<rparr>)
     else (False, st\<lparr>failed := True\<rparr>))"
  using assms count_loop_value [of 0 v]
  by (auto simp: checker_idle_def observe_def length_value_def dec_value_def Let_def)

lemma observe_awaiting:
  assumes "\<not> failed st" "awaited_data st \<noteq> 0"
  shows "observe hooks st tag v =
    (let good = (tag = awaited_data st \<and> v \<noteq> [] \<and> length v = awaited_len st)
     in (good, st\<lparr>awaited_data := 0, failed := \<not> good\<rparr>))"
  using assms by (auto simp: observe_def Let_def)

lemma observe_all_well_paired:
  assumes "checker_idle st"
  shows "(case observe_all hooks st fs of (good, st) \<Rightarrow> good \<and> fst (checker_finish st)) = well_paired hooks fs"
  using assms
proof (induction hooks fs arbitrary: st rule: well_paired.induct)
  case (1 hooks)
  then show ?case by (simp add: checker_idle_def checker_finish_def)
next
  case (2 hooks tag v)
  consider "length_tag_for_data hooks tag \<noteq> 0"
    | "length_tag_for_data hooks tag = 0" "data_tag_for_length hooks tag = 0"
    | "length_tag_for_data hooks tag = 0" "data_tag_for_length hooks tag \<noteq> 0" by blast
  then show ?case
  proof cases
    case 1
    then show ?thesis using observe_idle_data [OF 2, of hooks tag v] by (auto split: prod.splits)
  next
    case 2
    then show ?thesis using observe_idle_plain [OF \<open>checker_idle st\<close>]
      using \<open>checker_idle st\<close> by (simp add: checker_idle_def checker_finish_def)
  next
    case 3
    then show ?thesis by (simp add: observe_idle_length [OF \<open>checker_idle st\<close>] checker_finish_def)
  qed
next
  case (3 hooks tag v tag' v' fs)
  consider "length_tag_for_data hooks tag \<noteq> 0"
    | "length_tag_for_data hooks tag = 0" "data_tag_for_length hooks tag = 0"
    | "length_tag_for_data hooks tag = 0" "data_tag_for_length hooks tag \<noteq> 0" by blast
  then show ?case
  proof cases
    case 1
    then show ?thesis using observe_idle_data [OF 3(3), of hooks tag v] by (auto split: prod.splits)
  next
    case 2
    then show ?thesis using observe_idle_plain [OF 3(3)] 3(1) [OF 2(2) 3(3)] by simp
  next
    case c: 3
    let ?st = "st\<lparr>awaited_data := data_tag_for_length hooks tag, awaited_len := dec_value v\<rparr>"
    have idle: "checker_idle (?st\<lparr>awaited_data := 0, failed := False\<rparr>)"
      by (simp add: checker_idle_def)
    have "\<not> failed ?st" "awaited_data ?st \<noteq> 0" using 3(3) c by (simp_all add: checker_idle_def)
    note aw = observe_awaiting [OF this, of hooks tag' v']
    show ?thesis
      using 3(2) [OF c(2) idle] c aw
      by (auto simp: observe_idle_length [OF 3(3)] Let_def length_value_def)
  qed
qed

text \<open>C11. The outbound check of Length and Data fields is exact: a container passes iff
  every Length field carries a nonzero 32-bit decimal count and is followed at once by its
  own Data field with exactly that many bytes, and no Data field stands anywhere else.\<close>

theorem length_data_checker_exact: "check_container hooks fs = well_paired hooks fs"
  using observe_all_well_paired [of checker_init hooks fs]
  by (simp add: check_container_def checker_init_def checker_idle_def)

text \<open>C17. The pair maps of a dictionary stay inverse to each other through every sequence of
  registrations, re-pairings and failed allocations; a registration that fails to allocate
  leaves the table as it was.\<close>

theorem pair_table_consistent:
  assumes "pair_reachable tv" "set_length_pair_data_tag oom1 oom2 l d tv = (thrown, tv')"
  shows "(\<forall>l d. length_pair_data_map tv' l = Some d \<longleftrightarrow> data_pair_length_map tv' d = Some l) \<and>
    (thrown \<longrightarrow> tv' = tv)"
proof -
  note inv = pair_reachable_inv [OF assms(1)]
  show ?thesis
    using pair_inv_facts(1) [OF set_pair_inv [OF inv assms(2)]] set_pair_rollback [OF inv] assms(2) by auto
qed

theorem pair_table_consistent_witness:
  "set_length_pair_data_tag False True 5001 5003 (snd (set_length_pair_data_tag False False 5001 5002 pair_table_empty)) =
   (True, snd (set_length_pair_data_tag False False 5001 5002 pair_table_empty))"
proof -
  let ?t = "snd (set_length_pair_data_tag False False 5001 5002 pair_table_empty)"
  have "set_length_pair_data_tag False False 5001 5002 pair_table_empty = (False, ?t)"
    by (simp add: set_length_pair_data_tag_def pair_table_empty_def)
  then have r: "pair_reachable ?t" by (rule pair_reachable.register [OF pair_reachable.empty])
  have "fst (set_length_pair_data_tag False True 5001 5003 ?t)"
    by (simp add: set_length_pair_data_tag_def pair_table_empty_def drop_displaced_def Let_def
        length_pair_data_tag_def data_pair_length_tag_def)
  then obtain tv' where t: "set_length_pair_data_tag False True 5001 5003 ?t = (True, tv')"
    by (cases "set_length_pair_data_tag False True 5001 5003 ?t") auto
  then show ?thesis using pair_table_consistent [OF r t] by simp
qed

subsection \<open>Reading a value\<close>

lemma next_soh_bounds: "i \<le> length buf \<Longrightarrow> i \<le> next_soh buf i \<and> next_soh buf i \<le> length buf"
proof (induction buf i rule: next_soh.induct)
  case (1 buf i)
  show ?case
  proof (cases "i < length buf \<and> buf ! i \<noteq> SOH")
    case True
    then show ?thesis using 1 by (subst (1 2) next_soh.simps) simp
  next
    case False
    then show ?thesis using 1 by (subst (1 2) next_soh.simps) auto
  qed
qed

lemma next_soh_takeWhile:
  "i \<le> length buf \<Longrightarrow> next_soh buf i = i + length (takeWhile (\<lambda>c. c \<noteq> SOH) (drop i buf))"
proof (induction buf i rule: next_soh.induct)
  case (1 buf i)
  show ?case
  proof (cases "i < length buf")
    case True
    then have "drop i buf = buf ! i # drop (Suc i) buf" by (simp add: Cons_nth_drop_Suc)
    then show ?thesis using 1 True by (subst next_soh.simps) simp
  next
    case False
    then show ?thesis using 1 by (subst next_soh.simps) simp
  qed
qed

text \<open>A value that holds no SOH, followed by one or by the end of the buffer, is found whole.\<close>

lemma next_soh_value:
  assumes "buf = pre @ v @ rest" "SOH \<notin> set v" "rest = [] \<or> hd rest = SOH"
  shows "next_soh buf (length pre) = length pre + length v"
proof -
  have "takeWhile (\<lambda>c. c \<noteq> SOH) (v @ rest) = v"
    using assms(2,3) by (cases rest) (auto simp: takeWhile_append)
  then show ?thesis using assms(1) by (simp add: next_soh_takeWhile)
qed

lemma counted_value_end_iff:
  "counted_value_end buf vstart n = Some e \<longleftrightarrow>
     e = vstart + n \<and> vstart + n < length buf \<and> buf ! (vstart + n) = SOH"
  by (auto simp: counted_value_end_def)

end
