(* ===== verification/Fixpp_Framer.thy ===== *)
theory Fixpp_Framer
  imports Fixpp_LengthData
begin

text \<open>
  The framing layer: \<^verbatim>\<open>include/fixpp/wire/framer.hpp\<close> and \<^verbatim>\<open>src/wire/framer.cpp\<close>.  A byte stream
  arrives in chunks of any size; \<^verbatim>\<open>Framer::feed\<close> emits the complete, verified frames and
  carries the trailing partial one.  Strict mode stops at the first framing error; resync
  mode discards up to the next \<^verbatim>\<open>8=FIX\<close>.

  A \<^verbatim>\<open>std::span\<close> is the list of its bytes, so a \<^verbatim>\<open>frame_view\<close> is the frame's bytes with the
  offset and length of its body.  The caller's output array matters only by its size.  A
  span's size and \<^verbatim>\<open>Config::max_frame_bytes\<close> are below \<open>2 ^ 63\<close>, so that sums of offsets
  and lengths do not wrap; the one subtraction that can wrap, \<^verbatim>\<open>max_frame_bytes - digit\<close>, is
  written with \<open>u64_sub\<close>.
\<close>

subsection \<open>Configuration and state\<close>

definition default_max_frame_bytes :: nat where "default_max_frame_bytes = 256 * 1024"

definition supported_begin_strings :: "byte list list" where
  "supported_begin_strings = [''FIX.4.0'', ''FIX.4.1'', ''FIX.4.2'', ''FIX.4.3'', ''FIX.4.4'', ''FIXT.1.1'']"

definition longest_supported_begin_string :: nat where
  "longest_supported_begin_string = foldl (\<lambda>longest s. max longest (length s)) 0 supported_begin_strings"

record garble_summary =
  regions :: nat
  first_kind :: "error option"
  discarded :: nat

definition garble_none :: garble_summary where
  "garble_none = \<lparr>regions = 0, first_kind = None, discarded = 0\<rparr>"

record pmr_carry_buffer =
  carry_buf :: "byte list"
  carry_cap :: nat

definition carry_append :: "pmr_carry_buffer \<Rightarrow> byte list \<Rightarrow> bool \<times> pmr_carry_buffer" where
  "carry_append c xs =
     (if length (carry_buf c) + length xs > carry_cap c then (False, c) else (True, c\<lparr>carry_buf := carry_buf c @ xs\<rparr>))"

definition consume_front :: "pmr_carry_buffer \<Rightarrow> nat \<Rightarrow> pmr_carry_buffer" where
  "consume_front c n = (if n \<ge> length (carry_buf c) then c\<lparr>carry_buf := []\<rparr> else c\<lparr>carry_buf := drop n (carry_buf c)\<rparr>)"

definition carry_clear :: "pmr_carry_buffer \<Rightarrow> pmr_carry_buffer" where
  "carry_clear c = c\<lparr>carry_buf := []\<rparr>"

record frame_view =
  frame_bytes :: "byte list"
  frame_body_off :: nat
  frame_body_len :: nat

definition frame_body :: "frame_view \<Rightarrow> byte list" where
  "frame_body f = sub_span (frame_bytes f) (frame_body_off f) (frame_body_len f)"

record framer_config =
  max_frame_bytes :: nat
  resync_on_garble :: bool
  max_begin_string_bytes :: nat

definition framer_config_default :: framer_config where
  "framer_config_default =
     \<lparr>max_frame_bytes = default_max_frame_bytes, resync_on_garble = False,
      max_begin_string_bytes = longest_supported_begin_string\<rparr>"

definition kBodyLengthDigitCap :: nat where "kBodyLengthDigitCap = 10"

record framer =
  framer_cfg :: framer_config
  pending :: nat
  searching :: bool
  garbles :: garble_summary
  work_read :: nat
  work_summed :: nat
  work_moved :: nat

definition framer_new :: "framer_config \<Rightarrow> framer" where
  "framer_new c =
     \<lparr>framer_cfg = c, pending = 0, searching = False, garbles = garble_none,
      work_read = 0, work_summed = 0, work_moved = 0\<rparr>"

subsection \<open>One frame, strict\<close>

datatype parsed_frame = Complete nat nat nat | Partial | Malformed error

function find_soh :: "byte list \<Rightarrow> nat \<Rightarrow> nat" where
  "find_soh bytes i =
     (if i < length bytes then (if bytes ! i = SOH then i else find_soh bytes (i + 1)) else length bytes)"
  by pat_completeness auto
termination
  by (relation "measure (\<lambda>(bytes, i). length bytes - i)") auto

declare find_soh.simps [simp del]

text \<open>The BodyLength digits, up to their SOH.\<close>

fun body_length_loop :: "nat \<Rightarrow> nat \<Rightarrow> byte list \<Rightarrow> nat expected_t" where
  "body_length_loop max_bytes n [] = ok n"
| "body_length_loop max_bytes n (c # cs) =
     (if \<not> is_digit c then unexpected wire_invalid_body_length
      else
        let digit = digit_val c in
        if n > u64_sub max_bytes digit div 10 then unexpected wire_frame_too_large
        else body_length_loop max_bytes (u64 (u64 (n * 10) + digit)) cs)"

text \<open>The sum of the bytes, in an \<^verbatim>\<open>unsigned\<close>, and the three CheckSum digits.\<close>

definition checksum_of :: "byte list \<Rightarrow> nat" where
  "checksum_of bytes = foldl (\<lambda>sum b. u32 (sum + byte_val b)) 0 bytes mod 256"

definition encoded_checksum :: "byte list \<Rightarrow> nat" where
  "encoded_checksum ds = digit_val (ds ! 0) * 100 + digit_val (ds ! 1) * 10 + digit_val (ds ! 2)"

text \<open>The trailer and CheckSum of a frame whose body is known to lie in \<open>bytes\<close>.\<close>

definition check_trailer :: "byte list \<Rightarrow> nat \<Rightarrow> nat \<Rightarrow> nat \<Rightarrow> parsed_frame" where
  "check_trailer bytes max_bytes body_off body_length =
     (let checksum_off = body_off + body_length in
      if checksum_off + 7 > length bytes then Partial
      else if bytes ! checksum_off \<noteq> CHR ''1'' \<or> bytes ! (checksum_off + 1) \<noteq> CHR ''0'' \<or>
              bytes ! (checksum_off + 2) \<noteq> EQ
      then Malformed wire_invalid_body_length
      else if bytes ! (body_off + body_length - 1) \<noteq> SOH then Malformed wire_invalid_body_length
      else
        let checksum_digits = sub_span bytes (checksum_off + 3) 3 in
        if \<not> digits checksum_digits then Malformed wire_checksum_mismatch
        else if bytes ! (checksum_off + 6) \<noteq> SOH then Malformed wire_checksum_mismatch
        else if encoded_checksum checksum_digits \<noteq> checksum_of (take checksum_off bytes)
        then Malformed wire_checksum_mismatch
        else
          let frame_len = checksum_off + 7 in
          if frame_len > max_bytes then Malformed wire_frame_too_large
          else Complete frame_len body_off body_length)"

definition parse_frame :: "byte list \<Rightarrow> nat \<Rightarrow> parsed_frame" where
  "parse_frame bytes max_bytes =
     (if bytes = [] then Partial
      else if bytes ! 0 \<noteq> CHR ''8'' then Malformed wire_framing_resync
      else if length bytes < 2 then Partial
      else if bytes ! 1 \<noteq> EQ then Malformed wire_framing_resync
      else
        let beginstring_end = find_soh bytes 2 in
        if beginstring_end = length bytes then Partial
        else
          let body_length_tag = beginstring_end + 1 in
          if body_length_tag \<ge> length bytes then Partial
          else if body_length_tag + 1 \<ge> length bytes then Partial
          else if bytes ! body_length_tag \<noteq> CHR ''9'' \<or> bytes ! (body_length_tag + 1) \<noteq> EQ
          then Malformed wire_invalid_body_length
          else
            let body_length_value = body_length_tag + 2;
                body_length_end = find_soh bytes body_length_value in
            if body_length_end = length bytes then Partial
            else if body_length_end = body_length_value then Malformed wire_invalid_body_length
            else case body_length_loop max_bytes 0
                        (sub_span bytes body_length_value (body_length_end - body_length_value)) of
              Inl e \<Rightarrow> Malformed e
            | Inr body_length \<Rightarrow>
                if body_length = 0 then Malformed wire_invalid_body_length
                else if body_length > max_bytes then Malformed wire_frame_too_large
                else
                  let body_off = body_length_end + 1 in
                  if body_off > length bytes then Partial
                  else if body_off + body_length > length bytes then Partial
                  else check_trailer bytes max_bytes body_off body_length)"

subsection \<open>Strict feeding\<close>

lemma parse_frame_Complete_bounds:
  assumes "parse_frame bytes max_bytes = Complete fl boff blen"
  shows "fl = boff + blen + 7 \<and> fl \<le> length bytes \<and> fl \<le> max_bytes"
proof -
  have "\<exists>b l. check_trailer bytes max_bytes b l = Complete fl boff blen"
    using assms by (auto simp: parse_frame_def Let_def split: if_splits sum.splits)
  then show ?thesis by (auto simp: check_trailer_def Let_def split: if_splits)
qed

text \<open>The loop: the offset reached and the frames produced, or the framing error.\<close>

function feed_loop :: "nat \<Rightarrow> nat \<Rightarrow> byte list \<Rightarrow> nat \<Rightarrow> frame_view list \<Rightarrow> (nat \<times> frame_view list) expected_t" where
  "feed_loop max_bytes out_size source offset produced =
     (if offset < length source then
        if length produced = out_size then ok (offset, produced)
        else case parse_frame (drop offset source) max_bytes of
          Partial \<Rightarrow> ok (offset, produced)
        | Malformed e \<Rightarrow> unexpected e
        | Complete frame_len boff blen \<Rightarrow>
            feed_loop max_bytes out_size source (offset + frame_len)
              (produced @ [\<lparr>frame_bytes = sub_span source offset frame_len, frame_body_off = boff, frame_body_len = blen\<rparr>])
      else ok (offset, produced))"
  by pat_completeness auto
termination
  by (relation "measure (\<lambda>(m, n, source, offset, p). length source - offset)")
     (auto dest: parse_frame_Complete_bounds)

declare feed_loop.simps [simp del]

definition feed_strict ::
    "framer \<Rightarrow> byte list \<Rightarrow> pmr_carry_buffer \<Rightarrow> nat \<Rightarrow>
     frame_view list expected_t \<times> framer \<times> pmr_carry_buffer" where
  "feed_strict fr incoming carry out_size =
     (let carry = (if pending fr < length (carry_buf carry)
                   then consume_front carry (length (carry_buf carry) - pending fr) else carry);
          using_carry = (carry_buf carry \<noteq> []);
          (fits, carry) = (if using_carry then carry_append carry incoming else (True, carry)) in
      if \<not> fits then (unexpected wire_frame_too_large, fr\<lparr>pending := 0\<rparr>, carry_clear carry)
      else
        let source = (if using_carry then carry_buf carry else incoming) in
        case feed_loop (max_frame_bytes (framer_cfg fr)) out_size source 0 [] of
          Inl e \<Rightarrow> (unexpected e, fr\<lparr>pending := 0\<rparr>, carry_clear carry)
        | Inr (offset, produced) \<Rightarrow>
            let trailing = length source - offset in
            if using_carry then (ok produced, fr\<lparr>pending := trailing\<rparr>, carry)
            else
              let carry = carry_clear carry in
              if trailing \<noteq> 0 then
                case carry_append carry (drop offset source) of (fits, carry) \<Rightarrow>
                  if \<not> fits then (unexpected wire_frame_too_large, fr\<lparr>pending := 0\<rparr>, carry)
                  else (ok produced, fr\<lparr>pending := trailing\<rparr>, carry)
              else (ok produced, fr\<lparr>pending := 0\<rparr>, carry))"

subsection \<open>One candidate, with resynchronisation\<close>

text \<open>The counted work is an output of every helper: bytes read and bytes summed.\<close>

record resync_work =
  reads :: nat
  sums :: nat

datatype resync_candidate =
    rframe nat nat nat
  | rpartial
  | rgarble error "nat option"
  | rtoo_large

text \<open>The capped BeginString scan: its end, or \<^const>\<open>None\<close> for a value that is too long.\<close>

function begin_string_loop :: "byte list \<Rightarrow> nat \<Rightarrow> nat \<Rightarrow> nat \<Rightarrow> nat option \<times> nat" where
  "begin_string_loop bytes last_soh_at i r =
     (if i < length bytes then
        if bytes ! i = SOH then (Some i, r + 1)
        else if i = last_soh_at then (None, r + 1)
        else begin_string_loop bytes last_soh_at (i + 1) (r + 1)
      else (Some i, r))"
  by pat_completeness auto
termination
  by (relation "measure (\<lambda>(bytes, l, i, r). length bytes - i)") auto

declare begin_string_loop.simps [simp del]

text \<open>The capped BodyLength scan: the digits are read while the SOH is searched.\<close>

function resync_length_loop ::
    "byte list \<Rightarrow> nat \<Rightarrow> nat \<Rightarrow> nat \<Rightarrow> nat \<Rightarrow> nat \<Rightarrow> (resync_candidate + nat \<times> nat) \<times> nat" where
  "resync_length_loop bytes max_bytes first i n r =
     (if i \<ge> length bytes then (Inl rpartial, r)
      else if bytes ! i = SOH then (Inr (i, n), r + 1)
      else if \<not> is_digit (bytes ! i) then (Inl (rgarble wire_invalid_body_length None), r + 1)
      else if i - first = kBodyLengthDigitCap then (Inl (rgarble wire_invalid_body_length None), r + 1)
      else
        let digit = digit_val (bytes ! i) in
        if digit > max_bytes \<or> n > (max_bytes - digit) div 10 then (Inl rtoo_large, r + 1)
        else resync_length_loop bytes max_bytes first (i + 1) (n * 10 + digit) (r + 1))"
  by pat_completeness auto
termination
  by (relation "measure (\<lambda>(bytes, m, f, i, n, r). length bytes - i)") auto

declare resync_length_loop.simps [simp del]

text \<open>The three CheckSum digits are read until the first that is none.\<close>

definition digits_read :: "byte list \<Rightarrow> nat" where
  "digits_read ds = min (length (takeWhile is_digit ds) + 1) (length ds)"

definition resync_trailer ::
    "byte list \<Rightarrow> nat \<Rightarrow> nat \<Rightarrow> resync_work \<Rightarrow> resync_candidate \<times> resync_work" where
  "resync_trailer bytes body_off body_length work =
     (let checksum_off = body_off + body_length;
          frame_len = checksum_off + 7;
          work = work\<lparr>reads := reads work + 3\<rparr> in
      if bytes ! checksum_off \<noteq> CHR ''1'' \<or> bytes ! (checksum_off + 1) \<noteq> CHR ''0'' \<or>
         bytes ! (checksum_off + 2) \<noteq> EQ
      then (rgarble wire_invalid_body_length None, work)
      else
        let work = work\<lparr>reads := reads work + 1\<rparr> in
        if bytes ! (checksum_off - 1) \<noteq> SOH then (rgarble wire_invalid_body_length None, work)
        else
          let checksum_digits = sub_span bytes (checksum_off + 3) 3;
              work = work\<lparr>reads := reads work + digits_read checksum_digits\<rparr> in
          if \<not> digits checksum_digits then (rgarble wire_checksum_mismatch None, work)
          else
            let work = work\<lparr>reads := reads work + 1\<rparr> in
            if bytes ! (checksum_off + 6) \<noteq> SOH then (rgarble wire_checksum_mismatch None, work)
            else
              let work = work\<lparr>sums := sums work + checksum_off\<rparr> in
              if encoded_checksum checksum_digits \<noteq> checksum_of (take checksum_off bytes)
              then (rgarble wire_checksum_mismatch (Some frame_len), work)
              else (rframe frame_len body_off body_length, work))"

definition parse_resync_candidate ::
    "byte list \<Rightarrow> nat \<Rightarrow> nat \<Rightarrow> resync_work \<Rightarrow> resync_candidate \<times> resync_work" where
  "parse_resync_candidate bytes max_bytes max_begin work =
     (let n = length bytes in
      if n = 0 then (rpartial, work)
      else let work = work\<lparr>reads := reads work + 1\<rparr> in
      if bytes ! 0 \<noteq> CHR ''8'' then (rgarble wire_framing_resync None, work)
      else if n < 2 then (rpartial, work)
      else let work = work\<lparr>reads := reads work + 1\<rparr> in
      if bytes ! 1 \<noteq> EQ then (rgarble wire_framing_resync None, work)
      else case begin_string_loop bytes (2 + max_begin) 2 (reads work) of
        (None, r) \<Rightarrow> (rgarble wire_framing_resync None, work\<lparr>reads := r\<rparr>)
      | (Some beginstring_end, r) \<Rightarrow>
          let work = work\<lparr>reads := r\<rparr> in
          if beginstring_end = n then (rpartial, work)
          else
            let body_length_tag = beginstring_end + 1 in
            if body_length_tag + 1 \<ge> n then (rpartial, work)
            else
              let work = work\<lparr>reads := reads work + 2\<rparr> in
              if bytes ! body_length_tag \<noteq> CHR ''9'' \<or> bytes ! (body_length_tag + 1) \<noteq> EQ
              then (rgarble wire_invalid_body_length None, work)
              else
                let body_length_value = body_length_tag + 2 in
                case resync_length_loop bytes max_bytes body_length_value body_length_value 0 (reads work) of
                  (Inl c, r) \<Rightarrow> (c, work\<lparr>reads := r\<rparr>)
                | (Inr (body_length_end, body_length), r) \<Rightarrow>
                    let work = work\<lparr>reads := r\<rparr> in
                    if body_length_end = body_length_value \<or> body_length = 0
                    then (rgarble wire_invalid_body_length None, work)
                    else
                      let body_off = body_length_end + 1;
                          frame_len = body_off + body_length + 7 in
                      if frame_len > max_bytes then (rtoo_large, work)
                      else if frame_len > n then (rpartial, work)
                      else resync_trailer bytes body_off body_length work)"

definition resync_start :: "byte list" where "resync_start = ''8=FIX''"

text \<open>How many bytes of \<^verbatim>\<open>8=FIX\<close> match at \<open>i\<close>, the first one being known to.\<close>

function match_loop :: "byte list \<Rightarrow> nat \<Rightarrow> nat \<Rightarrow> nat \<Rightarrow> nat \<times> nat" where
  "match_loop bytes i matched r =
     (if matched < length resync_start \<and> i + matched < length bytes then
        if bytes ! (i + matched) \<noteq> resync_start ! matched then (matched, r + 1)
        else match_loop bytes i (matched + 1) (r + 1)
      else (matched, r))"
  by pat_completeness auto
termination
  by (relation "measure (\<lambda>(bytes, i, matched, r). length resync_start - matched)") auto

declare match_loop.simps [simp del]

text \<open>The start found, if any, and the number of bytes held back otherwise.\<close>

function find_resync_start :: "byte list \<Rightarrow> nat \<Rightarrow> nat \<Rightarrow> nat option \<times> nat \<times> nat" where
  "find_resync_start bytes i r =
     (if i < length bytes then
        if bytes ! i \<noteq> resync_start ! 0 then find_resync_start bytes (i + 1) (r + 1)
        else case match_loop bytes i 1 (r + 1) of (matched, r) \<Rightarrow>
          if matched = length resync_start then (Some i, 0, r)
          else if i + matched = length bytes then (None, length bytes - i, r)
          else find_resync_start bytes (i + 1) r
      else (None, 0, r))"
  by pat_completeness auto
termination
  by (relation "measure (\<lambda>(bytes, i, r). length bytes - i)") auto

declare find_resync_start.simps [simp del]

subsection \<open>Feeding with resynchronisation\<close>

lemma find_resync_start_ge: "find_resync_start bytes i r = (Some k, held, r') \<Longrightarrow> i \<le> k \<and> k < length bytes"
proof (induction bytes i r arbitrary: k held r' rule: find_resync_start.induct)
  case (1 bytes i r)
  show ?case
  proof (cases "i < length bytes \<and> bytes ! i \<noteq> resync_start ! 0")
    case True
    then show ?thesis using 1(1) [of k held r'] 1(3) by (simp add: find_resync_start.simps [of bytes i r])
  next
    case False
    then show ?thesis using 1(2,3) find_resync_start.simps [of bytes i r]
      by (fastforce split: if_splits prod.splits)
  qed
qed

lemma resync_length_loop_candidates:
  "resync_length_loop bytes m f i n r = (Inl c, r') \<Longrightarrow> c = rpartial \<or> c = rtoo_large \<or> (\<exists>e. c = rgarble e None)"
proof (induction bytes m f i n r rule: resync_length_loop.induct)
  case (1 bytes m f i n r)
  then show ?case
    by (subst (asm) (2) resync_length_loop.simps) (auto simp: Let_def split: if_splits)
qed

lemma parse_resync_candidate_bounds:
  assumes "parse_resync_candidate bytes m b w = (c, w')"
  shows "c = rframe fl boff blen \<Longrightarrow> fl = boff + blen + 7 \<and> fl \<le> length bytes \<and> fl \<le> m"
    and "c = rgarble e (Some fl) \<Longrightarrow> 7 \<le> fl \<and> fl \<le> length bytes \<and> fl \<le> m"
  using assms
  by (auto simp: parse_resync_candidate_def resync_trailer_def Let_def
      split: if_splits sum.splits prod.splits option.splits dest: resync_length_loop_candidates)

record resync_state =
  rs_offset :: nat
  rs_produced :: "frame_view list"
  rs_searching :: bool
  rs_garbles :: garble_summary
  rs_work :: resync_work

text \<open>The search for the next frame start: \<^const>\<open>False\<close> where the loop breaks.\<close>

definition resync_search :: "byte list \<Rightarrow> resync_state \<Rightarrow> bool \<times> resync_state" where
  "resync_search source st =
     (if rs_searching st then
        let offset = rs_offset st; g = rs_garbles st in
        case find_resync_start source offset (reads (rs_work st)) of
          (None, held, r) \<Rightarrow>
            (False, st\<lparr>rs_garbles := g\<lparr>discarded := discarded g + (length source - held - offset)\<rparr>,
                       rs_offset := length source - held,
                       rs_work := (rs_work st)\<lparr>reads := r\<rparr>\<rparr>)
        | (Some start, held, r) \<Rightarrow>
            (True, st\<lparr>rs_garbles := g\<lparr>discarded := discarded g + (start - offset)\<rparr>,
                      rs_offset := start, rs_searching := False,
                      rs_work := (rs_work st)\<lparr>reads := r\<rparr>\<rparr>)
      else (True, st))"

definition open_region :: "resync_state \<Rightarrow> error \<Rightarrow> nat option \<Rightarrow> resync_state" where
  "open_region st kind through_end =
     (let g = rs_garbles st;
          g = (if regions g = 0 then g\<lparr>first_kind := Some kind\<rparr> else g);
          skip = (case through_end of Some frame_len \<Rightarrow> frame_len | None \<Rightarrow> 1)
      in st\<lparr>rs_garbles := g\<lparr>regions := regions g + 1, discarded := discarded g + skip\<rparr>,
            rs_offset := rs_offset st + skip, rs_searching := True\<rparr>)"

lemma resync_search_offset:
  "resync_search source st = (True, st') \<Longrightarrow> rs_offset st \<le> rs_offset st'"
  by (auto simp: resync_search_def Let_def dest: find_resync_start_ge split: if_splits prod.splits option.splits)

text \<open>The boolean result says that the call is refused as too large.\<close>

function resync_loop ::
    "nat \<Rightarrow> nat \<Rightarrow> nat \<Rightarrow> byte list \<Rightarrow> resync_state \<Rightarrow> bool \<times> resync_state" where
  "resync_loop max_bytes max_begin out_size source st =
     (if rs_offset st < length source \<and> length (rs_produced st) < out_size then
        case resync_search source st of
          (False, st) \<Rightarrow> (False, st)
        | (True, st') \<Rightarrow>
            (case parse_resync_candidate (drop (rs_offset st') source) max_bytes max_begin (rs_work st') of
               (c, w) \<Rightarrow>
                 let st1 = st'\<lparr>rs_work := w\<rparr> in
                 (case c of
                    rpartial \<Rightarrow> (False, st1)
                  | rframe frame_len boff blen \<Rightarrow>
                      resync_loop max_bytes max_begin out_size source
                        (st1\<lparr>rs_produced := rs_produced st1 @
                           [\<lparr>frame_bytes = sub_span source (rs_offset st1) frame_len,
                             frame_body_off = boff, frame_body_len = blen\<rparr>],
                         rs_offset := rs_offset st1 + frame_len\<rparr>)
                  | rtoo_large \<Rightarrow> (if rs_produced st1 \<noteq> [] then (False, st1) else (True, st1))
                  | rgarble kind through_end \<Rightarrow>
                      (if rs_produced st1 \<noteq> [] then (False, st1)
                       else resync_loop max_bytes max_begin out_size source (open_region st1 kind through_end))))
      else (False, st))"
  by pat_completeness auto
termination
  by (relation "measure (\<lambda>(m, b, n, source, st). length source - rs_offset st)")
     (auto simp: open_region_def Let_def split: option.splits dest!: resync_search_offset [OF sym]
       parse_resync_candidate_bounds(1) [OF sym refl] parse_resync_candidate_bounds(2) [OF sym refl])

declare resync_loop.simps [simp del]

definition feed_resync ::
    "framer \<Rightarrow> byte list \<Rightarrow> pmr_carry_buffer \<Rightarrow> nat \<Rightarrow>
     frame_view list expected_t \<times> framer \<times> pmr_carry_buffer" where
  "feed_resync fr incoming carry out_size =
     (let fr = fr\<lparr>garbles := garble_none\<rparr>;
          compact = (pending fr \<noteq> 0 \<and> pending fr < length (carry_buf carry) \<and>
                     length (carry_buf carry) + length incoming > carry_cap carry);
          (carry, fr) =
            (if pending fr = 0 then (carry_clear carry, fr)
             else if compact
             then (consume_front carry (length (carry_buf carry) - pending fr),
                   fr\<lparr>work_moved := work_moved fr + pending fr\<rparr>)
             else (carry, fr));
          using_carry = (carry_buf carry \<noteq> []);
          (fits, carry) = (if using_carry then carry_append carry incoming else (True, carry)) in
      if \<not> fits
      then (unexpected wire_frame_too_large, fr\<lparr>pending := 0, searching := False\<rparr>, carry_clear carry)
      else
        let fr = (if using_carry then fr\<lparr>work_moved := work_moved fr + length incoming\<rparr> else fr);
            source = (if using_carry
                      then drop (length (carry_buf carry) - pending fr - length incoming) (carry_buf carry)
                      else incoming);
            (refused, st) =
              resync_loop (max_frame_bytes (framer_cfg fr)) (max_begin_string_bytes (framer_cfg fr)) out_size source
                \<lparr>rs_offset = 0, rs_produced = [], rs_searching = searching fr, rs_garbles = garbles fr,
                 rs_work = \<lparr>reads = 0, sums = 0\<rparr>\<rparr>;
            fr = fr\<lparr>searching := rs_searching st, garbles := rs_garbles st,
                    work_read := work_read fr + reads (rs_work st),
                    work_summed := work_summed fr + sums (rs_work st)\<rparr> in
        if refused
        then (unexpected wire_frame_too_large, fr\<lparr>pending := 0, searching := False\<rparr>, carry_clear carry)
        else
          let trailing = length source - rs_offset st in
          if using_carry then (ok (rs_produced st), fr\<lparr>pending := trailing\<rparr>, carry)
          else if trailing \<noteq> 0 then
            case carry_append carry (drop (rs_offset st) source) of (fits, carry) \<Rightarrow>
              if \<not> fits
              then (unexpected wire_frame_too_large, fr\<lparr>pending := 0, searching := False\<rparr>, carry_clear carry)
              else (ok (rs_produced st), fr\<lparr>pending := trailing, work_moved := work_moved fr + trailing\<rparr>, carry)
          else (ok (rs_produced st), fr\<lparr>pending := 0\<rparr>, carry))"

definition feed ::
    "framer \<Rightarrow> byte list \<Rightarrow> pmr_carry_buffer \<Rightarrow> nat \<Rightarrow>
     frame_view list expected_t \<times> framer \<times> pmr_carry_buffer" where
  "feed fr incoming carry out_size =
     (if resync_on_garble (framer_cfg fr) then feed_resync fr incoming carry out_size
      else feed_strict fr incoming carry out_size)"

subsection \<open>Scanning\<close>

lemma find_soh_takeWhile:
  "i \<le> length bs \<Longrightarrow> find_soh bs i = i + length (takeWhile (\<lambda>c. c \<noteq> SOH) (drop i bs))"
proof (induction bs i rule: find_soh.induct)
  case (1 bs i)
  show ?case
  proof (cases "i < length bs")
    case True
    then have "drop i bs = bs ! i # drop (Suc i) bs" by (simp add: Cons_nth_drop_Suc)
    then show ?thesis using 1 True by (subst find_soh.simps) simp
  next
    case False
    then show ?thesis using 1 by (subst find_soh.simps) simp
  qed
qed

lemma find_soh_value:
  "SOH \<notin> set v \<Longrightarrow> find_soh (pre @ v @ SOH # rest) (length pre) = length pre + length v"
  by (simp add: find_soh_takeWhile takeWhile_until)

lemma find_soh_split:
  assumes "i \<le> length bs" "find_soh bs i \<noteq> length bs"
  obtains v rest where "bs = take i bs @ v @ SOH # rest" "SOH \<notin> set v" "find_soh bs i = i + length v"
proof -
  let ?d = "drop i bs"
  let ?v = "takeWhile (\<lambda>c. c \<noteq> SOH) ?d"
  have f: "find_soh bs i = i + length ?v" by (rule find_soh_takeWhile [OF assms(1)])
  have "dropWhile (\<lambda>c. c \<noteq> SOH) ?d \<noteq> []"
  proof
    assume "dropWhile (\<lambda>c. c \<noteq> SOH) ?d = []"
    then have "?v = ?d" by (metis takeWhile_dropWhile_id append_Nil2)
    then have "length ?v = length bs - i" by (metis length_drop)
    then show False using f assms by linarith
  qed
  then obtain c rest where c: "dropWhile (\<lambda>c. c \<noteq> SOH) ?d = c # rest" by (cases "dropWhile (\<lambda>c. c \<noteq> SOH) ?d") auto
  then have "c = SOH" using hd_dropWhile [of "\<lambda>c. c \<noteq> SOH" ?d] by auto
  then have "?d = ?v @ SOH # rest" using c takeWhile_dropWhile_id [of "\<lambda>c. c \<noteq> SOH" ?d] by simp
  then have "bs = take i bs @ ?v @ SOH # rest" by (metis append_take_drop_id)
  moreover have "SOH \<notin> set ?v" by (auto dest: set_takeWhileD)
  ultimately show ?thesis using that f by blast
qed

lemma find_soh_append:
  "i \<le> length xs \<Longrightarrow> find_soh xs i \<noteq> length xs \<Longrightarrow> find_soh (xs @ ys) i = find_soh xs i \<and> find_soh xs i < length xs"
proof -
  assume i: "i \<le> length xs" "find_soh xs i \<noteq> length xs"
  then obtain v rest where s: "xs = take i xs @ v @ SOH # rest" "SOH \<notin> set v" "find_soh xs i = i + length v"
    by (rule find_soh_split)
  then have "find_soh (take i xs @ v @ SOH # rest @ ys) (length (take i xs)) = length (take i xs) + length v"
    by (intro find_soh_value)
  moreover have "xs @ ys = take i xs @ v @ SOH # rest @ ys" using s(1) by (metis append.assoc append_Cons)
  moreover have "i + length v < length xs" using arg_cong [OF s(1), of length] i by simp
  ultimately have "find_soh (xs @ ys) i = i + length v" "i + length v < length xs"
    using i(1) by (metis length_take min.absorb2)+
  then show ?thesis using s(3) by simp
qed

subsection \<open>Numbers and sums\<close>

lemma body_length_loop_value:
  assumes "9 \<le> m" "m < 2 ^ 63" "n \<le> m"
  shows "body_length_loop m n cs = ok v \<longleftrightarrow> digits cs \<and> dec_acc n cs \<le> m \<and> v = dec_acc n cs"
  using assms(3)
proof (induction cs arbitrary: n)
  case (Cons c cs)
  show ?case
  proof (cases "is_digit c")
    case True
    then have d: "digit_val c < 10" by (rule digit_val_less)
    then have "u64_sub m (digit_val c) = m - digit_val c" using assms by (intro u64_sub_id) simp_all
    moreover have "n > (m - digit_val c) div 10 \<longleftrightarrow> n * 10 + digit_val c > m"
      using cap_guard [OF d, of m n] assms(1) d by simp
    moreover have "m < 2 ^ 64" using assms(2) by simp
    ultimately show ?thesis
      using True d Cons.IH [of "n * 10 + digit_val c"] dec_acc_mono [of "n * 10 + digit_val c" cs] assms
      by (auto simp: Let_def not_less)
  qed simp
qed auto

definition byte_sum :: "byte list \<Rightarrow> nat" where
  "byte_sum bs = sum_list (map byte_val bs) mod 256"

lemma checksum_fold: "foldl (\<lambda>s b. u32 (s + byte_val b)) s bs mod 256 = (s + sum_list (map byte_val bs)) mod 256"
proof (induction bs arbitrary: s)
  case (Cons b bs)
  have "(u32 (s + byte_val b) + k) mod 256 = (s + byte_val b + k) mod 256" for k
  proof -
    have "u32 (s + byte_val b) mod 256 = (s + byte_val b) mod 256"
      unfolding u32_def by (rule mod_mod_cancel) simp
    then show ?thesis by (metis mod_add_left_eq)
  qed
  then show ?case using Cons [of "u32 (s + byte_val b)"] by (simp add: add.assoc)
qed simp

lemma checksum_of_byte_sum: "checksum_of bs = byte_sum bs"
  using checksum_fold [of 0 bs] by (simp add: checksum_of_def byte_sum_def)

lemma encoded_checksum_value: "length ds = 3 \<Longrightarrow> encoded_checksum ds = dec_value ds"
  by (auto simp: encoded_checksum_def dec_value_def length_Suc_conv eval_nat_numeral)

lemma byte_sum_less: "byte_sum bs < 256"
  by (simp add: byte_sum_def)

subsection \<open>A frame\<close>

text \<open>A FIX frame: BeginString, BodyLength, a body of that length that ends in SOH, and the
  CheckSum of everything before its own field.\<close>

definition frame_header :: "byte list \<Rightarrow> byte list \<Rightarrow> byte list" where
  "frame_header bs bl = ''8='' @ bs @ [SOH] @ ''9='' @ bl @ [SOH]"

definition frame_of :: "byte list \<Rightarrow> byte list \<Rightarrow> byte list \<Rightarrow> byte list \<Rightarrow> byte list" where
  "frame_of bs bl body cs = frame_header bs bl @ body @ ''10='' @ cs @ [SOH]"

definition fix_frame :: "byte list \<Rightarrow> nat \<Rightarrow> nat \<Rightarrow> bool" where
  "fix_frame f boff blen \<longleftrightarrow>
     (\<exists>bs bl body cs. f = frame_of bs bl body cs \<and> SOH \<notin> set bs \<and>
        bl \<noteq> [] \<and> digits bl \<and> dec_value bl = length body \<and> body \<noteq> [] \<and> last body = SOH \<and>
        length cs = 3 \<and> digits cs \<and> dec_value cs = byte_sum (frame_header bs bl @ body) \<and>
        boff = length (frame_header bs bl) \<and> blen = length body)"

lemma length_frame_header: "length (frame_header bs bl) = length bs + length bl + 6"
  by (simp add: frame_header_def)

lemma fix_frame_length: "fix_frame f boff blen \<Longrightarrow> length f = boff + blen + 7 \<and> 0 < blen \<and> 7 \<le> boff"
  by (auto simp: fix_frame_def frame_of_def length_frame_header Suc_le_eq)

lemma span_append [buf_simps]:
  "sub_span (h @ r) (length h + n) k = sub_span r n k" "(h @ r) ! (length h + n) = r ! n"
  "take (length h + n) (h @ r) = h @ take n r"
  by (simp_all add: sub_span_def)

lemma sub_span_3: "k + 3 \<le> length bs \<Longrightarrow> sub_span bs k 3 = [bs ! k, bs ! (k + 1), bs ! (k + 2)]"
  by (rule nth_equalityI) (auto simp: sub_span_def less_Suc_eq_0_disj eval_nat_numeral)

lemma check_trailer_Complete:
  "check_trailer bytes m b l = Complete fl boff blen \<longleftrightarrow>
     boff = b \<and> blen = l \<and> fl = b + l + 7 \<and> fl \<le> length bytes \<and> fl \<le> m \<and>
     sub_span bytes (b + l) 3 = ''10='' \<and> bytes ! (b + l - 1) = SOH \<and> digits (sub_span bytes (b + l + 3) 3) \<and>
     bytes ! (b + l + 6) = SOH \<and> dec_value (sub_span bytes (b + l + 3) 3) = byte_sum (take (b + l) bytes)"
proof (cases "b + l + 7 \<le> length bytes")
  case True
  moreover have "length (sub_span bytes (b + l + 3) 3) = 3" using True by (simp add: sub_span_def)
  ultimately show ?thesis
    by (auto simp: check_trailer_def Let_def sub_span_3 [of "b + l" bytes] encoded_checksum_value checksum_of_byte_sum)
next
  case False
  then show ?thesis by (auto simp: check_trailer_def Let_def)
qed

text \<open>The header, once both of its SOH are in the buffer.\<close>

lemma parse_frame_header:
  assumes b: "bytes = frame_header bs bl @ rest" and "SOH \<notin> set bs" "SOH \<notin> set bl"
  shows "parse_frame bytes m =
    (if bl = [] then Malformed wire_invalid_body_length
     else case body_length_loop m 0 bl of
       Inl e \<Rightarrow> Malformed e
     | Inr n \<Rightarrow>
         if n = 0 then Malformed wire_invalid_body_length
         else if n > m then Malformed wire_frame_too_large
         else if length (frame_header bs bl) + n > length bytes then Partial
         else check_trailer bytes m (length (frame_header bs bl)) n)"
proof -
  have e1: "find_soh bytes 2 = 2 + length bs"
    using find_soh_value [OF assms(2), of "''8=''" "''9='' @ bl @ SOH # rest"]
    by (simp add: b frame_header_def numeral_2_eq_2)
  have e2: "find_soh bytes (Suc (Suc (Suc (Suc (Suc (length bs)))))) = Suc (Suc (Suc (Suc (Suc (length bs + length bl)))))"
    using find_soh_value [OF assms(3), of "''8='' @ bs @ SOH # ''9=''" rest]
    by (simp add: b frame_header_def)
  have e3: "sub_span bytes (Suc (Suc (Suc (Suc (Suc (length bs)))))) (length bl) = bl"
    by (simp add: b frame_header_def sub_span_def)
  have n: "bytes ! 0 = CHR ''8''" "bytes ! Suc 0 = EQ" "bytes ! Suc (Suc (Suc (length bs))) = CHR ''9''"
    "bytes ! Suc (Suc (Suc (Suc (length bs)))) = EQ"
    by (simp_all add: b frame_header_def nth_append)
  have len: "length bytes = Suc (Suc (Suc (Suc (Suc (Suc (length bs + length bl + length rest))))))"
    by (simp add: b frame_header_def)
  have h: "length (frame_header bs bl) = Suc (Suc (Suc (Suc (Suc (Suc (length bs + length bl))))))"
    by (simp add: frame_header_def)
  show ?thesis
    unfolding parse_frame_def Let_def e1 h using len by (simp add: n e2 e3 split: sum.splits) auto
qed

lemma take_2: "2 \<le> length bs \<Longrightarrow> take 2 bs = [bs ! 0, bs ! 1]"
  by (rule nth_equalityI) (auto simp: less_Suc_eq_0_disj eval_nat_numeral)

lemma header_split:
  assumes "2 \<le> length bytes" "bytes ! 0 = CHR ''8''" "bytes ! Suc 0 = EQ" "find_soh bytes 2 \<noteq> length bytes"
    and k: "k = Suc (find_soh bytes 2)" "Suc k < length bytes" "bytes ! k = CHR ''9''" "bytes ! Suc k = EQ"
      "find_soh bytes (Suc (Suc k)) \<noteq> length bytes"
  obtains bs bl rest where "bytes = frame_header bs bl @ rest" "SOH \<notin> set bs" "SOH \<notin> set bl"
proof -
  obtain bs r1 where s1: "bytes = take 2 bytes @ bs @ SOH # r1" "SOH \<notin> set bs" "find_soh bytes 2 = 2 + length bs"
    using find_soh_split [of 2 bytes] assms(1,4) by blast
  then have b1: "bytes = ''8='' @ bs @ SOH # r1" using take_2 [OF assms(1)] assms(2,3) by simp
  have k': "k = Suc (Suc (Suc (length bs)))" using s1(3) by (simp add: k)
  obtain bl rest where s2: "bytes = take (Suc (Suc k)) bytes @ bl @ SOH # rest" "SOH \<notin> set bl"
    by (rule find_soh_split [of "Suc (Suc k)" bytes]) (use k in auto)
  have "take k bytes = ''8='' @ bs @ [SOH]" by (simp add: b1 k')
  then have "take (Suc (Suc k)) bytes = ''8='' @ bs @ [SOH] @ ''9=''"
    using k by (simp add: take_Suc_conv_app_nth)
  then have "bytes = frame_header bs bl @ rest" using s2(1) by (simp add: frame_header_def)
  then show ?thesis using that s1(2) s2(2) by blast
qed

lemma parse_frame_decompose:
  assumes "parse_frame bytes m = Complete fl boff blen"
  obtains bs bl rest where "bytes = frame_header bs bl @ rest" "SOH \<notin> set bs" "SOH \<notin> set bl"
  by (rule header_split [of bytes "Suc (find_soh bytes 2)"])
     (use assms in \<open>auto simp: parse_frame_def Let_def split: if_splits\<close>)

lemma split_trailer:
  assumes "n + 7 \<le> length r"
  shows "take (n + 7) r = take n r @ sub_span r n 3 @ sub_span r (n + 3) 3 @ [r ! (n + 6)]"
proof -
  have "take (n + 7) r = take n r @ take 7 (drop n r)" by (rule take_add)
  also have "take 7 (drop n r) = take 3 (drop n r) @ take 3 (drop (n + 3) r) @ take 1 (drop (n + 6) r)"
    using take_add [of 3 4 "drop n r"] take_add [of 3 1 "drop (n + 3) r"] by (simp add: add.commute)
  also have "take 1 (drop (n + 6) r) = [r ! (n + 6)]"
    using assms by (simp add: take_Suc_conv_app_nth hd_drop_conv_nth take_Suc)
  finally show ?thesis by (simp add: sub_span_def)
qed

lemma parse_frame_sound:
  assumes "parse_frame bytes m = Complete fl boff blen" "m < 2 ^ 63"
  shows "fix_frame (take fl bytes) boff blen"
proof -
  obtain bs bl rest where b: "bytes = frame_header bs bl @ rest" "SOH \<notin> set bs" "SOH \<notin> set bl"
    using parse_frame_decompose [OF assms(1)] .
  let ?h = "frame_header bs bl"
  obtain n where n: "bl \<noteq> []" "body_length_loop m 0 bl = ok n" "n \<noteq> 0" "n \<le> m"
      "check_trailer bytes m (length ?h) n = Complete fl boff blen"
    using assms(1) unfolding parse_frame_header [OF b] by (auto split: if_splits sum.splits)
  note t = n(5) [unfolded check_trailer_Complete]
  have "9 \<le> m" using t length_frame_header [of bs bl] by linarith
  then have bl: "digits bl" "dec_value bl = n"
    using n(2) body_length_loop_value [OF _ assms(2), of 0 bl n] by (auto simp: dec_value_def)
  have rest: "n + 7 \<le> length rest" using t by (simp add: b)
  define body cs where "body = take n rest" and "cs = sub_span rest (n + 3) 3"
  have "length ?h + n - 1 = length ?h + (n - 1)" using n(3) by simp
  then have f: "sub_span rest n 3 = ''10=''" "digits cs" "rest ! (n + 6) = SOH" "rest ! (n - 1) = SOH"
    "dec_value cs = byte_sum (?h @ body)"
    using t by (simp_all add: b add.assoc span_append cs_def body_def del: append_assoc)
  have "take (n + 7) rest = body @ ''10='' @ cs @ [SOH]"
    using split_trailer [OF rest] f by (simp add: body_def cs_def)
  moreover have "fl = length ?h + (n + 7)" using t by simp
  ultimately have "take fl bytes = frame_of bs bl body cs"
    unfolding b(1) by (simp only: span_append frame_of_def)
  moreover have body: "body \<noteq> []" "length body = n" using rest n(3) by (auto simp: body_def)
  moreover have "last body = SOH" using f(4) n(3) body by (simp add: last_conv_nth) (simp add: body_def)
  moreover have "length cs = 3" using rest by (simp add: cs_def sub_span_def)
  ultimately show ?thesis unfolding fix_frame_def using t f b(2) n(1) bl by blast
qed

lemma parse_frame_complete:
  assumes "fix_frame f boff blen" "length f \<le> m" "m < 2 ^ 63"
  shows "parse_frame (f @ rest) m = Complete (length f) boff blen"
proof -
  obtain bs bl body cs where f: "f = frame_of bs bl body cs" "SOH \<notin> set bs" "bl \<noteq> []" "digits bl"
    "dec_value bl = length body" "body \<noteq> []" "last body = SOH" "length cs = 3" "digits cs"
    "dec_value cs = byte_sum (frame_header bs bl @ body)" "boff = length (frame_header bs bl)" "blen = length body"
    using assms(1) unfolding fix_frame_def by blast
  let ?h = "frame_header bs bl" and ?r = "body @ ''10='' @ cs @ [SOH] @ rest"
  have b: "f @ rest = ?h @ ?r" by (simp add: f(1) frame_of_def)
  have len: "length f = boff + blen + 7" "0 < blen" using fix_frame_length [OF assms(1)] by auto
  have "9 \<le> m" using assms(2) fix_frame_length [OF assms(1)] by linarith
  then have n: "body_length_loop m 0 bl = ok blen"
    using body_length_loop_value [of m 0 bl blen] assms(2,3) f(4,5,12) len by (simp add: dec_value_def)
  have "length body + 0 = length body" by simp
  have "check_trailer (f @ rest) m boff blen = Complete (length f) boff blen"
  proof -
    have i: "boff + blen - 1 = boff + (blen - 1)" using len(2) by simp
    have s: "sub_span ?r blen 3 = ''10=''" "sub_span ?r (blen + 3) 3 = cs" "?r ! (blen + 6) = SOH"
      using f(8,12) by (simp_all add: sub_span_def nth_append)
    have l: "?r ! (blen - 1) = SOH" using f(6,7,12) by (simp add: nth_append last_conv_nth)
    show ?thesis
      unfolding check_trailer_Complete i unfolding b f(11) add.assoc span_append s l
      using assms(2) len f(8,9,10,12) by (simp add: f(11) b [symmetric])
  qed
  then show ?thesis
    unfolding b using parse_frame_header [OF b f(2), of m] digits_no_SOH(1) [OF f(4)] n len assms(2) f(3,11,12)
    by (simp add: b)
qed

lemma check_trailer_append:
  assumes "check_trailer xs m b l \<noteq> Partial" "0 < l"
  shows "check_trailer (xs @ ys) m b l = check_trailer xs m b l"
proof -
  have len: "b + l + 7 \<le> length xs" using assms by (auto simp: check_trailer_def Let_def split: if_splits)
  then have "(xs @ ys) ! k = xs ! k" if "k < b + l + 7" for k using that by (simp add: nth_append)
  moreover have "sub_span (xs @ ys) (b + l + 3) 3 = sub_span xs (b + l + 3) 3" "take (b + l) (xs @ ys) = take (b + l) xs"
    using len by (simp_all add: sub_span_def)
  ultimately show ?thesis using len unfolding check_trailer_def Let_def by simp
qed

lemma parse_frame_stable:
  assumes "parse_frame xs m \<noteq> Partial"
  shows "parse_frame (xs @ ys) m = parse_frame xs m"
proof -
  have x: "xs \<noteq> []" using assms by (auto simp: parse_frame_def)
  then have n0: "(xs @ ys) ! 0 = xs ! 0" by (simp add: nth_append)
  show ?thesis
  proof (cases "xs ! 0 = CHR ''8''")
    case False
    then show ?thesis using x n0 by (simp add: parse_frame_def)
  next
    case c0: True
    then have l2: "2 \<le> length xs" using assms x by (auto simp: parse_frame_def split: if_splits)
    then have n1: "(xs @ ys) ! Suc 0 = xs ! Suc 0" by (simp add: nth_append)
    show ?thesis
    proof (cases "xs ! Suc 0 = EQ")
      case False
      then show ?thesis using x n0 n1 l2 c0 by (simp add: parse_frame_def)
    next
      case c1: True
      have "find_soh xs 2 \<noteq> length xs" using assms x c0 c1 l2 by (auto simp: parse_frame_def Let_def)
      note e1 = find_soh_append [OF l2 this, of ys]
      define k where "k = Suc (find_soh xs 2)"
      have k: "Suc k < length xs" using assms x c0 c1 l2 e1 by (auto simp: parse_frame_def Let_def k_def split: if_splits)
      then have nk: "(xs @ ys) ! k = xs ! k" "(xs @ ys) ! Suc k = xs ! Suc k" by (simp_all add: nth_append)
      show ?thesis
      proof (cases "xs ! k = CHR ''9'' \<and> xs ! Suc k = EQ")
        case False
        then show ?thesis using x n0 n1 l2 c0 c1 e1 k nk by (auto simp: parse_frame_def Let_def k_def)
      next
        case ck: True
        have "find_soh xs (Suc (Suc k)) \<noteq> length xs"
          using assms x c0 c1 l2 e1 k ck by (auto simp: parse_frame_def Let_def k_def)
        then obtain bs bl rest where b: "xs = frame_header bs bl @ rest" "SOH \<notin> set bs" "SOH \<notin> set bl"
          using header_split [OF l2 c0 c1 \<open>find_soh xs 2 \<noteq> length xs\<close> k_def k] ck by blast
        have b': "xs @ ys = frame_header bs bl @ rest @ ys" by (simp add: b)
        show ?thesis
          using assms check_trailer_append [of xs m "length (frame_header bs bl)" _ ys]
          unfolding parse_frame_header [OF b] parse_frame_header [OF b' b(2,3)]
          by (auto split: sum.splits if_splits)
      qed
    qed
  qed
qed

subsection \<open>Framing a stream\<close>

text \<open>What a frame parser promises to the loop that calls it.\<close>

inductive consumes :: "(byte list \<Rightarrow> parsed_frame) \<Rightarrow> byte list \<Rightarrow> frame_view list \<Rightarrow> byte list \<Rightarrow> bool"
  for parse :: "byte list \<Rightarrow> parsed_frame" where
  none: "consumes parse bs [] bs"
| frame: "parse bs = Complete fl boff blen \<Longrightarrow> consumes parse (drop fl bs) fs rest \<Longrightarrow>
    consumes parse bs (\<lparr>frame_bytes = take fl bs, frame_body_off = boff, frame_body_len = blen\<rparr> # fs) rest"

inductive_cases consumes_NilE: "consumes parse bs [] rest"
inductive_cases consumes_ConsE: "consumes parse bs (f # fs) rest"

locale framing =
  fixes parse :: "byte list \<Rightarrow> parsed_frame"
  assumes parse_Nil: "parse [] = Partial"
    and parse_Complete: "parse bs = Complete fl boff blen \<Longrightarrow> 0 < fl \<and> fl \<le> length bs"
    and parse_stable: "parse xs \<noteq> Partial \<Longrightarrow> parse (xs @ ys) = parse xs"
begin

lemma consumes_trans: "consumes parse bs fs r \<Longrightarrow> consumes parse r gs r' \<Longrightarrow> consumes parse bs (fs @ gs) r'"
  by (induction rule: consumes.induct) (auto intro: consumes.frame)

lemma consumes_snoc:
  "consumes parse bs fs r \<Longrightarrow> parse r = Complete fl boff blen \<Longrightarrow>
   consumes parse bs (fs @ [\<lparr>frame_bytes = take fl r, frame_body_off = boff, frame_body_len = blen\<rparr>]) (drop fl r)"
  by (rule consumes_trans) (auto intro: consumes.intros)

lemma consumes_append: "consumes parse xs fs r \<Longrightarrow> consumes parse (xs @ ys) fs (r @ ys)"
proof (induction rule: consumes.induct)
  case (frame bs fl boff blen fs rest)
  have "parse (bs @ ys) = Complete fl boff blen" using parse_stable [of bs ys] frame.hyps(1) by simp
  moreover have "fl \<le> length bs" using parse_Complete frame.hyps(1) by blast
  ultimately show ?case
    using consumes.frame [of parse "bs @ ys" fl boff blen fs "rest @ ys"] frame.IH by simp
qed (rule consumes.none)

text \<open>What is consumed depends on the stream alone.\<close>

lemma consumes_prefix:
  "consumes parse bs fs r \<Longrightarrow> consumes parse bs gs r' \<Longrightarrow> length fs \<le> length gs \<Longrightarrow>
   \<exists>hs. gs = fs @ hs \<and> consumes parse r hs r'"
proof (induction arbitrary: gs rule: consumes.induct)
  case (none bs)
  then show ?case by simp
next
  case (frame bs fl boff blen fs rest)
  obtain g gt where "gs = g # gt" using frame.prems(2) by (cases gs) auto
  then show ?case using frame by (fastforce elim: consumes_ConsE)
qed

lemma consumes_stuck: "consumes parse bs fs r \<Longrightarrow> \<forall>fl boff blen. parse bs \<noteq> Complete fl boff blen \<Longrightarrow> fs = [] \<and> r = bs"
  by (induction rule: consumes.induct) auto

lemma consumes_unique:
  assumes "consumes parse bs fs r" "consumes parse bs gs r'"
    and "\<forall>fl boff blen. parse r \<noteq> Complete fl boff blen" "\<forall>fl boff blen. parse r' \<noteq> Complete fl boff blen"
  shows "fs = gs \<and> r = r'"
proof (cases "length fs \<le> length gs")
  case True
  then show ?thesis using consumes_prefix [OF assms(1,2)] consumes_stuck [OF _ assms(3)] by auto
next
  case False
  then show ?thesis using consumes_prefix [OF assms(2,1)] consumes_stuck [OF _ assms(4)] by auto
qed

text \<open>A stream that ends in a partial frame never shows an error part of the way.\<close>

lemma no_error_inside:
  assumes "consumes parse (xs @ ys) fs r" "parse r = Partial" "consumes parse xs gs q"
  shows "parse q \<noteq> Malformed e"
proof
  assume bad: "parse q = Malformed e"
  then have "parse (q @ ys) = Malformed e" using parse_stable [of q ys] by simp
  then show False
    using consumes_unique [OF assms(1) consumes_append [OF assms(3), of ys]] assms(2) by simp
qed

lemma frames_of_prefix:
  assumes "consumes parse (xs @ ys) fs r" "parse r = Partial" "consumes parse xs gs q"
  shows "\<exists>hs. fs = gs @ hs \<and> consumes parse (q @ ys) hs r"
proof (cases "length gs \<le> length fs")
  case True
  then show ?thesis using consumes_prefix [OF consumes_append [OF assms(3)] assms(1)] by blast
next
  case False
  then obtain hs where hs: "gs = fs @ hs" "consumes parse r hs (q @ ys)"
    using consumes_prefix [OF assms(1) consumes_append [OF assms(3)]] by auto
  then have "hs = []" using consumes_stuck [OF hs(2)] assms(2) by simp
  then show ?thesis using False hs by simp
qed

end

lemma parse_frame_framing: "framing (\<lambda>bs. parse_frame bs m)"
  by unfold_locales
     (auto simp: parse_frame_def [of "[]"] parse_frame_stable dest: parse_frame_Complete_bounds)

interpretation strict_framing: framing "\<lambda>bs. parse_frame bs m" for m
  by (rule parse_frame_framing)

subsection \<open>The strict loop\<close>

lemma feed_loop_consumes:
  "feed_loop m n src off acc = ok (off', acc') \<Longrightarrow> off \<le> length src \<Longrightarrow> length acc \<le> n \<Longrightarrow>
   off \<le> off' \<and> off' \<le> length src \<and> length acc' \<le> n \<and>
   (\<exists>fs. acc' = acc @ fs \<and> consumes (\<lambda>bs. parse_frame bs m) (drop off src) fs (drop off' src)) \<and>
   (length acc' = n \<or> parse_frame (drop off' src) m = Partial)"
proof (induction m n src off acc rule: feed_loop.induct)
  case (1 m n src off acc)
  show ?case
  proof (cases "off < length src \<and> length acc \<noteq> n \<and> parse_frame (drop off src) m \<noteq> Partial")
    case False
    then have "feed_loop m n src off acc = ok (off, acc)"
      by (subst feed_loop.simps) (auto split: parsed_frame.splits)
    moreover have "parse_frame [] m = Partial" by (simp add: parse_frame_def)
    ultimately show ?thesis using 1 False by (auto intro: consumes.none)
  next
    case True
    then obtain fl boff blen where p: "parse_frame (drop off src) m = Complete fl boff blen"
      using 1(2) by (subst (asm) feed_loop.simps) (auto split: parsed_frame.splits)
    let ?v = "\<lparr>frame_bytes = take fl (drop off src), frame_body_off = boff, frame_body_len = blen\<rparr>"
    have step: "feed_loop m n src off acc = feed_loop m n src (off + fl) (acc @ [?v])"
      using True p by (subst feed_loop.simps) (simp add: sub_span_def)
    have "fl \<le> length src - off" using parse_frame_Complete_bounds [OF p] by simp
    then have fl: "off + fl \<le> length src" using True by linarith
    have IH: "off + fl \<le> off' \<and> off' \<le> length src \<and> length acc' \<le> n \<and>
        (\<exists>fs. acc' = (acc @ [?v]) @ fs \<and> consumes (\<lambda>bs. parse_frame bs m) (drop (off + fl) src) fs (drop off' src)) \<and>
        (length acc' = n \<or> parse_frame (drop off' src) m = Partial)"
      using 1(1) [OF _ _ p] True 1(2,4) fl step by (simp add: sub_span_def)
    then obtain fs where fs: "acc' = (acc @ [?v]) @ fs"
        "consumes (\<lambda>bs. parse_frame bs m) (drop (off + fl) src) fs (drop off' src)" by blast
    have "consumes (\<lambda>bs. parse_frame bs m) (drop off src) (?v # fs) (drop off' src)"
      using consumes.frame [of "\<lambda>bs. parse_frame bs m", OF p, of fs] fs(2) by (simp add: add.commute)
    then show ?thesis using IH fs(1) by auto
  qed
qed

lemma feed_loop_error:
  "feed_loop m n src off acc = unexpected e \<Longrightarrow>
   \<exists>fs q. consumes (\<lambda>bs. parse_frame bs m) (drop off src) fs q \<and> parse_frame q m = Malformed e"
proof (induction m n src off acc rule: feed_loop.induct)
  case (1 m n src off acc)
  have c: "off < length src" "length acc \<noteq> n"
    using 1(2) by (auto simp: feed_loop.simps [of m n src off acc] split: if_splits)
  show ?case
  proof (cases "parse_frame (drop off src) m")
    case (Complete fl boff blen)
    then obtain fs q where "consumes (\<lambda>bs. parse_frame bs m) (drop (off + fl) src) fs q" "parse_frame q m = Malformed e"
      using 1(1) [OF c Complete] 1(2) c by (auto simp: feed_loop.simps [of m n src off acc])
    then show ?thesis
      using consumes.frame [of "\<lambda>bs. parse_frame bs m", OF Complete, of fs q] by (auto simp: add.commute)
  next
    case Partial
    then show ?thesis using 1(2) c by (simp add: feed_loop.simps [of m n src off acc])
  next
    case (Malformed e')
    then show ?thesis using 1(2) c
      by (auto simp: feed_loop.simps [of m n src off acc] intro: consumes.none)
  qed
qed

subsection \<open>One strict call\<close>

text \<open>The unconsumed bytes a framer and its carry stand for, and the invariant of the pair.\<close>

definition pending_of :: "framer \<Rightarrow> pmr_carry_buffer \<Rightarrow> byte list" where
  "pending_of fr carry = drop (length (carry_buf carry) - pending fr) (carry_buf carry)"

definition framer_inv :: "framer \<Rightarrow> pmr_carry_buffer \<Rightarrow> bool" where
  "framer_inv fr carry \<longleftrightarrow> pending fr \<le> length (carry_buf carry) \<and> length (carry_buf carry) \<le> carry_cap carry"

text \<open>What one strict call does, in terms of the unconsumed bytes.\<close>

lemma feed_strict_result:
  assumes inv: "framer_inv fr carry" and fits: "length (pending_of fr carry @ incoming) \<le> carry_cap carry"
    and r: "feed_strict fr incoming carry n = (res, fr', carry')"
  shows "framer_inv fr' carry' \<and> framer_cfg fr' = framer_cfg fr \<and> carry_cap carry' = carry_cap carry \<and>
    (case feed_loop (max_frame_bytes (framer_cfg fr)) n (pending_of fr carry @ incoming) 0 [] of
       Inl e \<Rightarrow> res = Inl e \<and> pending_of fr' carry' = []
     | Inr (off, acc) \<Rightarrow> res = Inr acc \<and> pending_of fr' carry' = drop off (pending_of fr carry @ incoming))"
proof -
  define p where "p = pending_of fr carry"
  let ?c = "if pending fr < length (carry_buf carry)
    then consume_front carry (length (carry_buf carry) - pending fr) else carry"
  let ?l = "feed_loop (max_frame_bytes (framer_cfg fr)) n (p @ incoming) 0 []"
  have c: "?c = carry\<lparr>carry_buf := p\<rparr>"
    using inv by (auto simp: consume_front_def p_def pending_of_def framer_inv_def)
  have fits': "length p + length incoming \<le> carry_cap carry" using fits by (simp add: p_def)
  have off: "off \<le> length p + length incoming" if "?l = Inr (off, acc)" for off acc
    using feed_loop_consumes [OF that] by auto
  show ?thesis
  proof (cases ?l)
    case (Inl e)
    then show ?thesis
      using r fits' unfolding feed_strict_def c p_def [symmetric]
      by (auto simp: carry_append_def carry_clear_def Let_def pending_of_def framer_inv_def split: if_splits)
  next
    case (Inr x)
    obtain off acc where x: "?l = Inr (off, acc)" using Inr by (cases x) simp
    show ?thesis
      using r fits' x unfolding feed_strict_def c p_def [symmetric]
      by (cases "p = []") (auto simp: carry_append_def carry_clear_def Let_def pending_of_def framer_inv_def
          diff_diff_cancel [OF off [OF x]] split: if_splits)
  qed
qed

subsection \<open>Chunks\<close>

text \<open>A connection: the chunks are fed one after the other and the frames collected.\<close>

fun feed_chunks ::
    "framer \<Rightarrow> pmr_carry_buffer \<Rightarrow> nat \<Rightarrow> byte list list \<Rightarrow> frame_view list expected_t \<times> framer \<times> pmr_carry_buffer" where
  "feed_chunks fr carry n [] = (ok [], fr, carry)"
| "feed_chunks fr carry n (x # xs) =
     (case feed fr x carry n of
        (Inl e, fr, carry) \<Rightarrow> (unexpected e, fr, carry)
      | (Inr fs, fr, carry) \<Rightarrow>
          (case feed_chunks fr carry n xs of
             (Inl e, fr, carry) \<Rightarrow> (unexpected e, fr, carry)
           | (Inr gs, fr, carry) \<Rightarrow> (ok (fs @ gs), fr, carry)))"

lemma feed_chunks_consumes:
  assumes "framer_inv fr carry" "\<not> resync_on_garble (framer_cfg fr)"
    and "consumes (\<lambda>bs. parse_frame bs (max_frame_bytes (framer_cfg fr))) (pending_of fr carry @ concat chunks) fs rest"
    and "parse_frame rest (max_frame_bytes (framer_cfg fr)) = Partial"
    and "length (pending_of fr carry @ concat chunks) \<le> carry_cap carry" "length fs \<le> n" "chunks \<noteq> []"
  shows "\<exists>fr' carry'. feed_chunks fr carry n chunks = (ok fs, fr', carry') \<and> pending_of fr' carry' = rest"
  using assms
proof (induction chunks arbitrary: fr carry fs)
  case (Cons x xs)
  let ?m = "max_frame_bytes (framer_cfg fr)" and ?p = "pending_of fr carry"
  obtain res fr1 carry1 where r: "feed_strict fr x carry n = (res, fr1, carry1)" by (metis prod_cases3)
  have fits: "length (?p @ x) \<le> carry_cap carry" using Cons.prems(5) by simp
  note one = feed_strict_result [OF Cons.prems(1) fits r]
  have strict: "feed fr x carry n = (res, fr1, carry1)" using Cons.prems(2) r by (simp add: feed_def)
  have all: "consumes (\<lambda>bs. parse_frame bs ?m) ((?p @ x) @ concat xs) fs rest" using Cons.prems(3) by simp
  show ?case
  proof (cases "feed_loop ?m n (?p @ x) 0 []")
    case (Inl e)
    then show ?thesis
      using feed_loop_error [OF Inl] strict_framing.no_error_inside [OF all Cons.prems(4)] by auto
  next
    case (Inr y)
    then obtain off gs where l: "feed_loop ?m n (?p @ x) 0 [] = Inr (off, gs)" by (cases y) simp
    from feed_loop_consumes [OF this] have gs: "consumes (\<lambda>bs. parse_frame bs ?m) (?p @ x) gs (drop off (?p @ x))"
      "length gs = n \<or> parse_frame (drop off (?p @ x)) ?m = Partial" by auto
    obtain hs where hs: "fs = gs @ hs" "consumes (\<lambda>bs. parse_frame bs ?m) (drop off (?p @ x) @ concat xs) hs rest"
      using strict_framing.frames_of_prefix [OF all Cons.prems(4) gs(1)] by blast
    have st: "framer_inv fr1 carry1" "framer_cfg fr1 = framer_cfg fr" "carry_cap carry1 = carry_cap carry"
      "res = ok gs" "pending_of fr1 carry1 = drop off (?p @ x)" using one l by simp_all
    show ?thesis
    proof (cases "xs = []")
      case True
      have "hs = [] \<and> rest = drop off (?p @ x)"
      proof -
        have "consumes (\<lambda>bs. parse_frame bs ?m) (drop off (?p @ x)) hs rest" using hs(2) True by simp
        moreover have "length gs = n \<Longrightarrow> hs = []" using hs(1) Cons.prems(6) by simp
        ultimately show ?thesis using gs(2) strict_framing.consumes_stuck [of ?m "drop off (?p @ x)" hs rest]
          by (auto elim: consumes_NilE)
      qed
      then show ?thesis using True strict st hs(1) by simp
    next
      case False
      have "\<exists>fr' carry'. feed_chunks fr1 carry1 n xs = (ok hs, fr', carry') \<and> pending_of fr' carry' = rest"
        using Cons.prems(2,4,5,6) hs st by (intro Cons.IH) (auto simp: False)
      then show ?thesis using strict st(4) hs(1) by auto
    qed
  qed
qed simp

text \<open>C1. A frame is recognised exactly: the strict parser reports a complete frame iff the
  buffer starts with a BeginString, a BodyLength that is the true length of the body, a body
  that ends in SOH and the three-digit CheckSum of all bytes before it, within the configured
  maximum; and it returns precisely that frame's extent.\<close>

theorem parse_frame_exact:
  assumes "max_bytes < 2 ^ 63"
  shows "parse_frame bytes max_bytes = Complete fl boff blen \<longleftrightarrow>
    fl \<le> length bytes \<and> fl \<le> max_bytes \<and> fix_frame (take fl bytes) boff blen"
proof
  assume "parse_frame bytes max_bytes = Complete fl boff blen"
  then show "fl \<le> length bytes \<and> fl \<le> max_bytes \<and> fix_frame (take fl bytes) boff blen"
    using parse_frame_sound [OF _ assms] parse_frame_Complete_bounds by blast
next
  assume r: "fl \<le> length bytes \<and> fl \<le> max_bytes \<and> fix_frame (take fl bytes) boff blen"
  then show "parse_frame bytes max_bytes = Complete fl boff blen"
    using parse_frame_complete [of "take fl bytes" boff blen max_bytes "drop fl bytes"] assms by (simp add: min_absorb2)
qed

text \<open>A heartbeat without fields, used as a concrete frame.\<close>

definition sample_frame :: "byte list" where
  "sample_frame = ''8=FIX.4.2'' @ [SOH] @ ''9=5'' @ [SOH] @ ''35=0'' @ [SOH] @ ''10=161'' @ [SOH]"

lemma sample_fix_frame: "fix_frame sample_frame 14 5"
proof -
  have "sample_frame = frame_of ''FIX.4.2'' ''5'' (''35=0'' @ [SOH]) ''161''"
    by (simp add: sample_frame_def frame_of_def frame_header_def)
  moreover have "byte_sum (frame_header ''FIX.4.2'' ''5'' @ ''35=0'' @ [SOH]) = 161"
    by (simp add: byte_sum_def frame_header_def)
  ultimately show ?thesis
    unfolding fix_frame_def
    by (intro exI [of _ "''FIX.4.2''"] exI [of _ "''5''"] exI [of _ "''35=0'' @ [SOH]"] exI [of _ "''161''"])
       (simp add: length_frame_header is_digit_def dec_value_def digit_val_def)
qed

lemma length_sample_frame: "length sample_frame = 26"
  by (simp add: sample_frame_def)

theorem parse_frame_exact_witness:
  "parse_frame (sample_frame @ ''8=FIX'') 4096 = Complete 26 14 5"
  using parse_frame_exact [of 4096 "sample_frame @ ''8=FIX''" 26 14 5] sample_fix_frame length_sample_frame by simp



subsection \<open>Resync candidates\<close>

lemma begin_string_loop_find:
  "i \<le> length bytes \<Longrightarrow> i \<le> last_at \<Longrightarrow>
   fst (begin_string_loop bytes last_at i r) = (if find_soh bytes i \<le> last_at then Some (find_soh bytes i) else None)"
proof (induction bytes last_at i r rule: begin_string_loop.induct)
  case (1 bytes last_at i r)
  show ?case
  proof (cases "i < length bytes \<and> bytes ! i \<noteq> SOH \<and> i \<noteq> last_at")
    case True
    then have "find_soh bytes i = find_soh bytes (i + 1)" by (subst find_soh.simps) simp
    moreover have "begin_string_loop bytes last_at i r = begin_string_loop bytes last_at (i + 1) (r + 1)"
      using True by (subst begin_string_loop.simps) simp
    ultimately show ?thesis using 1 True by simp
  next
    case False
    have "find_soh bytes i \<noteq> i" "i < find_soh bytes i" if "i < length bytes" "bytes ! i \<noteq> SOH"
    proof -
      have "find_soh bytes i = find_soh bytes (Suc i)" using that by (subst find_soh.simps) simp
      then show "i < find_soh bytes i" using that find_soh_takeWhile [of "Suc i" bytes] by simp
      then show "find_soh bytes i \<noteq> i" by simp
    qed
    then show ?thesis using 1 False
      by (subst begin_string_loop.simps) (auto simp: find_soh.simps [of bytes i])
  qed
qed

lemma resync_length_loop_value:
  assumes "i \<le> length bytes" "f \<le> i" "i - f \<le> kBodyLengthDigitCap" "n \<le> m"
  shows "fst (resync_length_loop bytes m f i n r) = Inr (e, v) \<longleftrightarrow>
    e = find_soh bytes i \<and> e < length bytes \<and> e - f \<le> kBodyLengthDigitCap \<and> digits (sub_span bytes i (e - i)) \<and>
    dec_acc n (sub_span bytes i (e - i)) \<le> m \<and> v = dec_acc n (sub_span bytes i (e - i))"
  using assms
proof (induction bytes m f i n r rule: resync_length_loop.induct)
  case (1 bytes m f i n r)
  show ?case
  proof (cases "i < length bytes \<and> bytes ! i \<noteq> SOH")
    case False
    then have "find_soh bytes i = i" using 1 by (subst find_soh.simps) auto
    then show ?thesis using 1 False by (subst resync_length_loop.simps) (auto simp: sub_span_def)
  next
    case True
    let ?c = "bytes ! i"
    have fs: "find_soh bytes i = find_soh bytes (Suc i)" using True by (subst find_soh.simps) simp
    have ge: "Suc i \<le> find_soh bytes (Suc i)" using True find_soh_takeWhile [of "Suc i" bytes] by simp
    have sp: "sub_span bytes i (find_soh bytes (Suc i) - i) =
        ?c # sub_span bytes (Suc i) (find_soh bytes (Suc i) - Suc i)"
      using True ge by (simp add: sub_span_def Cons_nth_drop_Suc [symmetric] take_Cons' Suc_diff_le)
    show ?thesis
    proof (cases "is_digit ?c \<and> i - f \<noteq> kBodyLengthDigitCap \<and> n * 10 + digit_val ?c \<le> m")
      case True2: True
      have d: "digit_val ?c < 10" using True2 by (simp add: digit_val_less)
      have g: "\<not> (digit_val ?c > m \<or> n > (m - digit_val ?c) div 10)" using True2 cap_guard [OF d, of m n] by simp
      have step: "resync_length_loop bytes m f i n r = resync_length_loop bytes m f (i + 1) (n * 10 + digit_val ?c) (r + 1)"
        using True True2 g by (subst resync_length_loop.simps) (simp add: Let_def)
      have "i + 1 - f \<le> kBodyLengthDigitCap" using 1(3,4) True2 by linarith
      then have IH: "fst (resync_length_loop bytes m f (i + 1) (n * 10 + digit_val ?c) (r + 1)) = Inr (e, v) \<longleftrightarrow>
          e = find_soh bytes (i + 1) \<and> e < length bytes \<and> e - f \<le> kBodyLengthDigitCap \<and>
          digits (sub_span bytes (i + 1) (e - (i + 1))) \<and>
          dec_acc (n * 10 + digit_val ?c) (sub_span bytes (i + 1) (e - (i + 1))) \<le> m \<and>
          v = dec_acc (n * 10 + digit_val ?c) (sub_span bytes (i + 1) (e - (i + 1)))"
        using 1(2,3) True True2 g by (intro 1(1)) auto
      show ?thesis unfolding step IH using fs sp True2 by auto
    next
      case False
      have no: "\<not> is_digit ?c \<or> i - f = kBodyLengthDigitCap \<or> digit_val ?c > m \<or> n > (m - digit_val ?c) div 10"
      proof (rule ccontr)
        assume a: "\<not> ?thesis"
        then have "digit_val ?c < 10" by (simp add: digit_val_less)
        then show False using a False cap_guard [of "digit_val ?c" m n] by simp
      qed
      have "\<exists>c. fst (resync_length_loop bytes m f i n r) = Inl c"
        using True no by (subst resync_length_loop.simps) (auto simp: Let_def)
      moreover have "n * 10 + digit_val ?c \<le> dec_acc (n * 10 + digit_val ?c) (sub_span bytes (Suc i) (find_soh bytes (Suc i) - Suc i))"
        by (rule dec_acc_mono)
      moreover have "i - f = kBodyLengthDigitCap \<Longrightarrow> \<not> find_soh bytes (Suc i) - f \<le> kBodyLengthDigitCap"
        using ge 1(3) by linarith
      ultimately show ?thesis using False fs sp by auto
    qed
  qed
qed

lemma find_soh_bounds: "i \<le> length bs \<Longrightarrow> i \<le> find_soh bs i \<and> find_soh bs i \<le> length bs"
  using length_takeWhile_le [of "\<lambda>c. c \<noteq> SOH" "drop i bs"] by (simp add: find_soh_takeWhile)

text \<open>The structure both parsers check before the trailer.\<close>

definition header_ok :: "byte list \<Rightarrow> nat \<Rightarrow> nat \<Rightarrow> nat \<Rightarrow> bool" where
  "header_ok bytes k e v \<longleftrightarrow>
     2 \<le> length bytes \<and> bytes ! 0 = CHR ''8'' \<and> bytes ! Suc 0 = EQ \<and> k = Suc (find_soh bytes 2) \<and> Suc k < length bytes \<and>
     bytes ! k = CHR ''9'' \<and> bytes ! Suc k = EQ \<and> e = find_soh bytes (Suc (Suc k)) \<and> e < length bytes \<and>
     e \<noteq> Suc (Suc k) \<and> digits (sub_span bytes (Suc (Suc k)) (e - Suc (Suc k))) \<and>
     v = dec_value (sub_span bytes (Suc (Suc k)) (e - Suc (Suc k))) \<and> v \<noteq> 0"

lemma parse_frame_header_ok:
  assumes "m < 2 ^ 63"
  shows "parse_frame bytes m = Complete fl boff blen \<longleftrightarrow>
    (\<exists>k e. header_ok bytes k e blen \<and> boff = Suc e \<and> check_trailer bytes m boff blen = Complete fl boff blen)"
proof
  assume c: "parse_frame bytes m = Complete fl boff blen"
  then have m: "9 \<le> m" using parse_frame_Complete_bounds [OF c] fix_frame_length [OF parse_frame_sound [OF c assms]] by linarith
  define k e where "k = Suc (find_soh bytes 2)" and "e = find_soh bytes (Suc (Suc k))"
  let ?s = "sub_span bytes (Suc (Suc k)) (e - Suc (Suc k))"
  have a: "2 \<le> length bytes" "bytes ! 0 = CHR ''8''" "bytes ! Suc 0 = EQ" "Suc k < length bytes"
    "bytes ! k = CHR ''9''" "bytes ! Suc k = EQ" "e \<noteq> length bytes" "e \<noteq> Suc (Suc k)"
    "\<exists>v. body_length_loop m 0 ?s = ok v \<and> v \<noteq> 0 \<and> check_trailer bytes m (Suc e) v = Complete fl boff blen"
    using c by (auto simp: parse_frame_def Let_def k_def e_def split: if_splits sum.splits)
  then obtain v where v: "body_length_loop m 0 ?s = ok v" "v \<noteq> 0" "check_trailer bytes m (Suc e) v = Complete fl boff blen"
    by blast
  have b: "digits ?s" "v = dec_value ?s"
    using v(1) body_length_loop_value [OF m assms, of 0 ?s v] by (simp_all add: dec_value_def)
  have "e < length bytes" using a(4,7) find_soh_bounds [of "Suc (Suc k)" bytes] by (auto simp: e_def)
  then have "header_ok bytes k e v" using a b v(2) by (simp add: header_ok_def k_def e_def)
  moreover have "boff = Suc e" "blen = v" using v(3) by (simp_all add: check_trailer_Complete)
  ultimately show "\<exists>k e. header_ok bytes k e blen \<and> boff = Suc e \<and> check_trailer bytes m boff blen = Complete fl boff blen"
    using v(3) by blast
next
  assume "\<exists>k e. header_ok bytes k e blen \<and> boff = Suc e \<and> check_trailer bytes m boff blen = Complete fl boff blen"
  then obtain k e where h: "header_ok bytes k e blen" "boff = Suc e" "check_trailer bytes m boff blen = Complete fl boff blen"
    by blast
  have f: "2 \<le> find_soh bytes 2" "find_soh bytes 2 < length bytes" "Suc (Suc k) \<le> e"
    using h(1) find_soh_bounds [of 2 bytes] find_soh_bounds [of "Suc (Suc k)" bytes] by (auto simp: header_ok_def)
  have t: "boff + blen + 7 \<le> length bytes" "boff + blen + 7 \<le> m" using h(3) by (simp_all add: check_trailer_Complete)
  have "9 \<le> m" using t(2) f h(1,2) by (simp add: header_ok_def)
  moreover have "digits (sub_span bytes (Suc (Suc k)) (e - Suc (Suc k)))"
    "blen = dec_value (sub_span bytes (Suc (Suc k)) (e - Suc (Suc k)))" using h(1) unfolding header_ok_def by blast+
  ultimately have l: "body_length_loop m 0 (sub_span bytes (Suc (Suc k)) (e - Suc (Suc k))) = ok blen"
    using t(2) body_length_loop_value [OF _ assms, of 0 "sub_span bytes (Suc (Suc k)) (e - Suc (Suc k))" blen]
    by (simp add: dec_value_def)
  have "parse_frame bytes m = check_trailer bytes m (Suc e) blen"
    using h(1) f t l unfolding parse_frame_def Let_def by (auto simp: header_ok_def h(2))
  then show "parse_frame bytes m = Complete fl boff blen" using h(2,3) by simp
qed

lemma resync_trailer_frame:
  assumes "boff + blen + 7 \<le> length bytes" "boff + blen + 7 \<le> m"
  shows "fst (resync_trailer bytes boff blen w) = rframe fl boff' blen' \<longleftrightarrow>
    check_trailer bytes m boff blen = Complete fl boff' blen'"
  using assms by (auto simp: resync_trailer_def check_trailer_def Let_def)

text \<open>The candidate parser once the header up to \<^verbatim>\<open>9=\<close> is in place.\<close>

definition resync_prefix :: "byte list \<Rightarrow> nat \<Rightarrow> nat \<Rightarrow> bool" where
  "resync_prefix bytes b k \<longleftrightarrow>
     2 \<le> length bytes \<and> bytes ! 0 = CHR ''8'' \<and> bytes ! Suc 0 = EQ \<and> k = Suc (find_soh bytes 2) \<and>
     find_soh bytes 2 \<le> 2 + b \<and> Suc k < length bytes \<and> bytes ! k = CHR ''9'' \<and> bytes ! Suc k = EQ"

lemma pair_of_fst: "fst p = x \<Longrightarrow> \<exists>r. p = (x, r)"
  by (cases p) auto

lemma resync_prefix_needed:
  assumes "fst (parse_resync_candidate bytes m b w) = rframe fl boff blen"
  shows "resync_prefix bytes b (Suc (find_soh bytes 2))"
proof -
  have l: "2 \<le> length bytes" using assms by (auto simp: parse_resync_candidate_def Let_def split: if_splits)
  then have "fst (begin_string_loop bytes (2 + b) 2 r) = (if find_soh bytes 2 \<le> 2 + b then Some (find_soh bytes 2) else None)" for r
    by (intro begin_string_loop_find) simp_all
  then obtain r' where r': "begin_string_loop bytes (2 + b) 2 (reads w + 1 + 1) =
      ((if find_soh bytes 2 \<le> 2 + b then Some (find_soh bytes 2) else None), r')" by (blast dest: pair_of_fst)
  show ?thesis
    using assms l r' by (auto simp: parse_resync_candidate_def Let_def resync_prefix_def split: if_splits)
qed

lemma resync_after_prefix:
  assumes "resync_prefix bytes b k"
  obtains w1 where "parse_resync_candidate bytes m b w =
    (case resync_length_loop bytes m (Suc (Suc k)) (Suc (Suc k)) 0 (reads w1) of
       (Inl c, r) \<Rightarrow> (c, w1\<lparr>reads := r\<rparr>)
     | (Inr (e, v), r) \<Rightarrow>
         (if e = Suc (Suc k) \<or> v = 0 then (rgarble wire_invalid_body_length None, w1\<lparr>reads := r\<rparr>)
          else if Suc e + v + 7 > m then (rtoo_large, w1\<lparr>reads := r\<rparr>)
          else if Suc e + v + 7 > length bytes then (rpartial, w1\<lparr>reads := r\<rparr>)
          else resync_trailer bytes (Suc e) v (w1\<lparr>reads := r\<rparr>)))"
proof -
  have "fst (begin_string_loop bytes (2 + b) 2 (reads w + 1 + 1)) = Some (find_soh bytes 2)"
    using assms by (subst begin_string_loop_find) (auto simp: resync_prefix_def)
  then obtain r' where r': "begin_string_loop bytes (2 + b) 2 (reads w + 1 + 1) = (Some (find_soh bytes 2), r')"
    by (blast dest: pair_of_fst)
  show ?thesis
    by (rule that [of "w\<lparr>reads := r' + 2\<rparr>"])
      (use assms r' in \<open>auto simp: parse_resync_candidate_def Let_def resync_prefix_def split: sum.splits prod.splits\<close>)
qed

lemma resync_header_ok:
  "fst (parse_resync_candidate bytes m b w) = rframe fl boff blen \<longleftrightarrow>
    (\<exists>k e. header_ok bytes k e blen \<and> find_soh bytes 2 \<le> 2 + b \<and> e - Suc (Suc k) \<le> kBodyLengthDigitCap \<and>
       boff = Suc e \<and> check_trailer bytes m boff blen = Complete fl boff blen)" (is "?L \<longleftrightarrow> ?R")
proof (cases "resync_prefix bytes b (Suc (find_soh bytes 2))")
  case False
  moreover from False have "\<not> ?R" by (auto simp: header_ok_def resync_prefix_def)
  ultimately show ?thesis using resync_prefix_needed by blast
next
  case True
  define k where "k = Suc (find_soh bytes 2)"
  note pre = True [folded k_def]
  obtain w1 where w1: "parse_resync_candidate bytes m b w =
    (case resync_length_loop bytes m (Suc (Suc k)) (Suc (Suc k)) 0 (reads w1) of
       (Inl c, r) \<Rightarrow> (c, w1\<lparr>reads := r\<rparr>)
     | (Inr (e, v), r) \<Rightarrow>
         (if e = Suc (Suc k) \<or> v = 0 then (rgarble wire_invalid_body_length None, w1\<lparr>reads := r\<rparr>)
          else if Suc e + v + 7 > m then (rtoo_large, w1\<lparr>reads := r\<rparr>)
          else if Suc e + v + 7 > length bytes then (rpartial, w1\<lparr>reads := r\<rparr>)
          else resync_trailer bytes (Suc e) v (w1\<lparr>reads := r\<rparr>)))"
    using resync_after_prefix [OF pre] .
  let ?loop = "resync_length_loop bytes m (Suc (Suc k)) (Suc (Suc k)) 0 (reads w1)"
  have len: "Suc (Suc k) \<le> length bytes" using pre by (simp add: resync_prefix_def)
  have val: "fst ?loop = Inr (e, v) \<longleftrightarrow> e = find_soh bytes (Suc (Suc k)) \<and> e < length bytes \<and>
      e - Suc (Suc k) \<le> kBodyLengthDigitCap \<and> digits (sub_span bytes (Suc (Suc k)) (e - Suc (Suc k))) \<and>
      dec_value (sub_span bytes (Suc (Suc k)) (e - Suc (Suc k))) \<le> m \<and>
      v = dec_value (sub_span bytes (Suc (Suc k)) (e - Suc (Suc k)))" for e v
    unfolding dec_value_def using len by (intro resync_length_loop_value) simp_all
  have hk: "header_ok bytes k' e v \<Longrightarrow> k' = k" for k' e v by (simp add: header_ok_def k_def)
  show ?thesis
  proof (cases ?loop)
    case (Pair res r)
    show ?thesis
    proof (cases res)
      case (Inl c)
      have "\<not> ?L" using w1 Pair Inl resync_length_loop_candidates [of bytes m _ _ 0 _ c r] by fastforce
      moreover have "\<not> ?R"
      proof
        assume ?R
        then obtain k' e where "header_ok bytes k' e blen" "e - Suc (Suc k') \<le> kBodyLengthDigitCap"
          "check_trailer bytes m boff blen = Complete fl boff blen" by blast
        then have "fst ?loop = Inr (e, blen)"
          using hk [of k' e blen] unfolding val by (auto simp: header_ok_def check_trailer_Complete)
        then show False using Pair Inl by simp
      qed
      ultimately show ?thesis by simp
    next
      case (Inr ev)
      obtain e v where ev: "ev = (e, v)" by (cases ev)
      have ev': "e = find_soh bytes (Suc (Suc k))" "e < length bytes" "e - Suc (Suc k) \<le> kBodyLengthDigitCap"
        "digits (sub_span bytes (Suc (Suc k)) (e - Suc (Suc k)))"
        "v = dec_value (sub_span bytes (Suc (Suc k)) (e - Suc (Suc k)))"
        using val [of e v] Pair Inr ev by auto
      have ok: "header_ok bytes k e v \<longleftrightarrow> e \<noteq> Suc (Suc k) \<and> v \<noteq> 0"
        using pre ev' by (auto simp: header_ok_def resync_prefix_def)
      have uniq: "header_ok bytes k' e' v' \<Longrightarrow> k' = k \<and> e' = e \<and> v' = v" for k' e' v'
        using hk [of k' e' v'] ev' by (auto simp: header_ok_def)
      have R: "?R \<longleftrightarrow> e \<noteq> Suc (Suc k) \<and> v \<noteq> 0 \<and> check_trailer bytes m (Suc e) v = Complete fl boff blen"
      proof
        assume ?R
        then show "e \<noteq> Suc (Suc k) \<and> v \<noteq> 0 \<and> check_trailer bytes m (Suc e) v = Complete fl boff blen"
          using ok uniq by blast
      next
        assume a: "e \<noteq> Suc (Suc k) \<and> v \<noteq> 0 \<and> check_trailer bytes m (Suc e) v = Complete fl boff blen"
        then have "boff = Suc e" "blen = v" by (simp_all add: check_trailer_Complete)
        then show ?R using a ok ev'(3) pre unfolding resync_prefix_def by blast
      qed
      have L: "?L \<longleftrightarrow> e \<noteq> Suc (Suc k) \<and> v \<noteq> 0 \<and> Suc e + v + 7 \<le> m \<and> Suc e + v + 7 \<le> length bytes \<and>
          check_trailer bytes m (Suc e) v = Complete fl boff blen"
        unfolding w1 using Pair Inr ev resync_trailer_frame [of "Suc e" v bytes m "w1\<lparr>reads := r\<rparr>" fl boff blen] by auto
      show ?thesis unfolding L R by (auto simp: check_trailer_Complete)
    qed
  qed
qed

text \<open>C13. Whatever resync mode emits as a frame is a frame of the strict parser, with the
  same extent; and it misses a strict frame only where the BeginString is longer than its
  configured bound or the BodyLength has more than ten digits.\<close>

theorem resync_agrees_with_strict:
  assumes "max_bytes < 2 ^ 63"
  shows "fst (parse_resync_candidate bytes max_bytes max_begin work) = rframe fl boff blen \<longleftrightarrow>
    parse_frame bytes max_bytes = Complete fl boff blen \<and>
    find_soh bytes 2 - 2 \<le> max_begin \<and> boff - (find_soh bytes 2 + 4) \<le> kBodyLengthDigitCap"
  unfolding resync_header_ok parse_frame_header_ok [OF assms] by (auto simp: header_ok_def)

theorem resync_agrees_with_strict_witness:
  "fst (parse_resync_candidate sample_frame 4096 8 \<lparr>reads = 0, sums = 0\<rparr>) = rframe 26 14 5"
proof -
  have p: "parse_frame sample_frame 4096 = Complete 26 14 5"
    using parse_frame_complete [OF sample_fix_frame, of 4096 "[]"] length_sample_frame by simp
  have "find_soh sample_frame 2 = 9"
    using find_soh_value [of "''FIX.4.2''" "''8=''" "drop 10 sample_frame"]
    by (simp add: sample_frame_def eval_nat_numeral)
  then show ?thesis using p resync_agrees_with_strict [of 4096 sample_frame 8 "\<lparr>reads = 0, sums = 0\<rparr>" 26 14 5]
    by (simp add: kBodyLengthDigitCap_def)
qed

subsection \<open>The search for a frame start\<close>

lemma length_resync_start [simp]: "length resync_start = 5"
  by (simp add: resync_start_def)

text \<open>Position \<open>j\<close> cannot start a frame, whatever bytes follow.\<close>

definition no_start :: "byte list \<Rightarrow> nat \<Rightarrow> bool" where
  "no_start bytes j \<longleftrightarrow> (\<forall>ys. sub_span (bytes @ ys) j 5 \<noteq> resync_start)"

lemma no_start_mismatch:
  assumes "q < 5" "i + q < length bytes" "bytes ! (i + q) \<noteq> resync_start ! q"
  shows "no_start bytes i"
  unfolding no_start_def
proof (intro allI notI)
  fix ys assume e: "sub_span (bytes @ ys) i 5 = resync_start"
  have "sub_span (bytes @ ys) i 5 ! q = bytes ! (i + q)"
    using assms by (auto simp: sub_span_def nth_append)
  then show False using e assms(3) by simp
qed

lemma match_loop_spec:
  assumes "k \<le> 5" "i + k \<le> length bytes" "sub_span bytes i k = take k resync_start"
    and "fst (match_loop bytes i k r) = q"
  shows "q \<le> 5 \<and> i + q \<le> length bytes \<and> k \<le> q \<and> sub_span bytes i q = take q resync_start \<and>
    (q = 5 \<or> i + q = length bytes \<or> bytes ! (i + q) \<noteq> resync_start ! q)"
  using assms
proof (induction bytes i k r rule: match_loop.induct)
  case (1 bytes i k r)
  show ?case
  proof (cases "k < 5 \<and> i + k < length bytes \<and> bytes ! (i + k) = resync_start ! k")
    case True
    then have "match_loop bytes i k r = match_loop bytes i (k + 1) (r + 1)" by (subst match_loop.simps) simp
    moreover have "sub_span bytes i (k + 1) = take (k + 1) resync_start"
      using True 1(4) by (auto simp: sub_span_def take_Suc_conv_app_nth)
    ultimately show ?thesis using 1(1) 1(5) True by (auto simp: Suc_le_eq)
  next
    case False
    then have "q = k" using 1(5) by (subst (asm) match_loop.simps) (auto split: if_splits)
    then show ?thesis using 1 False by auto
  qed
qed

lemma find_resync_start_spec:
  assumes "find_resync_start bytes i r = (res, held, r')" "i \<le> length bytes"
  shows "case res of
      Some k \<Rightarrow> i \<le> k \<and> sub_span bytes k 5 = resync_start \<and> (\<forall>j. i \<le> j \<and> j < k \<longrightarrow> no_start bytes j)
    | None \<Rightarrow> held < 5 \<and> i + held \<le> length bytes \<and> drop (length bytes - held) bytes = take held resync_start \<and>
        (\<forall>j. i \<le> j \<and> j < length bytes - held \<longrightarrow> no_start bytes j)"
  using assms
proof (induction bytes i r arbitrary: res held r' rule: find_resync_start.induct)
  case (1 bytes i r)
  have skip: ?case if s: "i < length bytes" "no_start bytes i" "find_resync_start bytes (i + 1) r1 = (res, held, r')"
    and IH: "case res of
      Some k \<Rightarrow> i + 1 \<le> k \<and> sub_span bytes k 5 = resync_start \<and> (\<forall>j. i + 1 \<le> j \<and> j < k \<longrightarrow> no_start bytes j)
    | None \<Rightarrow> held < 5 \<and> i + 1 + held \<le> length bytes \<and> drop (length bytes - held) bytes = take held resync_start \<and>
        (\<forall>j. i + 1 \<le> j \<and> j < length bytes - held \<longrightarrow> no_start bytes j)" for r1
    using IH s(1,2) by (auto simp: Suc_le_eq split: option.splits dest: le_neq_implies_less)
  show ?case
  proof (cases "i < length bytes")
    case False
    then have "find_resync_start bytes i r = (None, 0, r)" by (subst find_resync_start.simps) simp
    then show ?thesis using 1(3,4) False by auto
  next
    case i: True
    show ?thesis
    proof (cases "bytes ! i = resync_start ! 0")
      case False
      then have n: "no_start bytes i" using i no_start_mismatch [of 0 i bytes] by simp
      have f: "find_resync_start bytes (i + 1) (r + 1) = (res, held, r')"
        using 1(3) i False by (subst (asm) find_resync_start.simps) simp
      show ?thesis using 1(1) [OF i _ f] False i by (intro skip [OF i n f]) simp_all
    next
      case True
      obtain q r1 where q: "match_loop bytes i 1 (r + 1) = (q, r1)" by fastforce
      have "sub_span bytes i 1 = take 1 resync_start"
        using i True by (simp add: sub_span_def take_Suc_conv_app_nth hd_drop_conv_nth take_Suc resync_start_def)
      then have m: "q \<le> 5" "i + q \<le> length bytes" "1 \<le> q" "sub_span bytes i q = take q resync_start"
        "q = 5 \<or> i + q = length bytes \<or> bytes ! (i + q) \<noteq> resync_start ! q"
        using match_loop_spec [of 1 i bytes "r + 1" q] q i by auto
      consider (full) "q = 5" | (tail) "q \<noteq> 5" "i + q = length bytes" | (miss) "q \<noteq> 5" "i + q \<noteq> length bytes" by blast
      then show ?thesis
      proof cases
        case full
        then show ?thesis using 1(3) i True q m by (subst (asm) find_resync_start.simps) auto
      next
        case tail
        then have "find_resync_start bytes i r = (None, length bytes - i, r1)"
          using i True q by (subst find_resync_start.simps) simp
        moreover have "length bytes - i = q" "sub_span bytes i q = drop i bytes" using tail by (auto simp: sub_span_def)
        ultimately show ?thesis using 1(3) m tail by auto
      next
        case miss
        then have n: "no_start bytes i" using m no_start_mismatch [of q i bytes] by auto
        have f: "find_resync_start bytes (i + 1) r1 = (res, held, r')"
          using 1(3) i True q miss by (subst (asm) find_resync_start.simps) simp
        show ?thesis using 1(2) [OF i _ q [symmetric] _ _ f] True miss i by (intro skip [OF i n f]) simp_all
      qed
    qed
  qed
qed

subsection \<open>Nothing is lost in resync mode\<close>

definition frame_valid :: "frame_view \<Rightarrow> bool" where
  "frame_valid f \<longleftrightarrow> fix_frame (frame_bytes f) (frame_body_off f) (frame_body_len f)"

text \<open>The bytes passed so far are discarded ones, then the produced frames.\<close>

definition resync_inv :: "nat \<Rightarrow> byte list \<Rightarrow> resync_state \<Rightarrow> bool" where
  "resync_inv n source st \<longleftrightarrow>
     rs_offset st \<le> length source \<and> length (rs_produced st) \<le> n \<and>
     (rs_produced st \<noteq> [] \<longrightarrow> \<not> rs_searching st) \<and> list_all frame_valid (rs_produced st) \<and>
     (\<exists>junk. take (rs_offset st) source = junk @ concat (map frame_bytes (rs_produced st)) \<and>
        discarded (rs_garbles st) = length junk)"

lemma resync_inv_junk:
  assumes "resync_inv n source st" "rs_produced st = []"
  shows "discarded (rs_garbles st) = rs_offset st"
proof -
  obtain junk where j: "take (rs_offset st) source = junk" "discarded (rs_garbles st) = length junk"
    "rs_offset st \<le> length source"
    using assms by (auto simp: resync_inv_def)
  show ?thesis unfolding j(2) j(1) [symmetric] using j(3) by simp
qed

text \<open>Discarding up to a later offset, while no frame is produced.\<close>

lemma resync_inv_discard:
  assumes "resync_inv n source st" "rs_produced st = []" "rs_offset st \<le> off" "off \<le> length source"
    and "rs_offset st' = off" "rs_produced st' = []"
    and "discarded (rs_garbles st') = discarded (rs_garbles st) + (off - rs_offset st)"
  shows "resync_inv n source st'"
  unfolding resync_inv_def using assms resync_inv_junk [OF assms(1,2)] by (auto intro!: exI [of _ "take off source"])

lemma resync_search_inv:
  assumes "resync_inv n source st" "resync_search source st = (go, st')"
  shows "resync_inv n source st' \<and> rs_produced st' = rs_produced st \<and> rs_offset st \<le> rs_offset st' \<and> (go \<longrightarrow> \<not> rs_searching st')"
proof (cases "rs_searching st")
  case False
  then show ?thesis using assms by (auto simp: resync_search_def)
next
  case True
  then have p: "rs_produced st = []" and o: "rs_offset st \<le> length source"
    using assms(1) by (auto simp: resync_inv_def)
  obtain res held r' where f: "find_resync_start source (rs_offset st) (reads (rs_work st)) = (res, held, r')"
    by (metis prod_cases3)
  show ?thesis
  proof (cases res)
    case None
    have "rs_offset st + held \<le> length source" using find_resync_start_spec [OF f o] None by simp
    then show ?thesis
      using assms True f None p
      by (auto simp: resync_search_def Let_def intro!: resync_inv_discard [OF assms(1) p, of "length source - held"])
  next
    case (Some k)
    have "rs_offset st \<le> k" "k < length source" using find_resync_start_ge [of source "rs_offset st"] f Some by auto
    then show ?thesis
      using assms True f Some p
      by (auto simp: resync_search_def Let_def intro!: resync_inv_discard [OF assms(1) p, of k])
  qed
qed

lemma open_region_inv:
  assumes "resync_inv n source st" "rs_produced st = []"
    and "rs_offset st + (case through of Some fl \<Rightarrow> fl | None \<Rightarrow> 1) \<le> length source"
  shows "resync_inv n source (open_region st kind through)"
  by (rule resync_inv_discard [OF assms(1,2), of "rs_offset st + (case through of Some fl \<Rightarrow> fl | None \<Rightarrow> 1)"])
     (use assms(2,3) in \<open>auto simp: open_region_def Let_def\<close>)

lemma produce_inv:
  assumes inv: "resync_inv n source st" and "\<not> rs_searching st" "length (rs_produced st) < n"
    and fl: "rs_offset st + fl \<le> length source" "fix_frame (take fl (drop (rs_offset st) source)) boff blen"
  shows "resync_inv n source (st\<lparr>rs_produced := rs_produced st @
      [\<lparr>frame_bytes = sub_span source (rs_offset st) fl, frame_body_off = boff, frame_body_len = blen\<rparr>],
    rs_offset := rs_offset st + fl\<rparr>)"
proof -
  obtain junk where j: "take (rs_offset st) source = junk @ concat (map frame_bytes (rs_produced st))"
    "discarded (rs_garbles st) = length junk" using inv by (auto simp: resync_inv_def)
  have "take (rs_offset st + fl) source = junk @ concat (map frame_bytes (rs_produced st)) @ sub_span source (rs_offset st) fl"
    using j(1) by (simp add: take_add sub_span_def)
  then show ?thesis using assms j(2) by (auto simp: resync_inv_def frame_valid_def sub_span_def)
qed

lemma resync_frame_valid:
  assumes "m < 2 ^ 63" "fst (parse_resync_candidate bytes m b w) = rframe fl boff blen"
  shows "fix_frame (take fl bytes) boff blen"
  using assms(2) parse_frame_sound [OF _ assms(1)] unfolding resync_header_ok parse_frame_header_ok [OF assms(1)]
  by blast

lemma resync_more_left:
  "resync_search source st = (True, st') \<Longrightarrow> rs_offset st < length source \<Longrightarrow> rs_offset st' < length source"
  using find_resync_start_ge [of source "rs_offset st"]
  by (auto simp: resync_search_def Let_def split: if_splits option.splits prod.splits)

lemma resync_loop_inv:
  assumes "resync_inv n source st" "m < 2 ^ 63" "resync_loop m b n source st = (refused, st')"
  shows "resync_inv n source st'"
  using assms
proof (induction m b n source st arbitrary: refused st' rule: resync_loop.induct)
  case (1 m b n source st)
  show ?case
  proof (cases "rs_offset st < length source \<and> length (rs_produced st) < n")
    case False
    then show ?thesis using 1(3,5) by (auto simp: resync_loop.simps [of m b n source st])
  next
    case c: True
    obtain go st1 where s: "resync_search source st = (go, st1)" by fastforce
    note si = resync_search_inv [OF 1(3) s]
    show ?thesis
    proof (cases go)
      case False
      then show ?thesis using 1(5) c s si by (simp add: resync_loop.simps [of m b n source st])
    next
      case True
      then have go: "go = True" by simp
      obtain cand w where p: "parse_resync_candidate (drop (rs_offset st1) source) m b (rs_work st1) = (cand, w)" by fastforce
      let ?st = "st1\<lparr>rs_work := w\<rparr>"
      have inv: "resync_inv n source ?st" using conjunct1 [OF si] by (simp add: resync_inv_def)
      have len: "length (drop (rs_offset st1) source) = length source - rs_offset st1" "rs_offset st1 \<le> length source"
        using si by (simp_all add: resync_inv_def)
      note loop = 1(5) [unfolded resync_loop.simps [of m b n source st]]
      note loop = loop [unfolded s go p prod.case Let_def if_P [OF c] bool.case]
      have b: "rs_offset st1 + fl \<le> length source"
        if "cand = rframe fl boff blen \<or> cand = rgarble e (Some fl)" for fl boff blen e
        using that parse_resync_candidate_bounds [OF p] len by fastforce
      show ?thesis
      proof (cases cand)
        case (rframe fl boff blen)
        have "fix_frame (take fl (drop (rs_offset ?st) source)) boff blen"
          using resync_frame_valid [OF 1(4), of "drop (rs_offset st1) source" b "rs_work st1" fl boff blen] p rframe by simp
        moreover have "\<not> rs_searching ?st" "length (rs_produced ?st) < n" using si True c by simp_all
        ultimately have new: "resync_inv n source (?st\<lparr>rs_produced := rs_produced ?st @
            [\<lparr>frame_bytes = sub_span source (rs_offset ?st) fl, frame_body_off = boff, frame_body_len = blen\<rparr>],
            rs_offset := rs_offset ?st + fl\<rparr>)"
          using b [of fl boff blen] rframe by (intro produce_inv [OF inv]) simp_all
        show ?thesis
          by (rule 1(1) [OF c s [symmetric] go p [symmetric] refl rframe new 1(4)]) (use loop rframe in simp)
      next
        case rpartial
        then show ?thesis using loop inv by simp
      next
        case (rgarble e through)
        show ?thesis
        proof (cases "rs_produced st1 = []")
          case p0: True
          have new: "resync_inv n source (open_region ?st e through)"
            by (rule open_region_inv [OF inv])
               (use p0 b rgarble si c resync_more_left [OF s [unfolded go]] in \<open>auto split: option.split\<close>)
          have "\<not> rs_produced ?st \<noteq> []" using p0 by simp
          from 1(2) [OF c s [symmetric] go p [symmetric] refl rgarble this new 1(4)] show ?thesis
            using loop rgarble p0 by simp
        next
          case False
          then show ?thesis using loop rgarble inv by simp
        qed
      next
        case rtoo_large
        then show ?thesis using loop inv by (auto split: if_splits)
      qed
    qed
  qed
qed


lemma feed_resync_carried:
  assumes inv: "framer_inv fr carry" and r: "feed_resync fr incoming carry n = (ok fs, fr', carry')"
    and p_def: "p = pending_of fr carry" and ne0: "pending fr \<noteq> 0"
    and l: "resync_loop (max_frame_bytes (framer_cfg fr)) (max_begin_string_bytes (framer_cfg fr)) n (p @ incoming)
        \<lparr>rs_offset = 0, rs_produced = [], rs_searching = searching fr, rs_garbles = garble_none,
         rs_work = \<lparr>reads = 0, sums = 0\<rparr>\<rparr> = (refused, st)"
    and off: "rs_offset st \<le> length p + length incoming"
  shows "fs = rs_produced st \<and> garbles fr' = rs_garbles st \<and> framer_inv fr' carry' \<and>
    framer_cfg fr' = framer_cfg fr \<and> carry_cap carry' = carry_cap carry \<and>
    pending_of fr' carry' = drop (rs_offset st) (p @ incoming)"
proof -
  have pl: "length p = pending fr" "pending fr \<le> length (carry_buf carry)"
    using inv by (auto simp: p_def pending_of_def framer_inv_def)
  let ?compact = "pending fr < length (carry_buf carry) \<and> length (carry_buf carry) + length incoming > carry_cap carry"
  define pre where "pre = (if ?compact then [] else take (length (carry_buf carry) - pending fr) (carry_buf carry))"
  have c: "?compact \<Longrightarrow> pre = []" "?compact \<Longrightarrow> consume_front carry (length (carry_buf carry) - pending fr) = carry\<lparr>carry_buf := p\<rparr>"
    "\<not> ?compact \<Longrightarrow> carry_buf carry = pre @ p"
    using pl ne0 by (auto simp: consume_front_def pre_def p_def pending_of_def)
  have ne: "p \<noteq> []" using pl ne0 by auto
  let ?fr = "if ?compact then fr\<lparr>garbles := garble_none, work_moved := work_moved fr + pending fr\<rparr> else fr\<lparr>garbles := garble_none\<rparr>"
  have body: "feed_resync fr incoming carry n =
    (if carry_cap carry < length (pre @ p) + length incoming
     then (unexpected wire_frame_too_large, ?fr\<lparr>pending := 0, searching := False\<rparr>, carry_clear (carry\<lparr>carry_buf := pre @ p\<rparr>))
     else let fr = ?fr\<lparr>work_moved := work_moved ?fr + length incoming, searching := rs_searching st, garbles := rs_garbles st,
                  work_read := work_read fr + reads (rs_work st), work_summed := work_summed fr + sums (rs_work st)\<rparr>;
              carry = carry\<lparr>carry_buf := pre @ p @ incoming\<rparr> in
       if refused then (unexpected wire_frame_too_large, fr\<lparr>pending := 0, searching := False\<rparr>, carry_clear carry)
       else (ok (rs_produced st), fr\<lparr>pending := length (p @ incoming) - rs_offset st\<rparr>, carry))"
  proof (cases ?compact)
    case True
    then show ?thesis using ne0 ne l pl(1) c(1,2) unfolding feed_resync_def Let_def
      by (simp add: carry_append_def)
  next
    case nc: False
    show ?thesis using ne0 ne l pl(1) nc c(3) [OF nc] unfolding feed_resync_def Let_def
      by (cases "pre = []") (simp_all add: carry_append_def carry_clear_def)
  qed
  show ?thesis using r off unfolding body
    by (auto simp: Let_def pending_of_def framer_inv_def split: if_splits)
qed

lemma feed_resync_source:
  assumes inv: "framer_inv fr carry" and r: "feed_resync fr incoming carry n = (ok fs, fr', carry')"
    and m: "max_frame_bytes (framer_cfg fr) < 2 ^ 63"
  shows "\<exists>st. resync_inv n (pending_of fr carry @ incoming) st \<and> fs = rs_produced st \<and>
    garbles fr' = rs_garbles st \<and> framer_inv fr' carry' \<and> framer_cfg fr' = framer_cfg fr \<and>
    carry_cap carry' = carry_cap carry \<and>
    pending_of fr' carry' = drop (rs_offset st) (pending_of fr carry @ incoming)"
proof -
  define p where "p = pending_of fr carry"
  let ?st0 = "\<lparr>rs_offset = 0, rs_produced = [], rs_searching = searching fr, rs_garbles = garble_none,
    rs_work = \<lparr>reads = 0, sums = 0\<rparr>\<rparr>"
  obtain refused st where l: "resync_loop (max_frame_bytes (framer_cfg fr)) (max_begin_string_bytes (framer_cfg fr)) n
      (p @ incoming) ?st0 = (refused, st)" by fastforce
  have "resync_inv n (p @ incoming) ?st0" by (simp add: resync_inv_def garble_none_def)
  then have st: "resync_inv n (p @ incoming) st" by (rule resync_loop_inv [OF _ m l])
  then have off: "rs_offset st \<le> length p + length incoming" by (simp add: resync_inv_def)
  have "fs = rs_produced st \<and>
    garbles fr' = rs_garbles st \<and> framer_inv fr' carry' \<and> framer_cfg fr' = framer_cfg fr \<and>
    carry_cap carry' = carry_cap carry \<and>
    pending_of fr' carry' = drop (rs_offset st) (p @ incoming)"
  proof (cases "pending fr = 0")
    case True
    then have "p = []" by (simp add: p_def pending_of_def)
    then show ?thesis using r l off True
      by (auto simp: feed_resync_def Let_def carry_clear_def carry_append_def pending_of_def framer_inv_def
          split: if_splits)
  next
    case False
    show ?thesis by (rule feed_resync_carried [OF inv r p_def False l off])
  qed
  then show ?thesis using st by (auto simp: p_def)
qed


definition resync_config :: framer_config where
  "resync_config = \<lparr>max_frame_bytes = 64, resync_on_garble = True, max_begin_string_bytes = 8\<rparr>"

lemma sample_resync: "feed_resync (framer_new resync_config) (''zz'' @ sample_frame @ ''8='') \<lparr>carry_buf = [], carry_cap = 64\<rparr> 4 =
   (ok [\<lparr>frame_bytes = sample_frame, frame_body_off = 14, frame_body_len = 5\<rparr>],
    \<lparr>framer_cfg = resync_config, pending = 2, searching = False,
     garbles = \<lparr>regions = 1, first_kind = Some wire_framing_resync, discarded = 2\<rparr>,
     work_read = 31, work_summed = 19, work_moved = 2\<rparr>, \<lparr>carry_buf = ''8='', carry_cap = 64\<rparr>)"
  by (simp add: feed_resync_def framer_new_def resync_config_def sample_frame_def carry_clear_def carry_append_def
    garble_none_def resync_loop.simps resync_search_def parse_resync_candidate_def resync_trailer_def open_region_def
    find_resync_start.simps match_loop.simps resync_start_def begin_string_loop.simps resync_length_loop.simps
    digits_read_def encoded_checksum_def checksum_of_def is_digit_def digit_val_def u32_def
    sub_span_def kBodyLengthDigitCap_def Let_def)



end
