(* ===== verification/Fixpp_Writer.thy ===== *)
theory Fixpp_Writer
  imports Fixpp_Decimal Fixpp_Time Fixpp_Framer
begin

text \<open>
  The message writer: \<^verbatim>\<open>include/fixpp/wire/writer.hpp\<close> and \<^verbatim>\<open>src/wire/writer.cpp\<close>.

  The destination span is the byte list \<open>dst\<close>, whose length never changes; \<^verbatim>\<open>npos\<close> is
  \<^const>\<open>None\<close>.  The invariant \<open>writer_inv\<close> keeps \<open>pos\<close> within the buffer, so that the
  code's unsigned subtraction \<^verbatim>\<open>dst_.size() - pos_\<close> is the one of \<^typ>\<open>nat\<close>.  A
  \<^verbatim>\<open>std::uint32_t\<close> length is written with \<^const>\<open>u32\<close>.
\<close>

subsection \<open>Rendering numbers\<close>

definition digit_count :: "nat \<Rightarrow> nat" where
  "digit_count v =
     (if v < 10 then 1 else if v < 100 then 2 else if v < 1000 then 3
      else if v < 10000 then 4 else if v < 100000 then 5 else if v < 1000000 then 6
      else if v < 10000000 then 7 else if v < 100000000 then 8 else if v < 1000000000 then 9
      else 10)"

fun render_loop :: "byte list \<Rightarrow> nat \<Rightarrow> nat \<Rightarrow> byte list" where
  "render_loop buf v 0 = buf"
| "render_loop buf v (Suc pos) = render_loop (buf[pos := digit_char (v mod 10)]) (v div 10) pos"

text \<open>The number of bytes written, 0 when the buffer is too small, and the buffer.\<close>

definition render_u32 :: "nat \<Rightarrow> byte list \<Rightarrow> nat \<times> byte list" where
  "render_u32 v buf =
     (let dc = digit_count v in if dc > length buf then (0, buf) else (dc, render_loop buf v dc))"

text \<open>The free function \<^verbatim>\<open>write_tag_eq\<close>: the new position, if the field fits, and the buffer.\<close>

definition write_tag_eq_at :: "byte list \<Rightarrow> nat \<Rightarrow> nat \<Rightarrow> nat option \<times> byte list" where
  "write_tag_eq_at buf pos tag =
     (let dc = digit_count tag in
      if pos + dc + 1 > length buf then (None, buf)
      else
        let (n, tmp) = render_u32 tag (replicate 7 (CHR 0x00)) in
        if n = 0 then (None, buf)
        else (Some (pos + n + 1), (overwrite buf pos (take n tmp))[pos + n := EQ]))"

subsection \<open>The writer\<close>

record writer =
  dst :: "byte list"
  pos :: nat
  body_start :: "nat option"
  bl_digit_count :: nat
  bl_digit_pos :: "nat option"
  overflow :: bool

definition writer_new :: "byte list \<Rightarrow> writer" where
  "writer_new d = \<lparr>dst = d, pos = 0, body_start = None, bl_digit_count = 0, bl_digit_pos = None, overflow = False\<rparr>"

definition write_byte :: "writer \<Rightarrow> byte \<Rightarrow> bool \<times> writer" where
  "write_byte w b =
     (if pos w \<ge> length (dst w) then (False, w\<lparr>overflow := True\<rparr>)
      else (True, w\<lparr>dst := (dst w)[pos w := b], pos := pos w + 1\<rparr>))"

definition write_span :: "writer \<Rightarrow> byte list \<Rightarrow> bool \<times> writer" where
  "write_span w s =
     (if length s > length (dst w) - pos w then (False, w\<lparr>overflow := True\<rparr>)
      else if s = [] then (True, w)
      else (True, w\<lparr>dst := overwrite (dst w) (pos w) s, pos := pos w + length s\<rparr>))"

definition write_tag_eq :: "writer \<Rightarrow> nat \<Rightarrow> bool \<times> writer" where
  "write_tag_eq w tag =
     (case write_tag_eq_at (dst w) (pos w) tag of
        (None, d) \<Rightarrow> (False, w\<lparr>dst := d, overflow := True\<rparr>)
      | (Some new_pos, d) \<Rightarrow> (True, w\<lparr>dst := d, pos := new_pos\<rparr>))"

definition bytes_written :: "writer \<Rightarrow> nat" where
  "bytes_written w = pos w"

text \<open>One write after the other, stopping at the first that does not fit.\<close>

definition and_then :: "bool \<times> writer \<Rightarrow> (writer \<Rightarrow> bool \<times> writer) \<Rightarrow> bool \<times> writer" where
  "and_then r k = (if fst r then k (snd r) else r)"

fun write_zeros :: "writer \<Rightarrow> nat \<Rightarrow> bool \<times> writer" where
  "write_zeros w 0 = (True, w)"
| "write_zeros w (Suc k) = and_then (write_byte w (CHR ''0'')) (\<lambda>w. write_zeros w k)"

definition max_bl_digits :: nat where "max_bl_digits = 6"

text \<open>The BodyLength placeholder that follows the first field.\<close>

definition inject_placeholder :: "writer \<Rightarrow> bool \<times> writer" where
  "inject_placeholder w =
     and_then (and_then (write_byte w (CHR ''9'')) (\<lambda>w. write_byte w EQ))
       (\<lambda>w. and_then (and_then
          (write_zeros (w\<lparr>bl_digit_pos := Some (pos w), bl_digit_count := max_bl_digits\<rparr>) max_bl_digits)
          (\<lambda>w. write_byte w SOH))
          (\<lambda>w. (True, w\<lparr>body_start := Some (pos w)\<rparr>)))"

definition append_raw :: "writer \<Rightarrow> nat \<Rightarrow> byte list \<Rightarrow> unit expected_t \<times> writer" where
  "append_raw w tag value =
     (if overflow w then (unexpected wire_field_value_truncated, w)
      else
        let is_first = (body_start w = None);
            (fits, w) = and_then (and_then (write_tag_eq w tag) (\<lambda>w. write_span w value)) (\<lambda>w. write_byte w SOH) in
        if \<not> fits then (unexpected wire_field_value_truncated, w)
        else if is_first then
          case inject_placeholder w of (fits, w) \<Rightarrow>
            (if fits then ok () else unexpected wire_field_value_truncated, w)
        else (ok (), w))"

text \<open>The typed append, over the \<^verbatim>\<open>format\<close> of the value's type: the number of bytes it rendered
  into the 256 byte scratch buffer, or its error.\<close>

definition append_typed ::
    "('v \<Rightarrow> byte list \<Rightarrow> (nat \<times> byte list) expected_t) \<Rightarrow> writer \<Rightarrow> nat \<Rightarrow> 'v \<Rightarrow> unit expected_t \<times> writer" where
  "append_typed format w tag v =
     (case format v (replicate 256 (CHR 0x00)) of
        Inl e \<Rightarrow> (unexpected e, w)
      | Inr (n, scratch) \<Rightarrow> append_raw w tag (take n scratch))"

subsection \<open>Groups\<close>

record group_writer =
  owned :: bool
  closed :: bool

definition open_group :: "writer \<Rightarrow> nat \<Rightarrow> nat \<Rightarrow> group_writer expected_t \<times> writer" where
  "open_group w no_tag count =
     (case render_u32 count (replicate 12 (CHR 0x00)) of (n, count_buf) \<Rightarrow>
        if n = 0 then (unexpected wire_field_value_truncated, w)
        else case append_raw w no_tag (take n count_buf) of
          (Inl e, w) \<Rightarrow> (unexpected e, w)
        | (Inr _, w) \<Rightarrow> (ok \<lparr>owned = True, closed = False\<rparr>, w))"

definition close_impl :: "group_writer \<Rightarrow> group_writer" where
  "close_impl g = (if closed g \<or> \<not> owned g then g else g\<lparr>closed := True\<rparr>)"

definition group_append_field :: "group_writer \<Rightarrow> writer \<Rightarrow> nat \<Rightarrow> byte list \<Rightarrow> unit expected_t \<times> writer" where
  "group_append_field g w tag value = (if \<not> owned g then (ok (), w) else append_raw w tag value)"

subsection \<open>Committing\<close>

definition commit_checksum :: "byte list \<Rightarrow> nat" where
  "commit_checksum bs = foldl (\<lambda>s b. u32 (s + byte_val b)) 0 bs mod 256"

definition checksum_field :: "nat \<Rightarrow> byte list" where
  "checksum_field c =
     ''10='' @ [digit_char (c div 100), digit_char (c div 10 mod 10), digit_char (c mod 10), SOH]"

text \<open>Close the gap left by the placeholder digits that are not needed.\<close>

definition close_gap :: "writer \<Rightarrow> nat \<Rightarrow> nat \<Rightarrow> nat \<Rightarrow> writer" where
  "close_gap w start gap actual_digits =
     w\<lparr>dst := overwrite (dst w) (start - gap) (sub_span (dst w) start (pos w - start)),
       body_start := Some (start - gap), pos := pos w - gap, bl_digit_count := actual_digits\<rparr>"

definition patch_body_length :: "writer \<Rightarrow> nat \<Rightarrow> nat \<Rightarrow> writer option" where
  "patch_body_length w body_length actual_digits =
     (case render_u32 body_length (replicate 10 (CHR 0x00)) of (n, tmp) \<Rightarrow>
        if n = 0 \<or> n > actual_digits then None
        else
          let p = the (bl_digit_pos w) in
          Some (w\<lparr>dst := (overwrite (dst w) p (take n tmp))[p + n := SOH]\<rparr>))"

definition append_checksum :: "writer \<Rightarrow> nat expected_t \<times> writer" where
  "append_checksum w =
     (let checksum = commit_checksum (take (pos w) (dst w)) in
      if pos w + 7 > length (dst w) then (unexpected wire_field_value_truncated, w\<lparr>overflow := True\<rparr>)
      else (ok (pos w + 7),
            w\<lparr>dst := overwrite (dst w) (pos w) (checksum_field checksum), pos := pos w + 7\<rparr>))"

definition commit :: "writer \<Rightarrow> nat expected_t \<times> writer" where
  "commit w =
     (if overflow w then (unexpected wire_field_value_truncated, w)
      else case body_start w of
        None \<Rightarrow> (unexpected wire_field_value_truncated, w)
      | Some start \<Rightarrow>
          if pos w < start then (unexpected wire_field_value_truncated, w)
          else
            let body_length = u32 (pos w - start); actual_digits = digit_count body_length in
            if actual_digits > bl_digit_count w then (unexpected wire_frame_too_large, w)
            else
              let gap = bl_digit_count w - actual_digits in
              if gap > 0 \<and> start < gap then (unexpected wire_field_value_truncated, w)
              else
                let w = (if gap > 0 then close_gap w start gap actual_digits else w) in
                case patch_body_length w body_length actual_digits of
                  None \<Rightarrow> (unexpected wire_field_value_truncated, w)
                | Some w \<Rightarrow> append_checksum w)"

subsection \<open>Rendering is the reference rendering\<close>

lemma length_dec_digits_eq: "10 ^ k \<le> v \<Longrightarrow> v < 10 ^ Suc k \<Longrightarrow> length (dec_digits v) = Suc k"
  using length_dec_digits_le [of v "Suc k"] length_dec_digits_ge [of k v] by simp

lemma digit_count_length: "v < 10 ^ 10 \<Longrightarrow> digit_count v = length (dec_digits v)"
  using length_dec_digits_eq [of 1 v] length_dec_digits_eq [of 2 v] length_dec_digits_eq [of 3 v]
    length_dec_digits_eq [of 4 v] length_dec_digits_eq [of 5 v] length_dec_digits_eq [of 6 v]
    length_dec_digits_eq [of 7 v] length_dec_digits_eq [of 8 v] length_dec_digits_eq [of 9 v]
    dec_digits_small [of v]
  unfolding digit_count_def by (simp split: if_split)

lemma render_loop_overwrite:
  "n \<le> length buf \<Longrightarrow> render_loop buf v n = overwrite buf 0 (dec_fixed n v)"
proof -
  have "render_loop buf v n = write_digits buf 0 v n" by (induction n arbitrary: buf v) simp_all
  then show "n \<le> length buf \<Longrightarrow> ?thesis" by (simp add: write_digits_overwrite)
qed

lemma render_u32_digits:
  "v < 10 ^ 10 \<Longrightarrow> length (dec_digits v) \<le> length buf \<Longrightarrow>
   render_u32 v buf = (length (dec_digits v), overwrite buf 0 (dec_digits v))"
  by (simp add: render_u32_def digit_count_length Let_def render_loop_overwrite dec_fixed_length_dec_digits)

lemma tag_digits_le: "tag < 2 ^ 16 \<Longrightarrow> length (dec_digits tag) \<le> 5"
  by (rule length_dec_digits_le) simp_all

subsection \<open>Single writes\<close>

text \<open>Every write either puts its bytes at the cursor or leaves the content and raises the
  overflow flag.\<close>

definition put :: "writer \<Rightarrow> byte list \<Rightarrow> writer" where
  "put w s = w\<lparr>dst := overwrite (dst w) (pos w) s, pos := pos w + length s\<rparr>"

definition write_result :: "writer \<Rightarrow> byte list \<Rightarrow> bool \<times> writer" where
  "write_result w s = (if pos w + length s \<le> length (dst w) then (True, put w s) else (False, w\<lparr>overflow := True\<rparr>))"

definition writer_inv :: "writer \<Rightarrow> bool" where
  "writer_inv w \<longleftrightarrow> pos w \<le> length (dst w)"

lemma put_Nil [simp]: "writer_inv w \<Longrightarrow> put w [] = w"
  by (simp add: put_def writer_inv_def)

lemma put_put:
  "pos w + length s + length t \<le> length (dst w) \<Longrightarrow> put (put w s) t = put w (s @ t)"
  by (simp add: put_def overwrite_append add.assoc)

lemma put_fields [simp]:
  "pos (put w s) = pos w + length s" "body_start (put w s) = body_start w"
  "bl_digit_count (put w s) = bl_digit_count w" "bl_digit_pos (put w s) = bl_digit_pos w"
  "overflow (put w s) = overflow w"
  "pos w + length s \<le> length (dst w) \<Longrightarrow> length (dst (put w s)) = length (dst w)"
  by (simp_all add: put_def)

lemma writer_inv_put [simp]: "pos w + length s \<le> length (dst w) \<Longrightarrow> writer_inv (put w s)"
  by (simp add: writer_inv_def)

lemma write_byte_result: "write_byte w b = write_result w [b]"
  by (simp add: write_byte_def write_result_def put_def overwrite_update)

lemma write_span_result: "writer_inv w \<Longrightarrow> write_span w s = write_result w s"
  by (auto simp: write_span_def write_result_def put_def writer_inv_def)

lemma write_tag_eq_result:
  assumes "writer_inv w" "tag < 2 ^ 16"
  shows "write_tag_eq w tag = write_result w (dec_digits tag @ [EQ])"
proof -
  let ?ds = "dec_digits tag"
  have len: "length ?ds \<le> 5" "tag < 10 ^ 10" using tag_digits_le [OF assms(2)] assms(2) by simp_all
  have r: "render_u32 tag (replicate 7 (CHR 0x00)) = (length ?ds, overwrite (replicate 7 (CHR 0x00)) 0 ?ds)"
    using len by (intro render_u32_digits) simp_all
  have "(overwrite (dst w) (pos w) ?ds)[pos w + length ?ds := EQ] = overwrite (dst w) (pos w) (?ds @ [EQ])"
    if "pos w + length ?ds + 1 \<le> length (dst w)"
    using that overwrite_append [of "pos w" ?ds "[EQ]" "dst w"] by (simp add: overwrite_update)
  then show ?thesis
    using len r
    by (simp add: write_tag_eq_def write_tag_eq_at_def write_result_def put_def digit_count_length Let_def)
       (simp add: overwrite_def)
qed

text \<open>Consecutive writes are one write of the concatenation, up to the error state.\<close>

definition same_result :: "bool \<times> writer \<Rightarrow> bool \<times> writer \<Rightarrow> bool" where
  "same_result r r' \<longleftrightarrow> fst r = fst r' \<and> (fst r \<longrightarrow> snd r = snd r') \<and>
     (\<not> fst r \<longrightarrow> overflow (snd r) \<and> length (dst (snd r)) = length (dst (snd r')) \<and> writer_inv (snd r))"

lemma and_then_result:
  assumes "same_result r (write_result w s)" "writer_inv w"
    and "\<And>w'. w' = put w s \<Longrightarrow> writer_inv w' \<Longrightarrow> length (dst w') = length (dst w) \<Longrightarrow> pos w' = pos w + length s \<Longrightarrow>
      same_result (k w') (write_result w' t)"
  shows "same_result (and_then r k) (write_result w (s @ t))"
proof (cases "pos w + length s \<le> length (dst w)")
  case True
  then have r: "fst r" "snd r = put w s" using assms(1) by (simp_all add: same_result_def write_result_def)
  have "same_result (k (put w s)) (write_result (put w s) t)" using True by (intro assms(3)) simp_all
  moreover have "same_result x (write_result (put w s) t) \<Longrightarrow> same_result x (write_result w (s @ t))" for x
    using True by (auto simp: same_result_def write_result_def put_put split: if_splits)
  ultimately show ?thesis using r by (simp add: and_then_def)
next
  case False
  then show ?thesis using assms(1) by (auto simp: same_result_def write_result_def and_then_def)
qed

lemma same_result_refl: "writer_inv w \<Longrightarrow> same_result (write_result w s) (write_result w s)"
  by (simp add: same_result_def write_result_def writer_inv_def)

lemma write_zeros_result:
  "writer_inv w \<Longrightarrow> same_result (write_zeros w n) (write_result w (replicate n (CHR ''0'')))"
proof (induction n arbitrary: w)
  case 0
  then show ?case by (simp add: same_result_def write_result_def writer_inv_def)
next
  case (Suc n)
  have "same_result (and_then (write_byte w (CHR ''0'')) (\<lambda>w. write_zeros w n))
      (write_result w ([CHR ''0''] @ replicate n (CHR ''0'')))"
    using Suc by (intro and_then_result) (simp_all add: write_byte_result same_result_refl)
  then show ?case by simp
qed

subsection \<open>Appending fields\<close>

definition wire_field :: "nat \<Rightarrow> byte list \<Rightarrow> byte list" where
  "wire_field tag value = dec_digits tag @ [EQ] @ value @ [SOH]"

definition placeholder :: "byte list" where
  "placeholder = ''9='' @ replicate max_bl_digits (CHR ''0'') @ [SOH]"

lemma length_placeholder [simp]: "length placeholder = 9"
  by (simp add: placeholder_def max_bl_digits_def)

lemma field_write_result:
  assumes "writer_inv w" "tag < 2 ^ 16"
  shows "same_result (and_then (and_then (write_tag_eq w tag) (\<lambda>w. write_span w value)) (\<lambda>w. write_byte w SOH))
    (write_result w (wire_field tag value))"
proof -
  have "same_result (and_then (write_tag_eq w tag) (\<lambda>w. write_span w value))
      (write_result w ((dec_digits tag @ [EQ]) @ value))"
    using assms by (intro and_then_result) (simp_all add: write_tag_eq_result write_span_result same_result_refl)
  then have "same_result (and_then (and_then (write_tag_eq w tag) (\<lambda>w. write_span w value)) (\<lambda>w. write_byte w SOH))
      (write_result w (((dec_digits tag @ [EQ]) @ value) @ [SOH]))"
    using assms(1) by (rule and_then_result) (simp_all add: write_byte_result same_result_refl)
  then show ?thesis by (simp add: wire_field_def)
qed

lemma put_update [simp]:
  "put (w\<lparr>bl_digit_pos := x, bl_digit_count := n\<rparr>) s = (put w s)\<lparr>bl_digit_pos := x, bl_digit_count := n\<rparr>"
  by (simp add: put_def)

lemma inject_placeholder_result:
  assumes "writer_inv w" "inject_placeholder w = (fits, w')"
  shows "fits \<longleftrightarrow> pos w + 9 \<le> length (dst w)"
    and "fits \<Longrightarrow> w' = (put w placeholder)\<lparr>bl_digit_pos := Some (pos w + 2), bl_digit_count := max_bl_digits,
      body_start := Some (pos w + 9)\<rparr>"
    and "\<not> fits \<Longrightarrow> overflow w' \<and> length (dst w') = length (dst w) \<and> writer_inv w'"
proof -
  let ?r = "and_then (write_byte w (CHR ''9'')) (\<lambda>w. write_byte w EQ)"
  have r: "same_result ?r (write_result w ([CHR ''9''] @ [EQ]))"
    using assms(1) by (intro and_then_result) (simp_all add: write_byte_result same_result_refl)
  have z: "same_result (and_then (write_zeros v max_bl_digits) (\<lambda>w. write_byte w SOH))
      (write_result v (replicate max_bl_digits (CHR ''0'') @ [SOH]))" if "writer_inv v" for v
    using that write_zeros_result [OF that, of max_bl_digits]
    by (intro and_then_result) (simp_all add: write_byte_result same_result_refl)
  let ?v = "(put w ''9='')\<lparr>bl_digit_pos := Some (pos w + 2), bl_digit_count := max_bl_digits\<rparr>"
  have "(fits \<longleftrightarrow> pos w + 9 \<le> length (dst w)) \<and>
    (fits \<longrightarrow> w' = (put w placeholder)\<lparr>bl_digit_pos := Some (pos w + 2), bl_digit_count := max_bl_digits,
      body_start := Some (pos w + 9)\<rparr>) \<and>
    (\<not> fits \<longrightarrow> overflow w' \<and> length (dst w') = length (dst w) \<and> writer_inv w')"
  proof (cases "pos w + 2 \<le> length (dst w)")
    case True
    then have rr: "?r = (True, put w ''9='')" using r by (auto simp: same_result_def write_result_def prod_eq_iff)
    have "writer_inv ?v" "length (dst ?v) = length (dst w)" using True by (simp_all add: writer_inv_def)
    then show ?thesis
      using z [of ?v] assms(2) True unfolding inject_placeholder_def rr
      by (auto simp: same_result_def write_result_def and_then_def placeholder_def max_bl_digits_def put_put
          split: if_splits)
  next
    case False
    then show ?thesis
      using r assms(2) by (auto simp: inject_placeholder_def same_result_def write_result_def and_then_def
          split: if_splits)
  qed
  then show "fits \<longleftrightarrow> pos w + 9 \<le> length (dst w)"
    and "fits \<Longrightarrow> w' = (put w placeholder)\<lparr>bl_digit_pos := Some (pos w + 2), bl_digit_count := max_bl_digits,
      body_start := Some (pos w + 9)\<rparr>"
    and "\<not> fits \<Longrightarrow> overflow w' \<and> length (dst w') = length (dst w) \<and> writer_inv w'" by simp_all
qed

text \<open>A writer that holds the first field \<open>h\<close>, the placeholder and the body bytes \<open>b\<close>.\<close>

definition written :: "writer \<Rightarrow> byte list" where
  "written w = take (pos w) (dst w)"

lemma written_put [simp]: "pos w + length s \<le> length (dst w) \<Longrightarrow> written (put w s) = written w @ s"
  by (simp add: written_def put_def take_overwrite)

definition composing :: "writer \<Rightarrow> byte list \<Rightarrow> byte list \<Rightarrow> bool" where
  "composing w h b \<longleftrightarrow> \<not> overflow w \<and> writer_inv w \<and> written w = h @ placeholder @ b \<and>
     body_start w = Some (length h + 9) \<and> bl_digit_pos w = Some (length h + 2) \<and> bl_digit_count w = max_bl_digits"

lemma composing_pos: "composing w h b \<Longrightarrow> pos w = length h + 9 + length b"
  by (auto simp: composing_def written_def writer_inv_def dest!: arg_cong [where f = length])

text \<open>The first field, and each further one.\<close>

lemma append_raw_first:
  assumes "tag < 2 ^ 16" "append_raw (writer_new d) tag value = (r, w)"
  shows "length (dst w) = length d \<and> writer_inv w \<and>
    (if length (wire_field tag value) + 9 \<le> length d
     then r = ok () \<and> composing w (wire_field tag value) []
     else r = unexpected wire_field_value_truncated \<and> overflow w)"
proof -
  let ?w = "writer_new d" and ?f = "wire_field tag value"
  obtain p v where f: "and_then (and_then (write_tag_eq ?w tag) (\<lambda>w. write_span w value)) (\<lambda>w. write_byte w SOH) = (p, v)"
    by fastforce
  have inv: "writer_inv ?w" by (simp add: writer_inv_def writer_new_def)
  note s = field_write_result [OF inv assms(1), of "value", unfolded f]
  show ?thesis
  proof (cases "length ?f \<le> length d")
    case True
    then have p: "p" "v = put ?w ?f" using s by (auto simp: same_result_def write_result_def writer_new_def)
    obtain q u where i: "inject_placeholder v = (q, u)" by fastforce
    have v: "writer_inv v" "pos v = length ?f" "length (dst v) = length d" "written v = ?f" "\<not> overflow v"
      using True by (simp_all add: p(2) writer_new_def) (simp_all add: written_def)
    note i' = inject_placeholder_result [OF v(1) i]
    have "append_raw ?w tag value = (if q then ok () else unexpected wire_field_value_truncated, u)"
      using f p(1) i by (simp add: append_raw_def writer_new_def Let_def)
    then show ?thesis using assms(2) i' v take_overwrite [of "length ?f" placeholder "dst v"]
      by (auto simp: composing_def writer_inv_def written_def put_def)
  next
    case False
    then have "\<not> p" "overflow v" "length (dst v) = length d" "writer_inv v"
      using s by (auto simp: same_result_def write_result_def writer_new_def)
    then show ?thesis using assms(2) f False by (simp add: append_raw_def writer_new_def Let_def)
  qed
qed

lemma append_raw_next:
  assumes "composing w h b" "tag < 2 ^ 16" "append_raw w tag value = (r, w')"
  shows "length (dst w') = length (dst w) \<and> writer_inv w' \<and>
    (if pos w + length (wire_field tag value) \<le> length (dst w)
     then r = ok () \<and> composing w' h (b @ wire_field tag value)
     else r = unexpected wire_field_value_truncated \<and> overflow w')"
proof -
  have c: "writer_inv w" "\<not> overflow w" "body_start w \<noteq> None" using assms(1) by (auto simp: composing_def)
  show ?thesis
    using field_write_result [OF c(1) assms(2), of "value"] assms c
    by (auto simp: append_raw_def Let_def same_result_def write_result_def composing_def split: if_splits prod.splits)
qed

subsection \<open>Committing\<close>

lemma checksum_field_fixed: "c < 256 \<Longrightarrow> checksum_field c = ''10='' @ dec_fixed 3 c @ [SOH]"
proof -
  assume "c < 256"
  then have "c div 10 div 10 mod 10 = c div 100" by (simp add: div_mult2_eq [symmetric])
  then show ?thesis by (simp add: checksum_field_def numeral_3_eq_3)
qed

lemma commit_checksum_byte_sum: "commit_checksum bs = byte_sum bs"
  using checksum_fold [of 0 bs] by (simp add: commit_checksum_def byte_sum_def)

text \<open>The bytes before the trailer, once the length is known.\<close>

definition message_prefix :: "byte list \<Rightarrow> byte list \<Rightarrow> byte list" where
  "message_prefix h b = h @ ''9='' @ dec_digits (length b) @ [SOH] @ b"

definition message_bytes :: "byte list \<Rightarrow> byte list \<Rightarrow> byte list" where
  "message_bytes h b = message_prefix h b @ checksum_field (byte_sum (message_prefix h b))"

lemma length_message_bytes: "length (message_bytes h b) = length h + length (dec_digits (length b)) + length b + 10"
  by (simp add: message_bytes_def message_prefix_def checksum_field_def)

lemma overwrite_middle: "length x = length y \<Longrightarrow> overwrite (a @ x @ z) (length a) y = a @ y @ z"
  by (simp add: overwrite_def)

text \<open>Closing the gap leaves exactly room for the digits and their SOH.\<close>

lemma close_gap_layout:
  assumes c: "composing w h b" and bl: "length (dec_digits (length b)) \<le> max_bl_digits"
    and gap: "gap = max_bl_digits - length (dec_digits (length b))"
    and w': "w' = (if gap > 0 then close_gap w (length h + 9) gap (length (dec_digits (length b))) else w)"
  shows "\<exists>x z. dst w' = (h @ ''9='') @ x @ b @ z \<and> length x = length (dec_digits (length b)) + 1 \<and>
    pos w' = length h + 3 + length (dec_digits (length b)) + length b \<and> length (dst w') = length (dst w) \<and>
    bl_digit_pos w' = Some (length h + 2) \<and> writer_inv w' \<and> \<not> overflow w'"
proof -
  let ?k = "length (dec_digits (length b))" and ?p = "replicate max_bl_digits (CHR ''0'') @ [SOH]"
  have p: "pos w = length h + 9 + length b" and inv: "pos w \<le> length (dst w)" and o: "\<not> overflow w"
    and d: "bl_digit_pos w = Some (length h + 2)"
    using c composing_pos [OF c] by (simp_all add: composing_def writer_inv_def)
  define z where "z = drop (pos w) (dst w)"
  have dst: "dst w = (h @ ''9='') @ ?p @ b @ z"
    using c append_take_drop_id [of "pos w" "dst w"] by (simp add: composing_def written_def placeholder_def z_def)
  have len: "length (dst w) = length h + 9 + length b + length z" using dst by (simp add: max_bl_digits_def)
  show ?thesis
  proof (cases "gap = 0")
    case True
    then have "?k = max_bl_digits" using gap bl by simp
    then show ?thesis using True w' p o d dst inv
      by (intro exI [of _ ?p] exI [of _ z]) (simp_all add: writer_inv_def max_bl_digits_def)
  next
    case False
    have g: "gap \<le> 5" "?k + gap = 6" using gap bl dec_digits_not_Nil [of "length b"]
      by (cases "dec_digits (length b)"; simp add: max_bl_digits_def)+
    have src: "sub_span (dst w) (length h + 9) (pos w - (length h + 9)) = b"
      unfolding dst p by (simp add: sub_span_def max_bl_digits_def)
    have "take (length h + 9 - gap) (dst w) = (h @ ''9='') @ take (?k + 1) ?p"
    proof -
      have "length h + 9 - gap = length (h @ ''9='') + (?k + 1)" "?k + 1 \<le> length ?p"
        using g by (simp_all add: max_bl_digits_def)
      then show ?thesis unfolding dst by (simp only: take_append) simp
    qed
    then have "dst w' = (h @ ''9='') @ take (?k + 1) ?p @ b @ drop (length h + 9 - gap + length b) (dst w)"
      using False w' by (simp add: close_gap_def src overwrite_def)
    moreover have "length (take (?k + 1) ?p) = ?k + 1" using g by (simp add: max_bl_digits_def)
    moreover have "pos w' = length h + 3 + ?k + length b" using False w' p g by (simp add: close_gap_def)
    moreover have "length (dst w') = length (dst w)" using False w' len g by (simp add: close_gap_def src)
    ultimately show ?thesis using False w' o d g p inv
      by (intro exI [of _ "take (?k + 1) ?p"] exI [of _ "drop (length h + 9 - gap + length b) (dst w)"])
        (simp add: close_gap_def writer_inv_def)
  qed
qed

lemma patch_layout:
  assumes "dst w = (h @ ''9='') @ x @ r" "length x = length (dec_digits n) + 1" "bl_digit_pos w = Some (length h + 2)"
    "n < 10 ^ 10"
  shows "patch_body_length w n (length (dec_digits n)) = Some (w\<lparr>dst := h @ ''9='' @ dec_digits n @ [SOH] @ r\<rparr>)"
proof -
  let ?d = "dec_digits n"
  have "length ?d \<le> 10" using assms(4) by (intro length_dec_digits_le) simp_all
  then have r: "render_u32 n (replicate 10 (CHR 0x00)) = (length ?d, overwrite (replicate 10 (CHR 0x00)) 0 ?d)"
    using assms(4) by (intro render_u32_digits) simp_all
  have t: "take (length ?d) (overwrite (replicate 10 (CHR 0x00)) 0 ?d) = ?d" by (simp add: overwrite_def)
  obtain y c where x: "x = y @ [c]" "length y = length ?d" using assms(2) by (cases x rule: rev_cases) auto
  have "(overwrite (dst w) (length h + 2) ?d)[length h + 2 + length ?d := SOH] = h @ ''9='' @ ?d @ [SOH] @ r"
    unfolding assms(1) x using x(2) overwrite_middle [of y ?d "h @ ''9=''" "c # r"]
    by (simp add: list_update_append)
  then show ?thesis using r t assms(3) by (simp add: patch_body_length_def Let_def)
qed

lemma commit_result:
  assumes c: "composing w h b" and small: "length b < 2 ^ 32" and r: "commit w = (r, w')"
  shows "length (dst w') = length (dst w) \<and>
    (if length b > 999999 then r = unexpected wire_frame_too_large
     else if length (message_bytes h b) > length (dst w) then r = unexpected wire_field_value_truncated
     else r = ok (length (message_bytes h b)) \<and> take (length (message_bytes h b)) (dst w') = message_bytes h b)"
proof -
  let ?d = "dec_digits (length b)"
  have p: "pos w = length h + 9 + length b" by (rule composing_pos [OF c])
  have f: "\<not> overflow w" "body_start w = Some (length h + 9)" "bl_digit_count w = max_bl_digits"
    using c by (simp_all add: composing_def)
  have lb: "length b < 10 ^ 10" using small by simp
  have u: "u32 (pos w - (length h + 9)) = length b" using p small by simp
  have six: "length ?d \<le> max_bl_digits \<longleftrightarrow> length b < 1000000"
    using length_dec_digits_iff [of 6 "length b"] by (simp add: max_bl_digits_def)
  show ?thesis
  proof (cases "length ?d \<le> max_bl_digits")
    case False
    then show ?thesis using r f u p six by (simp add: commit_def Let_def digit_count_length [OF lb])
  next
    case True
    define gap where "gap = max_bl_digits - length ?d"
    define v where "v = (if gap > 0 then close_gap w (length h + 9) gap (length ?d) else w)"
    obtain x z where v: "dst v = (h @ ''9='') @ x @ b @ z" "length x = length ?d + 1"
      "pos v = length h + 3 + length ?d + length b" "length (dst v) = length (dst w)"
      "bl_digit_pos v = Some (length h + 2)" "writer_inv v"
      using close_gap_layout [OF c True gap_def v_def] by blast
    let ?u = "v\<lparr>dst := message_prefix h b @ z\<rparr>"
    have pt: "patch_body_length v (length b) (length ?d) = Some ?u"
      using patch_layout [OF v(1,2,5) lb] by (simp add: message_prefix_def)
    have pre: "length (message_prefix h b) = pos v" "length (message_prefix h b @ z) = length (dst w)"
      using v by (simp_all add: message_prefix_def)
    have "\<not> length h + 9 < gap" unfolding gap_def max_bl_digits_def by linarith
    then have "commit w = append_checksum ?u"
      using f u p True pt
      by (cases "gap = 0") (simp_all add: commit_def Let_def digit_count_length [OF lb] gap_def [symmetric] v_def)
    then show ?thesis
      using r pre six True
      by (auto simp: append_checksum_def message_bytes_def commit_checksum_byte_sum checksum_field_def
          overwrite_def split: if_splits)
  qed
qed

subsection \<open>A whole message\<close>

text \<open>The calls a sender makes: the fields in order, then the commit.\<close>

fun append_all :: "writer \<Rightarrow> (nat \<times> byte list) list \<Rightarrow> unit expected_t \<times> writer" where
  "append_all w [] = (ok (), w)"
| "append_all w ((tag, value) # fs) =
     (case append_raw w tag value of
        (Inl e, w) \<Rightarrow> (unexpected e, w)
      | (Inr _, w) \<Rightarrow> append_all w fs)"

definition write_message :: "byte list \<Rightarrow> (nat \<times> byte list) list \<Rightarrow> nat expected_t \<times> writer" where
  "write_message d fs =
     (case append_all (writer_new d) fs of
        (Inl e, w) \<Rightarrow> (unexpected e, w)
      | (Inr _, w) \<Rightarrow> commit w)"

definition wire_fields :: "(nat \<times> byte list) list \<Rightarrow> byte list" where
  "wire_fields fs = concat (map (\<lambda>(tag, value). wire_field tag value) fs)"

abbreviation tags_ok :: "(nat \<times> byte list) list \<Rightarrow> bool" where
  "tags_ok fs \<equiv> \<forall>(tag, value) \<in> set fs. tag < 2 ^ 16"

lemma wire_fields_simps [simp]:
  "wire_fields [] = []" "wire_fields ((tag, value) # fs) = wire_field tag value @ wire_fields fs"
  by (simp_all add: wire_fields_def)

lemma append_all_result:
  assumes "composing w h b" "tags_ok fs" "append_all w fs = (r, w')"
  shows "length (dst w') = length (dst w) \<and>
    (if pos w + length (wire_fields fs) \<le> length (dst w) then r = ok () \<and> composing w' h (b @ wire_fields fs)
     else r = unexpected wire_field_value_truncated)"
  using assms
proof (induction fs arbitrary: w b)
  case Nil
  then show ?case by (simp add: composing_def writer_inv_def)
next
  case (Cons f fs)
  obtain tag val where f: "f = (tag, val)" by fastforce
  obtain r1 w1 where a: "append_raw w tag val = (r1, w1)" by fastforce
  have t: "tag < 2 ^ 16" "tags_ok fs" using Cons.prems(2) f by auto
  note n = append_raw_next [OF Cons.prems(1) t(1) a]
  show ?case
  proof (cases "pos w + length (wire_field tag val) \<le> length (dst w)")
    case True
    then have r1: "r1 = ok ()" "composing w1 h (b @ wire_field tag val)" "length (dst w1) = length (dst w)"
      using n by simp_all
    have "pos w1 = pos w + length (wire_field tag val)"
      using composing_pos [OF r1(2)] composing_pos [OF Cons.prems(1)] by simp
    then show ?thesis using Cons.IH [OF r1(2) t(2)] Cons.prems(3) f a r1 by (simp add: add.assoc split: if_splits)
  next
    case False
    then show ?thesis using n Cons.prems(3) f a by auto
  qed
qed

lemma write_message_result:
  assumes "tags_ok ((tag, value) # fs)" "length d < 2 ^ 32" "write_message d ((tag, value) # fs) = (r, w)"
    and "h = wire_field tag value" "b = wire_fields fs"
  shows "length (dst w) = length d \<and>
    (if length h + 9 + length b > length d then r = unexpected wire_field_value_truncated
     else if length b > 999999 then r = unexpected wire_frame_too_large
     else if length (message_bytes h b) > length d then r = unexpected wire_field_value_truncated
     else r = ok (length (message_bytes h b)) \<and> take (length (message_bytes h b)) (dst w) = message_bytes h b)"
proof -
  obtain r1 w1 where a: "append_raw (writer_new d) tag value = (r1, w1)" by fastforce
  obtain r2 w2 where b: "append_all w1 fs = (r2, w2)" by fastforce
  have t: "tag < 2 ^ 16" "tags_ok fs" using assms(1) by auto
  note n1 = append_raw_first [OF t(1) a]
  show ?thesis
  proof (cases "length h + 9 \<le> length d")
    case False
    then show ?thesis using n1 a assms(3,4) by (simp add: write_message_def)
  next
    case True
    then have c: "r1 = ok ()" "composing w1 h []" "length (dst w1) = length d" using n1 assms(4) by simp_all
    have pos: "pos w1 = length h + 9" using composing_pos [OF c(2)] by simp
    note n2 = append_all_result [OF c(2) t(2) b]
    show ?thesis
    proof (cases "length h + 9 + length (wire_fields fs) \<le> length d")
      case False
      then show ?thesis using n2 a b c pos assms(3,5) by (simp add: write_message_def)
    next
      case True
      then have c2: "r2 = ok ()" "composing w2 h (wire_fields fs)" "length (dst w2) = length d"
        using n2 c(3) pos by simp_all
      have "commit w2 = (r, w)" using assms(3) a b c c2 by (simp add: write_message_def)
      then show ?thesis using commit_result [OF c2(2)] True assms(2,5) c2(3) by simp
    qed
  qed
qed

text \<open>C22. What writing a message does, exactly.  If the fields and the six-digit BodyLength
  placeholder do not fit, or the finished message does not, the result is
  \<^verbatim>\<open>wire_field_value_truncated\<close>; a body over 999999 bytes is \<^verbatim>\<open>wire_frame_too_large\<close>; and
  otherwise the buffer starts with the first field, the shortest BodyLength of the remaining
  fields, those fields byte for byte, and the three-digit CheckSum of everything before it.
  No write reaches beyond the buffer.\<close>

theorem write_message_exact:
  assumes "tags_ok ((tag, value) # fs)" "length d < 2 ^ 32" "write_message d ((tag, value) # fs) = (r, w)"
    and "h = wire_field tag value" "b = wire_fields fs"
  shows "length (dst w) = length d \<and>
    (if length h + 9 + length b > length d then r = unexpected wire_field_value_truncated
     else if length b > 999999 then r = unexpected wire_frame_too_large
     else if length (message_bytes h b) > length d then r = unexpected wire_field_value_truncated
     else r = ok (length (message_bytes h b)) \<and> take (length (message_bytes h b)) (dst w) = message_bytes h b)"
  by (rule write_message_result [OF assms])

lemma message_bytes_sample: "message_bytes (wire_field 8 ''FIX.4.2'') (wire_field 35 ''0'') = sample_frame"
proof -
  have l: "length (wire_field 35 ''0'') = 5" by (simp add: wire_field_def dec_digits.simps)
  show ?thesis unfolding message_bytes_def message_prefix_def l
    by (simp add: wire_field_def dec_digits.simps checksum_field_def byte_sum_def digit_char_simps sample_frame_def)
qed

theorem write_message_exact_witness:
  "fst (write_message (replicate 64 (CHR ''x'')) [(8, ''FIX.4.2''), (35, ''0'')]) = ok 26 \<and>
   take 26 (dst (snd (write_message (replicate 64 (CHR ''x'')) [(8, ''FIX.4.2''), (35, ''0'')]))) = sample_frame"
proof -
  let ?h = "wire_field 8 ''FIX.4.2''" and ?b = "wire_fields [(35, ''0'')]"
  obtain r w where rw: "write_message (replicate 64 (CHR ''x'')) [(8, ''FIX.4.2''), (35, ''0'')] = (r, w)" by fastforce
  have len: "length ?h = 10" "length ?b = 5"
    by (simp_all add: wire_field_def dec_digits.simps)
  have "tags_ok [(8, ''FIX.4.2''), (35, ''0'')]" "length (replicate 64 (CHR ''x'')) < 2 ^ 32" by simp_all
  from write_message_exact [OF this rw refl refl] show ?thesis
    using rw len by (simp add: message_bytes_sample length_sample_frame)
qed

subsection \<open>Groups and typed values\<close>

text \<open>A group counter is the field with the counter's digits, and a canonical decimal the field
  with the decimal's characters.\<close>

lemma open_group_append:
  assumes "count < 2 ^ 32"
  shows "open_group w no_tag count =
    (case append_raw w no_tag (dec_digits count) of
       (Inl e, w) \<Rightarrow> (unexpected e, w) | (Inr _, w) \<Rightarrow> (ok \<lparr>owned = True, closed = False\<rparr>, w))"
proof -
  have "count < 10 ^ 10" "length (dec_digits count) \<le> 10"
    using assms by (simp, intro length_dec_digits_le) simp_all
  then have "render_u32 count (replicate 12 (CHR 0x00)) =
      (length (dec_digits count), overwrite (replicate 12 (CHR 0x00)) 0 (dec_digits count))"
    by (intro render_u32_digits) simp_all
  then show ?thesis by (simp add: open_group_def) (simp add: overwrite_def)
qed

lemma append_decimal:
  assumes "pod_canonical v"
  shows "append_typed to_chars w tag v = append_raw w tag (chars_of v)"
proof -
  have "length (chars_of v) \<le> 41" using chars_of_parses [OF assms] by blast
  then show ?thesis using assms by (simp add: append_typed_def to_chars_canonical overwrite_def)
qed

subsection \<open>Written messages are frames\<close>

text \<open>A finished message is the encoding of its fields with the BodyLength and the CheckSum, and a
  frame of the framer.\<close>

definition framed_fields :: "byte list \<Rightarrow> (nat \<times> byte list) list \<Rightarrow> (nat \<times> byte list) list" where
  "framed_fields bs fs = (8, bs) # (9, dec_digits (length (wire_fields fs))) # fs @
     [(10, dec_fixed 3 (byte_sum (message_prefix (wire_field 8 bs) (wire_fields fs))))]"

lemma wire_fields_append [simp]: "wire_fields (fs @ gs) = wire_fields fs @ wire_fields gs"
  by (simp add: wire_fields_def)

lemma message_as_fields: "message_bytes (wire_field 8 bs) (wire_fields fs) = wire_fields (framed_fields bs fs)"
proof -
  have "dec_digits 9 = ''9''" "dec_digits 10 = ''10''" by (simp_all add: dec_digits.simps digit_char_simps)
  then show ?thesis
    by (simp add: message_bytes_def framed_fields_def checksum_field_fixed [OF byte_sum_less])
       (simp add: message_prefix_def wire_field_def)
qed

lemma last_wire_fields: "fs \<noteq> [] \<Longrightarrow> wire_fields fs \<noteq> [] \<and> last (wire_fields fs) = SOH"
  by (induction fs rule: rev_induct) (auto simp: wire_field_def split: prod.split)

lemma message_fix_frame:
  assumes "SOH \<notin> set bs" "fs \<noteq> []" "b = wire_fields fs"
  shows "fix_frame (message_bytes (wire_field 8 bs) b) (length (wire_field 8 bs) + 3 + length (dec_digits (length b))) (length b)"
proof -
  let ?bl = "dec_digits (length b)" and ?cs = "dec_fixed 3 (byte_sum (message_prefix (wire_field 8 bs) b))"
  have h: "frame_header bs ?bl @ b = message_prefix (wire_field 8 bs) b"
    by (simp add: frame_header_def message_prefix_def wire_field_def dec_digits.simps digit_char_simps)
  have "message_bytes (wire_field 8 bs) b = frame_of bs ?bl b ?cs"
    by (simp add: message_bytes_def frame_of_def checksum_field_fixed [OF byte_sum_less] h [symmetric])
  moreover have "dec_value ?cs = byte_sum (frame_header bs ?bl @ b)" "digits ?cs" "length ?cs = 3"
    unfolding h using byte_sum_less [of "message_prefix (wire_field 8 bs) b"] by (simp_all add: dec_value_dec_fixed)
  moreover have "length (frame_header bs ?bl) = length (wire_field 8 bs) + 3 + length ?bl"
    by (simp add: frame_header_def wire_field_def dec_digits.simps)
  ultimately show ?thesis
    unfolding fix_frame_def using assms last_wire_fields [OF assms(2)]
    by (intro exI [of _ bs] exI [of _ ?bl] exI [of _ b] exI [of _ ?cs]) simp
qed

end
