(* ===== verification/Fixpp_OffsetTable.thy ===== *)
theory Fixpp_OffsetTable
  imports Fixpp_Writer Fixpp_LengthData
begin

text \<open>
  The field scan of \<^verbatim>\<open>OffsetTable::build\<close> (\<^verbatim>\<open>src/wire/offset_table.cpp\<close>): one pass over
  the bytes of a frame that records, for every field, its tag and where its value lies.

  The memory resource the table allocates from is a parameter, \<open>arena\<close>: which of the
  allocations of a build fail.  Offsets, lengths and tags are stored through the casts
  \<^const>\<open>u32\<close> and \<^const>\<open>u16\<close> of the source.
\<close>

record entry =
  ent_offset :: nat
  ent_length :: nat
  ent_tag :: nat
  group_index_link :: nat

record table_config =
  max_offset_entries :: nat
  max_group_entries_per_instance :: nat

definition table_config_default :: table_config where
  "table_config_default = \<lparr>max_offset_entries = 4096, max_group_entries_per_instance = 4096\<rparr>"

record arena =
  reserve_fails :: "nat \<Rightarrow> bool"
  push_fails :: "nat \<Rightarrow> bool"
  overlay_fails :: bool
  slices_fail :: bool

definition arena_ample :: arena where
  "arena_ample = \<lparr>reserve_fails = (\<lambda>_. False), push_fails = (\<lambda>_. False), overlay_fails = False, slices_fail = False\<rparr>"

subsection \<open>The scan\<close>

text \<open>The digits of a tag, up to \<^verbatim>\<open>=\<close>, SOH or the end.\<close>

function tag_scan :: "byte list \<Rightarrow> nat \<Rightarrow> nat \<Rightarrow> (nat \<times> nat) expected_t" where
  "tag_scan buf i tag =
     (if i < length buf \<and> buf ! i \<noteq> EQ \<and> buf ! i \<noteq> SOH then
        if \<not> is_digit (buf ! i) then unexpected wire_invalid_field_format
        else case accumulate_tag_digit tag (buf ! i) of (tag, fits) \<Rightarrow>
          if \<not> fits then unexpected wire_tag_out_of_range else tag_scan buf (i + 1) tag
      else ok (i, tag))"
  by pat_completeness auto
termination
  by (relation "measure (\<lambda>(buf, i, tag). length buf - i)") auto

declare tag_scan.simps [simp del]

text \<open>The count a Length field announces, bounded by \<open>cap\<close>.\<close>

fun data_length_loop :: "nat \<Rightarrow> nat \<Rightarrow> byte list \<Rightarrow> nat" where
  "data_length_loop cap dlen [] = dlen"
| "data_length_loop cap dlen (c # bytes) =
     (if \<not> is_digit c then dlen else data_length_loop cap (fst (accumulate_bounded dlen c cap)) bytes)"

text \<open>The value of field \<open>tag\<close> from \<open>val_start\<close>, under the carried Data tag and count of the
  field before it: the length of the value, where the next field starts, and the new carry.\<close>

definition scan_value ::
    "dict_hooks \<Rightarrow> byte list \<Rightarrow> nat \<times> nat \<Rightarrow> nat \<Rightarrow> nat \<Rightarrow> (nat \<times> nat \<times> (nat \<times> nat)) expected_t" where
  "scan_value hooks buf carry tag val_start =
     (let n = length buf; (ctag, clen) = carry in
      if ctag \<noteq> 0 \<and> u16 tag = ctag then
        if clen > n - val_start then unexpected wire_invalid_field_format
        else
          let e = val_start + clen in
          if e \<ge> n \<or> buf ! e \<noteq> SOH then unexpected wire_invalid_field_format
          else ok (clen, e + 1, (0, 0))
      else
        let i = next_soh buf val_start;
            val_len = i - val_start;
            i = (if i < n then i + 1 else i);
            dt = data_tag_for_length hooks (u16 tag) in
        ok (val_len, i,
          if dt \<noteq> 0
          then (dt, data_length_loop (u32 (if n > 0xFFFFFFFF then 0xFFFFFFFF else n)) 0 (sub_span buf val_start val_len))
          else (0, 0)))"

lemma tag_scan_bounds: "tag_scan buf i tag = ok (j, t) \<Longrightarrow> i \<le> j"
proof (induction buf i tag rule: tag_scan.induct)
  case (1 buf i tag)
  then show ?case by (subst (asm) (2) tag_scan.simps) (fastforce split: if_splits prod.splits)
qed

lemma scan_value_bounds:
  assumes "scan_value hooks buf carry tag vs = ok (len, i, carry')" "vs \<le> length buf"
  shows "vs + len \<le> length buf \<and> vs \<le> i \<and> i = min (vs + len + 1) (length buf)"
  using assms next_soh_bounds [OF assms(2)]
  by (auto simp: scan_value_def Let_def split: if_splits prod.splits)

lemma scan_progress:
  assumes "tag_scan buf i 0 = ok (j, t)" "scan_value hooks buf carry t (Suc j) = ok (len, i', carry')"
    "\<not> length buf \<le> j" "i < length buf"
  shows "length buf - i' < length buf - i"
proof -
  have "Suc j \<le> length buf" using assms(3) by linarith
  from scan_value_bounds [OF assms(2) this] have "Suc j \<le> i'" by blast
  with tag_scan_bounds [OF assms(1)] assms(4) show ?thesis by linarith
qed

function scan_fields ::
    "arena \<Rightarrow> dict_hooks \<Rightarrow> table_config \<Rightarrow> byte list \<Rightarrow> nat \<Rightarrow> nat \<times> nat \<Rightarrow> entry list \<Rightarrow> entry list expected_t" where
  "scan_fields mr hooks cfg buf i carry acc =
     (if i < length buf then
        case tag_scan buf i 0 of
          Inl e \<Rightarrow> unexpected e
        | Inr (j, tag) \<Rightarrow>
            if j \<ge> length buf \<or> buf ! j \<noteq> EQ \<or> j = i then unexpected wire_invalid_field_format
            else case scan_value hooks buf carry tag (j + 1) of
              Inl e \<Rightarrow> unexpected e
            | Inr (val_len, i', carry') \<Rightarrow>
                if length acc \<ge> max_offset_entries cfg then unexpected wire_offset_table_full
                else if push_fails mr (length acc) then unexpected out_of_memory
                else scan_fields mr hooks cfg buf i' carry'
                  (acc @ [\<lparr>ent_offset = u32 (j + 1), ent_length = u32 val_len, ent_tag = u16 tag, group_index_link = 0\<rparr>])
      else ok acc)"
  by pat_completeness auto
termination
  by (relation "measure (\<lambda>(mr, hooks, cfg, buf, i, carry, acc). length buf - i)")
     (auto intro: scan_progress)

declare scan_fields.simps [simp del]

subsection \<open>Scanning what the writer writes\<close>

lemma tag_scan_digits:
  assumes "buf = pre @ ds @ EQ # rest" "digits ds" "dec_acc tag ds \<le> 0xFFFF"
  shows "tag_scan buf (length pre) tag = ok (length pre + length ds, dec_acc tag ds)"
  using assms
proof (induction ds arbitrary: pre tag)
  case Nil
  then show ?case by (subst tag_scan.simps) simp
next
  case (Cons c ds)
  have c: "is_digit c" "digits ds" using Cons.prems(2) by simp_all
  have le: "tag * 10 + digit_val c \<le> 0xFFFF"
    using Cons.prems(3) dec_acc_mono [of "tag * 10 + digit_val c" ds] by simp
  have nth: "buf ! length pre = c" using Cons.prems(1) by simp
  have "tag_scan buf (length (pre @ [c])) (tag * 10 + digit_val c) =
      ok (length (pre @ [c]) + length ds, dec_acc (tag * 10 + digit_val c) ds)"
    using Cons.prems by (intro Cons.IH) simp_all
  then show ?case
    using Cons.prems(1) c nth le by (subst tag_scan.simps) (simp add: accumulate_tag_digit_exact)
qed

lemma data_length_loop_value:
  "digits ds \<Longrightarrow> dec_acc dlen ds \<le> cap \<Longrightarrow> cap < 2 ^ 32 \<Longrightarrow> data_length_loop cap dlen ds = dec_acc dlen ds"
proof (induction ds arbitrary: dlen)
  case (Cons c ds)
  have c: "is_digit c" "digit_val c < 10" using Cons.prems(1) by (simp_all add: digit_val_less)
  have le: "dlen * 10 + digit_val c \<le> cap"
    using Cons.prems(2) dec_acc_mono [of "dlen * 10 + digit_val c" ds] by simp
  then have "u32_sub cap (digit_val c) = cap - digit_val c" using Cons.prems(3) by (intro u32_sub_id) simp_all
  then have "fst (accumulate_bounded dlen c cap) = dlen * 10 + digit_val c"
    using c le Cons.prems(3) cap_guard [OF c(2), of cap dlen] by (simp add: accumulate_bounded_def Let_def)
  then show ?case using Cons c by simp
qed simp

text \<open>The entry of a field that starts at \<open>p\<close>.\<close>

definition field_entry :: "nat \<Rightarrow> nat \<Rightarrow> byte list \<Rightarrow> entry" where
  "field_entry p tag v =
     \<lparr>ent_offset = p + length (dec_digits tag) + 1, ent_length = length v, ent_tag = tag, group_index_link = 0\<rparr>"

lemma length_wire_field: "length (wire_field tag v) = length (dec_digits tag) + length v + 2"
  by (simp add: wire_field_def)

text \<open>One field, up to how its value is delimited.\<close>

lemma scan_step:
  assumes buf: "buf = pre @ wire_field tag v @ rest" and tag: "tag < 2 ^ 16" and n: "length buf < 2 ^ 32"
    and val: "scan_value hooks buf carry tag (length pre + length (dec_digits tag) + 1) =
      ok (length v, length pre + length (wire_field tag v), carry')"
    and room: "length acc < max_offset_entries cfg" "\<not> push_fails mr (length acc)"
  shows "scan_fields mr hooks cfg buf (length pre) carry acc =
    scan_fields mr hooks cfg buf (length (pre @ wire_field tag v)) carry' (acc @ [field_entry (length pre) tag v])"
proof -
  let ?ds = "dec_digits tag"
  have b: "buf = pre @ ?ds @ EQ # v @ SOH # rest" using buf by (simp add: wire_field_def)
  have t: "tag_scan buf (length pre) 0 = ok (length pre + length ?ds, tag)"
    using tag_scan_digits [OF b, of 0] tag by (simp flip: dec_value_def)
  have "buf ! (length pre + length ?ds) = EQ" unfolding b by (simp add: nth_append)
  then show ?thesis
    using t val room n tag b
    by (subst scan_fields.simps) (simp add: field_entry_def)
qed

lemma scan_value_plain:
  assumes "buf = pre @ wire_field tag v @ rest" "tag < 2 ^ 16" "length buf < 2 ^ 32" "SOH \<notin> set v" "fst carry = 0"
  shows "scan_value hooks buf carry tag (length pre + length (dec_digits tag) + 1) =
    ok (length v, length pre + length (wire_field tag v),
      if data_tag_for_length hooks tag \<noteq> 0 then (data_tag_for_length hooks tag, data_length_loop (length buf) 0 v) else (0, 0))"
proof -
  let ?p = "pre @ dec_digits tag @ [EQ]"
  have b: "buf = ?p @ v @ SOH # rest" using assms(1) by (simp add: wire_field_def)
  have "next_soh buf (length ?p) = length ?p + length v" by (rule next_soh_value [OF b assms(4)]) simp
  moreover have "sub_span buf (length ?p) (length v) = v" using b by (simp add: sub_span_def)
  moreover have "length ?p + length v < length buf" using b by simp
  ultimately show ?thesis
    using assms(2,3,5) length_wire_field [of tag v] by (cases carry) (simp add: scan_value_def Let_def)
qed

lemma scan_value_counted:
  assumes "buf = pre @ wire_field tag v @ rest" "tag < 2 ^ 16" "carry = (tag, length v)" "tag \<noteq> 0"
  shows "scan_value hooks buf carry tag (length pre + length (dec_digits tag) + 1) =
    ok (length v, length pre + length (wire_field tag v), (0, 0))"
proof -
  let ?p = "pre @ dec_digits tag @ [EQ]"
  have b: "buf = ?p @ v @ SOH # rest" using assms(1) by (simp add: wire_field_def)
  have "buf ! (length ?p + length v) = SOH" unfolding b by (simp only: nth_append_length_plus) simp
  moreover have "length ?p + length v < length buf" using b by simp
  ultimately show ?thesis
    using assms(2-4) length_wire_field [of tag v] by (simp add: scan_value_def Let_def)
qed

text \<open>The entries of a sequence of fields that starts at \<open>p\<close>.\<close>

fun layout :: "nat \<Rightarrow> (nat \<times> byte list) list \<Rightarrow> entry list" where
  "layout p [] = []"
| "layout p ((tag, v) # fs) = field_entry p tag v # layout (p + length (wire_field tag v)) fs"

lemma length_layout [simp]: "length (layout p fs) = length fs"
  by (induction p fs rule: layout.induct) simp_all

definition soh_free :: "dict_hooks \<Rightarrow> (nat \<times> byte list) list \<Rightarrow> bool" where
  "soh_free hooks fs \<longleftrightarrow> (\<forall>(tag, v) \<in> set fs. length_tag_for_data hooks tag = 0 \<longrightarrow> SOH \<notin> set v)"

lemma soh_free_Cons [simp]:
  "soh_free hooks ((tag, v) # fs) \<longleftrightarrow> (length_tag_for_data hooks tag = 0 \<longrightarrow> SOH \<notin> set v) \<and> soh_free hooks fs"
  by (simp add: soh_free_def)

lemma scan_fields_layout:
  assumes "well_paired hooks fs" "tags_ok fs" "soh_free hooks fs" "fst carry = 0"
    and "buf = pre @ wire_fields fs" "length buf < 2 ^ 32"
    and "length acc + length fs \<le> max_offset_entries cfg" "\<forall>k. \<not> push_fails mr k"
  shows "scan_fields mr hooks cfg buf (length pre) carry acc = ok (acc @ layout (length pre) fs)"
  using assms
proof (induction hooks fs arbitrary: pre carry acc rule: well_paired.induct)
  case (1 hooks)
  then show ?case by (subst scan_fields.simps) simp
next
  case (2 hooks tag v)
  note p = 2
  have s: "scan_fields mr hooks cfg buf (length pre) carry acc =
      scan_fields mr hooks cfg buf (length (pre @ wire_field tag v)) (0, 0) (acc @ [field_entry (length pre) tag v])"
    using p scan_value_plain [of buf pre tag v "[]" carry hooks] by (intro scan_step [where rest = "[]"]) simp_all
  show ?case unfolding s using p by (subst scan_fields.simps) simp
next
  case (3 hooks tag v tag' v' fs)
  note p = 3(3-)
  let ?buf = "wire_fields ((tag', v') # fs)"
  let ?d = "data_tag_for_length hooks tag"
  have soh: "SOH \<notin> set v"
    using p(1,3) by (auto split: if_splits)
  have s: "scan_fields mr hooks cfg buf (length pre) carry acc =
      scan_fields mr hooks cfg buf (length (pre @ wire_field tag v))
        (if ?d \<noteq> 0 then (?d, data_length_loop (length buf) 0 v) else (0, 0)) (acc @ [field_entry (length pre) tag v])"
    using p soh scan_value_plain [of buf pre tag v ?buf carry hooks] by (intro scan_step [where rest = ?buf]) auto
  show ?case
  proof (cases "?d = 0")
    case True
    have "scan_fields mr hooks cfg buf (length (pre @ wire_field tag v)) (0, 0) (acc @ [field_entry (length pre) tag v]) =
        ok ((acc @ [field_entry (length pre) tag v]) @ layout (length (pre @ wire_field tag v)) ((tag', v') # fs))"
      using p True by (intro 3(1) [OF True]) auto
    then show ?thesis using s True by simp
  next
    case False
    have d: "tag' = ?d" "length_value v (length v')" "well_paired hooks fs" using p(1) False by auto
    have "length v' \<le> length buf" using p(5) by (simp add: wire_field_def)
    then have cnt: "data_length_loop (length buf) 0 v = length v'"
      using d(2) p(6) data_length_loop_value [of v 0 "length buf"] by (simp add: length_value_def dec_value_def)
    let ?pre = "pre @ wire_field tag v" and ?acc = "acc @ [field_entry (length pre) tag v]"
    have s2: "scan_fields mr hooks cfg buf (length ?pre) (?d, length v') ?acc =
        scan_fields mr hooks cfg buf (length (?pre @ wire_field tag' v')) (0, 0) (?acc @ [field_entry (length ?pre) tag' v'])"
      using p d(1) False scan_value_counted [of buf ?pre tag' v' "wire_fields fs" "(?d, length v')" hooks]
      by (intro scan_step [where rest = "wire_fields fs"]) auto
    have "scan_fields mr hooks cfg buf (length (?pre @ wire_field tag' v')) (0, 0) (?acc @ [field_entry (length ?pre) tag' v']) =
        ok ((?acc @ [field_entry (length ?pre) tag' v']) @ layout (length (?pre @ wire_field tag' v')) fs)"
      using p d False by (intro 3(2) [OF False]) auto
    then show ?thesis using s s2 cnt False by (simp add: add.assoc)
  qed
qed

subsection \<open>What an accepted frame looks like\<close>

text \<open>The entries tile the buffer from \<open>i\<close> on: each is preceded by the digits of its tag and
  \<^verbatim>\<open>=\<close>, its value lies within the buffer, and the next field starts behind the SOH that ends
  the value.  Only the last value may end with the buffer instead.\<close>

inductive tiles :: "byte list \<Rightarrow> nat \<Rightarrow> entry list \<Rightarrow> bool" for buf where
  tiles_end: "i = length buf \<Longrightarrow> tiles buf i []"
| tiles_field: "i + 1 < ent_offset e \<Longrightarrow> ent_offset e + ent_length e \<le> length buf \<Longrightarrow>
    buf ! (ent_offset e - 1) = EQ \<Longrightarrow>
    digits (sub_span buf i (ent_offset e - 1 - i)) \<Longrightarrow>
    dec_value (sub_span buf i (ent_offset e - 1 - i)) = ent_tag e \<Longrightarrow> ent_tag e \<le> 0xFFFF \<Longrightarrow>
    (ent_offset e + ent_length e < length buf \<Longrightarrow> buf ! (ent_offset e + ent_length e) = SOH) \<Longrightarrow>
    tiles buf (min (ent_offset e + ent_length e + 1) (length buf)) es \<Longrightarrow> tiles buf i (e # es)"

inductive_cases tiles_NilE: "tiles buf i []"
inductive_cases tiles_ConsE: "tiles buf i (e # es)"

lemma sub_span_Cons: "i < j \<Longrightarrow> j \<le> length buf \<Longrightarrow> sub_span buf i (j - i) = buf ! i # sub_span buf (Suc i) (j - Suc i)"
  by (simp add: sub_span_def Cons_nth_drop_Suc [symmetric] take_Cons')

lemma tag_scan_sound:
  assumes "tag_scan buf i tag = ok (j, t)" "i \<le> length buf" "tag \<le> 0xFFFF"
  shows "i \<le> j \<and> j \<le> length buf \<and> digits (sub_span buf i (j - i)) \<and> t = dec_acc tag (sub_span buf i (j - i)) \<and> t \<le> 0xFFFF"
  using assms
proof (induction buf i tag rule: tag_scan.induct)
  case (1 buf i tag)
  show ?case
  proof (cases "i < length buf \<and> buf ! i \<noteq> EQ \<and> buf ! i \<noteq> SOH")
    case False
    then show ?thesis using 1(2-) by (auto simp: tag_scan.simps [of buf i tag] sub_span_def)
  next
    case c: True
    then have d: "is_digit (buf ! i)" using 1(2) by (subst (asm) tag_scan.simps) (simp split: if_splits)
    have le: "tag * 10 + digit_val (buf ! i) \<le> 0xFFFF"
      "tag_scan buf (i + 1) (tag * 10 + digit_val (buf ! i)) = ok (j, t)"
      using 1(2) c d by (subst (asm) tag_scan.simps; simp add: accumulate_tag_digit_exact split: if_splits)+
    have a: "accumulate_tag_digit tag (buf ! i) = (tag * 10 + digit_val (buf ! i), True)"
      using d le(1) by (simp add: accumulate_tag_digit_exact)
    have ih: "i + 1 \<le> j \<and> j \<le> length buf \<and> digits (sub_span buf (i + 1) (j - (i + 1))) \<and>
        t = dec_acc (tag * 10 + digit_val (buf ! i)) (sub_span buf (i + 1) (j - (i + 1))) \<and> t \<le> 0xFFFF"
      using c d le by (intro 1(1) [OF c _ a [symmetric]]) simp_all
    then show ?thesis using sub_span_Cons [of i j buf] d by simp
  qed
qed

lemma scan_value_sound:
  assumes "scan_value hooks buf carry tag vs = ok (len, i, carry')" "vs \<le> length buf"
  shows "vs + len < length buf \<longrightarrow> buf ! (vs + len) = SOH"
proof -
  have "next_soh buf vs < length buf \<longrightarrow> buf ! next_soh buf vs = SOH"
    using next_soh_takeWhile [OF assms(2)] nth_length_takeWhile [of "\<lambda>c. c \<noteq> SOH" "drop vs buf"] by auto
  then show ?thesis
    using assms next_soh_bounds [OF assms(2)] by (auto simp: scan_value_def Let_def split: if_splits prod.splits)
qed

lemma scan_fields_tiles:
  assumes "scan_fields mr hooks cfg buf i carry acc = ok es" "i \<le> length buf" "length buf < 2 ^ 32"
  shows "\<exists>es'. es = acc @ es' \<and> tiles buf i es'"
  using assms
proof (induction mr hooks cfg buf i carry acc rule: scan_fields.induct)
  case (1 mr hooks cfg buf i carry acc)
  show ?case
  proof (cases "i < length buf")
    case False
    then show ?thesis using 1(2-) by (subst (asm) scan_fields.simps) (auto intro: tiles_end)
  next
    case i: True
    obtain j tag where t: "tag_scan buf i 0 = ok (j, tag)"
      using 1(2) i by (subst (asm) scan_fields.simps) (auto split: sum.splits)
    have j: "j < length buf" "buf ! j = EQ" "j \<noteq> i"
      using 1(2) i t by (subst (asm) scan_fields.simps; auto split: if_splits)+
    have nj: "\<not> (length buf \<le> j \<or> buf ! j \<noteq> EQ \<or> j = i)" using j by simp
    obtain len i' carry' where v: "scan_value hooks buf carry tag (j + 1) = ok (len, i', carry')"
      using 1(2) i t j by (subst (asm) scan_fields.simps) (auto split: sum.splits)
    note r = 1(2) [unfolded scan_fields.simps [of mr hooks cfg buf i carry acc] if_P [OF i] t sum.case prod.case
      if_not_P [OF nj] v]
    have room: "\<not> max_offset_entries cfg \<le> length acc" "\<not> push_fails mr (length acc)" using r by (auto split: if_splits)
    define e where "e = \<lparr>ent_offset = u32 (j + 1), ent_length = u32 len, ent_tag = u16 tag, group_index_link = 0\<rparr>"
    note r = r [unfolded if_not_P [OF room(1)] if_not_P [OF room(2)]]
    have vb: "j + 1 + len \<le> length buf" "i' = min (j + 1 + len + 1) (length buf)"
      using scan_value_bounds [OF v] j(1) by (simp_all only: Suc_eq_plus1 [symmetric] Suc_leI)
    have ts: "i \<le> j" "digits (sub_span buf i (j - i))" "tag = dec_value (sub_span buf i (j - i))" "tag \<le> 0xFFFF"
      using tag_scan_sound [OF t] i by (simp_all add: dec_value_def)
    have e: "ent_offset e = j + 1" "ent_length e = len" "ent_tag e = tag"
      using vb(1) 1(4) ts(4) by (simp_all add: e_def)
    have "i' \<le> length buf" using vb(2) by simp
    from 1(1) [OF i t refl nj v refl refl room r this 1(4)]
    obtain es' where es': "es = (acc @ [e]) @ es'" "tiles buf i' es'" unfolding e_def by blast
    have "tiles buf i (e # es')"
      using ts j vb es'(2) scan_value_sound [OF v] by (intro tiles_field) (simp_all add: e)
    then show ?thesis using es'(1) by simp
  qed
qed

subsection \<open>The hash overlay\<close>

unbundle bit_operations_syntax

definition mix :: "nat \<Rightarrow> 32 word \<Rightarrow> 32 word" where
  "mix tag seed =
     (let t = of_nat tag;
          h = 2166136261 XOR seed;
          h = (h XOR (t AND 0xFF)) * 16777619;
          h = (h XOR (drop_bit 8 t AND 0xFF)) * 16777619
      in h)"

text \<open>The capacity is a power of two, kept as its exponent: \<^verbatim>\<open>cap <<= 1\<close> is the next one.\<close>

function cap_loop :: "nat \<Rightarrow> nat \<Rightarrow> nat" where
  "cap_loop want k = (if 2 ^ k < want then cap_loop want (k + 1) else 2 ^ k)"
  by pat_completeness auto
termination
proof (relation "measure (\<lambda>(want, k). want - k)")
  fix want k :: nat
  assume "2 ^ k < want"
  moreover have "k < 2 ^ k" by (rule less_exp)
  ultimately have "k < want" by linarith
  then show "((want, k + 1), (want, k)) \<in> measure (\<lambda>(want, k). want - k)" by simp
qed simp

declare cap_loop.simps [simp del]

definition overlay_cap_for :: "nat \<Rightarrow> nat" where
  "overlay_cap_for n = cap_loop (n * 5 div 4 + 1) 3"

definition kMaxBuildProbe :: nat where "kMaxBuildProbe = 128"

text \<open>The slot an occurrence goes to, \<^const>\<open>None\<close> where the insertion is skipped.\<close>

function probe_insert :: "entry list \<Rightarrow> nat list \<Rightarrow> 32 word \<Rightarrow> nat \<Rightarrow> 32 word \<Rightarrow> nat \<Rightarrow> 32 word option" where
  "probe_insert es overlay msk tag slot probes =
     (if overlay ! unat slot \<noteq> 0 then
        if ent_tag (es ! (overlay ! unat slot - 1)) = tag then None
        else if probes + 1 \<ge> kMaxBuildProbe then None
        else probe_insert es overlay msk tag ((slot + 1) AND msk) (probes + 1)
      else Some slot)"
  by pat_completeness auto
termination
  by (relation "measure (\<lambda>(es, ov, m, t, s, probes). kMaxBuildProbe - probes)") auto

declare probe_insert.simps [simp del]

definition overlay_insert :: "32 word \<Rightarrow> 32 word \<Rightarrow> entry list \<Rightarrow> nat list \<Rightarrow> nat \<Rightarrow> nat list" where
  "overlay_insert seed msk es overlay e =
     (let tag = ent_tag (es ! e) in
      case probe_insert es overlay msk tag (mix tag seed AND msk) 0 of
        None \<Rightarrow> overlay
      | Some slot \<Rightarrow> overlay[unat slot := u32 (u32 e + 1)])"

definition overlay_of :: "32 word \<Rightarrow> entry list \<Rightarrow> nat list" where
  "overlay_of seed es =
     (let cap = overlay_cap_for (length es); msk = of_nat (cap - 1) in
      foldl (overlay_insert seed msk es) (replicate cap 0) [0..<length es])"

function find_loop :: "entry list \<Rightarrow> nat list \<Rightarrow> 32 word \<Rightarrow> nat \<Rightarrow> 32 word \<Rightarrow> nat \<Rightarrow> entry option" where
  "find_loop es overlay msk tag slot probes =
     (if overlay ! unat slot \<noteq> 0 then
        let en = es ! (overlay ! unat slot - 1) in
        if ent_tag en = tag then Some en
        else if probes + 1 > length overlay then None
        else find_loop es overlay msk tag ((slot + 1) AND msk) (probes + 1)
      else None)"
  by pat_completeness auto
termination
  by (relation "measure (\<lambda>(es, ov, m, t, s, probes). length ov - probes)") auto

declare find_loop.simps [simp del]

subsection \<open>The table\<close>

record group_slice =
  slice_data :: nat
  slice_len :: nat

record offset_table =
  tbl_cfg :: table_config
  tbl_hooks :: dict_hooks
  tbl_frame :: "byte list"
  tbl_ctx :: group_context
  tbl_entries :: "entry list"
  tbl_overlay :: "nat list"
  tbl_status :: "unit expected_t"
  tbl_seed :: "32 word"
  tbl_groups :: "(nat \<times> group_slice list) list"

definition empty_context :: group_context where
  "empty_context = \<lparr>msg_type = [], parent_path = replicate 16 0, depth = 0\<rparr>"

definition table_failed :: "table_config \<Rightarrow> dict_hooks \<Rightarrow> byte list \<Rightarrow> 32 word \<Rightarrow> error \<Rightarrow> offset_table" where
  "table_failed cfg hooks frame seed e =
     \<lparr>tbl_cfg = cfg, tbl_hooks = hooks, tbl_frame = frame, tbl_ctx = empty_context, tbl_entries = [], tbl_overlay = [],
      tbl_status = unexpected e, tbl_seed = seed, tbl_groups = []\<rparr>"

definition build ::
    "arena \<Rightarrow> dict_hooks \<Rightarrow> table_config \<Rightarrow> 32 word \<Rightarrow> byte list \<Rightarrow> nat \<Rightarrow> offset_table" where
  "build mr hooks cfg process_seed frame reserve_entries =
     (if reserve_entries \<noteq> 0 \<and> reserve_fails mr (min reserve_entries (max_offset_entries cfg))
      then table_failed cfg hooks [] 0 out_of_memory
      else case scan_fields mr hooks cfg frame 0 (0, 0) [] of
        Inl e \<Rightarrow> table_failed cfg hooks frame process_seed e
      | Inr es \<Rightarrow>
          if overlay_fails mr then table_failed cfg hooks frame process_seed out_of_memory
          else \<lparr>tbl_cfg = cfg, tbl_hooks = hooks, tbl_frame = frame, tbl_ctx = empty_context, tbl_entries = es,
                tbl_overlay = overlay_of process_seed es, tbl_status = ok (), tbl_seed = process_seed, tbl_groups = []\<rparr>)"

definition table_find :: "offset_table \<Rightarrow> nat \<Rightarrow> entry expected_t" where
  "table_find t tag =
     (case tbl_status t of
        Inl e \<Rightarrow> unexpected e
      | Inr _ \<Rightarrow>
          if tbl_overlay t = [] then unexpected wire_required_field_missing
          else
            let msk = of_nat (length (tbl_overlay t) - 1) in
            case find_loop (tbl_entries t) (tbl_overlay t) msk tag (mix tag (tbl_seed t) AND msk) 0 of
              None \<Rightarrow> unexpected wire_required_field_missing
            | Some en \<Rightarrow> ok en)"

subsection \<open>Linear probing\<close>

text \<open>Probe \<open>j\<close> of a tag, as an index.\<close>

definition probe_at :: "32 word \<Rightarrow> nat \<Rightarrow> nat \<Rightarrow> nat \<Rightarrow> nat" where
  "probe_at seed cap tag j = (unat (mix tag seed) + j) mod cap"

lemma mask_word: "k \<le> 32 \<Longrightarrow> (of_nat (2 ^ k - 1) :: 32 word) = mask k"
  by (simp add: mask_eq_exp_minus_1 of_nat_diff)

lemma unat_and_mask: "k \<le> 32 \<Longrightarrow> unat ((w :: 32 word) AND of_nat (2 ^ k - 1)) = unat w mod 2 ^ k"
  by (simp only: mask_word take_bit_eq_mask [symmetric] unsigned_take_bit_eq) (simp only: take_bit_eq_mod)

lemma next_slot:
  assumes "k \<le> 32" "unat s = m mod 2 ^ k"
  shows "unat ((s + 1 :: 32 word) AND of_nat (2 ^ k - 1)) = (m + 1) mod 2 ^ k"
proof -
  have "unat (s + 1) mod 2 ^ k = (unat s + 1) mod 2 ^ k"
  proof -
    have "(unat s + 1) mod 2 ^ 32 mod 2 ^ k = (unat s + 1) mod 2 ^ k"
      by (intro mod_mod_cancel le_imp_power_dvd assms(1))
    then show ?thesis by (simp add: unat_word_ariths)
  qed
  then show ?thesis using assms(2) unat_and_mask [OF assms(1), of "s + 1"] by (simp add: mod_simps)
qed

lemma cap_loop_power: "\<exists>j \<ge> k. cap_loop want k = 2 ^ j \<and> want \<le> 2 ^ j \<and> (j = k \<or> 2 ^ (j - 1) < want)"
proof (induction want k rule: cap_loop.induct)
  case (1 want k)
  show ?case
  proof (cases "2 ^ k < want")
    case True
    then obtain j where "k + 1 \<le> j" "cap_loop want (k + 1) = 2 ^ j" "want \<le> 2 ^ j" "j = k + 1 \<or> 2 ^ (j - 1) < want"
      using 1 by blast
    then show ?thesis using True by (intro exI [of _ j]) (auto simp: cap_loop.simps [of want k])
  qed (auto simp: cap_loop.simps [of want k])
qed

lemma overlay_cap:
  assumes "n < 2 ^ 31"
  obtains k where "k \<le> 32" "overlay_cap_for n = 2 ^ k" "n < 2 ^ k"
proof -
  obtain j where j: "3 \<le> j" "overlay_cap_for n = 2 ^ j" "n * 5 div 4 + 1 \<le> 2 ^ j" "j = 3 \<or> 2 ^ (j - 1) < n * 5 div 4 + 1"
    using cap_loop_power [of 3 "n * 5 div 4 + 1"] unfolding overlay_cap_for_def by blast
  have "j \<le> 32"
  proof (rule ccontr)
    assume "\<not> j \<le> 32"
    then have "(2::nat) ^ 32 \<le> 2 ^ (j - 1)" by (intro power_increasing) simp_all
    then have "2 ^ 32 < n * 5 div 4 + 1" using j(4) \<open>\<not> j \<le> 32\<close> by simp
    then show False using assms by simp
  qed
  then show thesis using j by (intro that [of j]) simp_all
qed

text \<open>Open addressing with linear probing and a bounded probe length, over slots that hold
  one more than the index of an item (0 for a free slot).  The key of an item is looked up by
  its index; an item is indexed at most once per key, the first one only.\<close>

locale linear_probing =
  fixes cap limit :: nat
    and home :: "'k \<Rightarrow> nat"
    and key :: "nat \<Rightarrow> 'k"
  assumes cap_pos: "0 < cap"
begin

definition pr :: "'k \<Rightarrow> nat \<Rightarrow> nat" where
  "pr t j = (home t + j) mod cap"

definition other :: "nat list \<Rightarrow> 'k \<Rightarrow> nat \<Rightarrow> bool" where
  "other ov t i \<longleftrightarrow> ov ! pr t i \<noteq> 0 \<and> key (ov ! pr t i - 1) \<noteq> t"

definition holds :: "nat list \<Rightarrow> 'k \<Rightarrow> nat \<Rightarrow> bool" where
  "holds ov t k \<longleftrightarrow> ov ! pr t k \<noteq> 0 \<and> key (ov ! pr t k - 1) = t \<and> (\<forall>i<k. other ov t i)"

definition crowded :: "nat list \<Rightarrow> 'k \<Rightarrow> bool" where
  "crowded ov t \<longleftrightarrow> (\<forall>i<limit. other ov t i)"

definition inv :: "nat \<Rightarrow> nat list \<Rightarrow> bool" where
  "inv e ov \<longleftrightarrow> length ov = cap \<and>
     (\<forall>s<cap. ov ! s \<noteq> 0 \<longrightarrow> ov ! s \<le> e \<and> (\<forall>y<ov ! s - 1. key y \<noteq> key (ov ! s - 1)) \<and>
        (\<exists>k<limit. pr (key (ov ! s - 1)) k = s \<and> (\<forall>i<k. other ov (key (ov ! s - 1)) i))) \<and>
     (\<forall>x<e. (\<exists>k<limit. holds ov (key x) k) \<or> crowded ov (key x))"

text \<open>What the probing of an insertion finds.\<close>

definition insertion :: "nat list \<Rightarrow> 'k \<Rightarrow> nat option \<Rightarrow> bool" where
  "insertion ov t r \<longleftrightarrow>
     (case r of
        Some s \<Rightarrow> \<exists>k<limit. s = pr t k \<and> ov ! s = 0 \<and> (\<forall>i<k. other ov t i)
      | None \<Rightarrow> (\<exists>k<limit. holds ov t k) \<or> crowded ov t)"

lemma pr_less [simp]: "pr t j < cap"
  using cap_pos by (simp add: pr_def)

lemma inv_empty: "length ov = cap \<Longrightarrow> \<forall>s<cap. ov ! s = 0 \<Longrightarrow> inv 0 ov"
  by (simp add: inv_def)

lemma other_update: "ov ! s = 0 \<Longrightarrow> other ov t i \<Longrightarrow> other (ov[s := v]) t i"
  unfolding other_def by (metis nth_list_update_neq)

lemma holds_update: "ov ! s = 0 \<Longrightarrow> holds ov t k \<Longrightarrow> holds (ov[s := v]) t k"
  using other_update unfolding holds_def by (metis nth_list_update_neq)

lemma holds_unique: "holds ov t k \<Longrightarrow> holds ov t k' \<Longrightarrow> k = k'"
  by (metis holds_def linorder_neqE_nat other_def)

lemma inv_holds:
  assumes "inv e ov" "s < cap" "ov ! s \<noteq> 0"
  shows "\<exists>k<limit. pr (key (ov ! s - 1)) k = s \<and> holds ov (key (ov ! s - 1)) k"
  using assms unfolding inv_def holds_def by metis

text \<open>Two occupied slots never hold the same key.\<close>

lemma slots_distinct:
  assumes "inv e ov" "s < cap" "s' < cap" "ov ! s \<noteq> 0" "ov ! s' \<noteq> 0" "key (ov ! s - 1) = key (ov ! s' - 1)"
  shows "s = s'"
  using inv_holds [OF assms(1,2,4)] inv_holds [OF assms(1,3,5)] assms(6) holds_unique by metis

lemma insertion_first:
  assumes "inv e ov" "insertion ov (key e) (Some s)" "y < e"
  shows "key y \<noteq> key e"
proof
  assume y: "key y = key e"
  obtain k where k: "k < limit" "s = pr (key e) k" "ov ! s = 0" "\<forall>i<k. other ov (key e) i"
    using assms(2) by (auto simp: insertion_def)
  consider k' where "k' < limit" "holds ov (key e) k'" | "crowded ov (key e)"
    using assms(1,3) y unfolding inv_def by metis
  then show False
  proof cases
    case 1
    then show ?thesis using k by (metis holds_def linorder_neqE_nat other_def)
  next
    case 2
    then show ?thesis using k by (auto simp: crowded_def other_def)
  qed
qed

lemma insert_inv:
  assumes "inv e ov" "insertion ov (key e) (Some s)"
  shows "inv (Suc e) (ov[s := Suc e])"
proof -
  obtain k where k: "k < limit" "s = pr (key e) k" "ov ! s = 0" "\<forall>i<k. other ov (key e) i"
    using assms(2) by (auto simp: insertion_def)
  let ?ov = "ov[s := Suc e]"
  have len: "length ov = cap" "s < length ov" using assms(1) k(2) by (simp_all add: inv_def)
  have new: "holds ?ov (key e) k" using k len other_update [OF k(3)] by (simp add: holds_def)
  have "?ov ! r \<le> Suc e \<and> (\<forall>y<?ov ! r - 1. key y \<noteq> key (?ov ! r - 1)) \<and>
      (\<exists>k<limit. pr (key (?ov ! r - 1)) k = r \<and> (\<forall>i<k. other ?ov (key (?ov ! r - 1)) i))"
    if r: "r < cap" "?ov ! r \<noteq> 0" for r
  proof (cases "r = s")
    case True
    then show ?thesis using len k new insertion_first [OF assms] by (auto simp: holds_def)
  next
    case False
    then have same: "?ov ! r = ov ! r" by simp
    have "ov ! r \<le> e" "\<forall>y<ov ! r - 1. key y \<noteq> key (ov ! r - 1)"
      "\<exists>k<limit. pr (key (ov ! r - 1)) k = r \<and> (\<forall>i<k. other ov (key (ov ! r - 1)) i)"
      using assms(1) r unfolding inv_def same by blast+
    then show ?thesis unfolding same using other_update [OF k(3)] le_SucI by blast
  qed
  moreover have "(\<exists>k<limit. holds ?ov (key x) k) \<or> crowded ?ov (key x)" if "x < Suc e" for x
  proof (cases "x = e")
    case True
    then show ?thesis using new k(1) by blast
  next
    case False
    then have "(\<exists>k<limit. holds ov (key x) k) \<or> crowded ov (key x)" using that assms(1) by (simp add: inv_def)
    then show ?thesis using holds_update [OF k(3)] other_update [OF k(3)] unfolding crowded_def by blast
  qed
  ultimately show ?thesis using len by (simp add: inv_def)
qed

lemma skip_inv:
  assumes "inv e ov" "insertion ov (key e) None"
  shows "inv (Suc e) ov"
  using assms unfolding inv_def insertion_def by (auto simp: less_Suc_eq le_SucI)

end

lemma add_mod_inject: "(h + i) mod c = (h + j) mod c \<Longrightarrow> i < c \<Longrightarrow> j < c \<Longrightarrow> i = (j :: nat)"
proof (induction i j rule: linorder_wlog)
  case (le i j)
  then have "c dvd (h + j) - (h + i)" by (metis add_le_mono mod_eq_dvd_iff_nat order_refl)
  then have "c dvd j - i" by simp
  then show ?case using le by (metis diff_is_0_eq dual_order.antisym dvd_imp_le less_imp_diff_less not_le not_gr_zero)
next
  case (sym i j)
  then show ?case by simp
qed

context linear_probing
begin

text \<open>What the probing of a lookup finds.\<close>

definition search :: "nat list \<Rightarrow> 'k \<Rightarrow> nat option \<Rightarrow> bool" where
  "search ov t r \<longleftrightarrow>
     (case r of
        Some x \<Rightarrow> \<exists>k. ov ! pr t k = Suc x \<and> key x = t
      | None \<Rightarrow> (\<exists>k. ov ! pr t k = 0 \<and> (\<forall>i<k. other ov t i)) \<or> (\<forall>i\<le>cap. other ov t i))"

lemma search_first:
  assumes "inv e ov" "search ov t (Some x)"
  shows "x < e \<and> key x = t \<and> (\<forall>y<x. key y \<noteq> t)"
proof -
  obtain k where k: "ov ! pr t k = Suc x" "key x = t" using assms(2) by (auto simp: search_def)
  moreover have "pr t k < cap" by simp
  ultimately show ?thesis using assms(1) unfolding inv_def by fastforce
qed

lemma search_missing:
  assumes "inv e ov" "search ov t None" "x < e" "key x = t"
  shows "crowded ov t"
proof (rule ccontr)
  assume "\<not> crowded ov t"
  then obtain k where k: "holds ov t k" using assms(1,3,4) unfolding inv_def by blast
  consider j where "ov ! pr t j = 0" "\<forall>i<j. other ov t i" | "\<forall>i\<le>cap. other ov t i"
    using assms(2) by (auto simp: search_def)
  then show False
  proof cases
    case 1
    then show ?thesis using k by (metis holds_def linorder_neqE_nat other_def)
  next
    case 2
    have "k < cap"
    proof (rule ccontr)
      assume "\<not> k < cap"
      then obtain d where d: "k = d + cap" by (metis add.commute le_add_diff_inverse not_less)
      then have "pr t d = pr t k" by (simp add: pr_def flip: add.assoc)
      moreover have "other ov t d" using k d cap_pos by (simp add: holds_def)
      ultimately show False using k by (simp add: holds_def other_def)
    qed
    then show ?thesis using 2 k by (auto simp: holds_def other_def)
  qed
qed

lemma crowded_keys:
  assumes "inv e ov" "crowded ov t" "e < cap" "x < e" "key x = t"
  shows "limit < card (key ` {..<e})"
proof -
  let ?m = "min limit cap" and ?K = "\<lambda>i. key (ov ! pr t i - 1)"
  have occ: "ov ! pr t i \<noteq> 0" "?K i \<noteq> t" if "i < ?m" for i
    using assms(2) that by (auto simp: crowded_def other_def)
  have "inj_on ?K {..<?m}"
  proof (rule inj_onI)
    fix i j assume ij: "i \<in> {..<?m}" "j \<in> {..<?m}" "?K i = ?K j"
    then have "pr t i = pr t j" using slots_distinct [OF assms(1) pr_less pr_less] occ by simp
    then show "i = j" using ij add_mod_inject [of "home t" i cap j] by (simp add: pr_def)
  qed
  then have "card (?K ` {..<?m}) = ?m" by (simp add: card_image)
  moreover have "?K ` {..<?m} \<subseteq> key ` {..<e} - {t}"
  proof (rule image_subsetI)
    fix i assume "i \<in> {..<?m}"
    then have "?K i \<noteq> t" "ov ! pr t i \<noteq> 0" "ov ! pr t i \<le> e" using occ assms(1) by (auto simp: inv_def)
    then show "?K i \<in> key ` {..<e} - {t}" by auto
  qed
  ultimately have "?m \<le> card (key ` {..<e} - {t})" by (metis card_mono finite_Diff finite_imageI finite_lessThan)
  moreover have "t \<in> key ` {..<e}" using assms(4,5) by auto
  moreover from this have "card (key ` {..<e}) = Suc (card (key ` {..<e} - {t}))" by (intro card.remove) simp_all
  ultimately have "?m < card (key ` {..<e})" by linarith
  moreover have "card (key ` {..<e}) \<le> e" using card_image_le [of "{..<e}" key] by simp
  ultimately show ?thesis using assms(3) by linarith
qed

end

interpretation ovl: linear_probing "2 ^ k" kMaxBuildProbe "\<lambda>t. unat (mix t seed)" "\<lambda>x. ent_tag (es ! x)"
  for k :: nat and seed :: "32 word" and es :: "entry list"
  by unfold_locales simp

lemma probe_insert_insertion:
  assumes "k \<le> 32" "unat slot = ovl.pr k seed tag probes" "probes < kMaxBuildProbe" "\<forall>i<probes. ovl.other k seed es ov tag i"
  shows "ovl.insertion k seed es ov tag (map_option unat (probe_insert es ov (of_nat (2 ^ k - 1)) tag slot probes))"
  using assms
proof (induction "kMaxBuildProbe - probes" arbitrary: slot probes rule: less_induct)
  case less
  let ?v = "ov ! unat slot"
  note simps = probe_insert.simps [of es ov "of_nat (2 ^ k - 1)" tag slot probes]
  consider "?v = 0" | "?v \<noteq> 0" "ent_tag (es ! (?v - 1)) = tag" | "?v \<noteq> 0" "ent_tag (es ! (?v - 1)) \<noteq> tag" by blast
  then show ?case
  proof cases
    case 1
    then show ?thesis using less.prems unfolding simps by (auto simp: ovl.insertion_def)
  next
    case 2
    then have "ovl.holds k seed es ov tag probes" using less.prems by (simp add: ovl.holds_def)
    then show ?thesis using less.prems(3) 2 unfolding simps by (auto simp: ovl.insertion_def)
  next
    case 3
    then have o: "\<forall>i<Suc probes. ovl.other k seed es ov tag i"
      using less.prems(2,4) by (auto simp: less_Suc_eq ovl.other_def)
    show ?thesis
    proof (cases "Suc probes < kMaxBuildProbe")
      case True
      have "unat ((slot + 1) AND of_nat (2 ^ k - 1)) = ovl.pr k seed tag (Suc probes)"
        using next_slot [OF less.prems(1)] less.prems(2) by (simp add: ovl.pr_def)
      then show ?thesis using less.hyps [of "Suc probes"] True o less.prems(1) 3 unfolding simps by simp
    next
      case False
      then have "Suc probes = kMaxBuildProbe" using less.prems(3) by simp
      then show ?thesis using o 3 unfolding simps by (simp add: ovl.insertion_def ovl.crowded_def)
    qed
  qed
qed

lemma find_loop_search:
  assumes "k \<le> 32" "length ov = 2 ^ k" "unat slot = ovl.pr k seed tag probes" "probes \<le> 2 ^ k"
    "\<forall>i<probes. ovl.other k seed es ov tag i"
  shows "\<exists>x. find_loop es ov (of_nat (2 ^ k - 1)) tag slot probes = map_option (\<lambda>x. es ! x) x \<and>
    ovl.search k seed es ov tag x"
  using assms
proof (induction "2 ^ k - probes" arbitrary: slot probes rule: less_induct)
  case less
  let ?v = "ov ! unat slot"
  note simps = find_loop.simps [of es ov "of_nat (2 ^ k - 1)" tag slot probes]
  consider "?v = 0" | "?v \<noteq> 0" "ent_tag (es ! (?v - 1)) = tag" | "?v \<noteq> 0" "ent_tag (es ! (?v - 1)) \<noteq> tag" by blast
  then show ?case
  proof cases
    case 1
    then show ?thesis using less.prems unfolding simps by (intro exI [of _ None]) (auto simp: ovl.search_def)
  next
    case 2
    then show ?thesis using less.prems(3) unfolding simps
      by (intro exI [of _ "Some (?v - 1)"]) (auto simp: ovl.search_def Let_def intro!: exI [of _ probes])
  next
    case 3
    then have o: "\<forall>i<Suc probes. ovl.other k seed es ov tag i"
      using less.prems(3,5) by (auto simp: less_Suc_eq ovl.other_def)
    show ?thesis
    proof (cases "Suc probes \<le> 2 ^ k")
      case True
      have "unat ((slot + 1) AND of_nat (2 ^ k - 1)) = ovl.pr k seed tag (Suc probes)"
        using next_slot [OF less.prems(1)] less.prems(3) by (simp add: ovl.pr_def)
      then show ?thesis using less.hyps [of "Suc probes"] True o less.prems(1,2) 3 unfolding simps by (simp add: Let_def)
    next
      case False
      then show ?thesis using o 3 less.prems(2) unfolding simps
        by (intro exI [of _ None]) (auto simp: ovl.search_def Let_def)
    qed
  qed
qed

lemma overlay_insert_inv:
  assumes "k \<le> 32" "ovl.inv k seed es e ov" "e < 2 ^ 31"
  shows "ovl.inv k seed es (Suc e) (overlay_insert seed (of_nat (2 ^ k - 1)) es ov e)"
proof -
  let ?t = "ent_tag (es ! e)" and ?m = "of_nat (2 ^ k - 1) :: 32 word"
  have ins: "ovl.insertion k seed es ov ?t (map_option unat (probe_insert es ov ?m ?t (mix ?t seed AND ?m) 0))"
    using assms(1) unat_and_mask [OF assms(1), of "mix ?t seed"]
    by (intro probe_insert_insertion) (simp_all add: ovl.pr_def kMaxBuildProbe_def)
  show ?thesis
  proof (cases "probe_insert es ov ?m ?t (mix ?t seed AND ?m) 0")
    case None
    then show ?thesis using ins ovl.skip_inv [OF assms(2)] by (simp add: overlay_insert_def)
  next
    case (Some s)
    then show ?thesis using ins ovl.insert_inv [OF assms(2)] assms(3) by (simp add: overlay_insert_def)
  qed
qed

lemma overlay_of_inv:
  assumes "length es < 2 ^ 31"
  obtains k where "k \<le> 32" "length es < 2 ^ k" "ovl.inv k seed es (length es) (overlay_of seed es)"
proof -
  obtain k where k: "k \<le> 32" "overlay_cap_for (length es) = 2 ^ k" "length es < 2 ^ k"
    using overlay_cap [OF assms] .
  have "ovl.inv k seed es m (foldl (overlay_insert seed (of_nat (2 ^ k - 1)) es) (replicate (2 ^ k) 0) [0..<m])"
    if "m \<le> length es" for m
    using that
  proof (induction m)
    case 0
    then show ?case by (simp add: ovl.inv_empty)
  next
    case (Suc m)
    then show ?case using overlay_insert_inv [OF k(1)] assms by simp
  qed
  from this [OF order_refl] show thesis using k by (intro that [of k]) (simp_all add: overlay_of_def Let_def)
qed

subsection \<open>Building and looking up\<close>

definition field_of :: "byte list \<Rightarrow> entry \<Rightarrow> nat \<times> byte list" where
  "field_of frame e = (ent_tag e, sub_span frame (ent_offset e) (ent_length e))"

lemma field_of_layout: "frame = pre @ wire_fields fs \<Longrightarrow> map (field_of frame) (layout (length pre) fs) = fs"
proof (induction "length pre" fs arbitrary: pre rule: layout.induct)
  case (2 tag v fs)
  have "frame = (pre @ wire_field tag v) @ wire_fields fs" using 2(2) by simp
  then have "map (field_of frame) (layout (length (pre @ wire_field tag v)) fs) = fs" by (intro 2(1)) simp_all
  moreover have "sub_span frame (length pre + length (dec_digits tag) + 1) (length v) = v"
    unfolding 2(2) by (simp add: sub_span_def wire_field_def)
  ultimately show ?case by (simp add: field_of_def field_entry_def)
qed simp

lemma scan_fields_max:
  "scan_fields mr hooks cfg buf i carry acc = ok es \<Longrightarrow> length acc \<le> max_offset_entries cfg \<Longrightarrow>
   length es \<le> max_offset_entries cfg"
proof (induction mr hooks cfg buf i carry acc rule: scan_fields.induct)
  case (1 mr hooks cfg buf i carry acc)
  show ?case using 1(1) 1(2) [unfolded scan_fields.simps [of mr hooks cfg buf i carry acc]] 1(3)
    by (auto split: if_splits sum.splits)
qed

lemma tiles_length: "tiles buf i es \<Longrightarrow> i \<le> length buf \<Longrightarrow> i + 2 * length es \<le> length buf"
  by (induction rule: tiles.induct) auto

lemma tiles_in_bounds: "tiles buf i es \<Longrightarrow> e \<in> set es \<Longrightarrow> ent_offset e + ent_length e \<le> length buf"
  by (induction rule: tiles.induct) auto

lemma build_entries:
  assumes "tbl_status (build mr hooks cfg seed frame rsv) = ok ()"
  shows "scan_fields mr hooks cfg frame 0 (0, 0) [] = ok (tbl_entries (build mr hooks cfg seed frame rsv))"
    "tbl_overlay (build mr hooks cfg seed frame rsv) = overlay_of seed (tbl_entries (build mr hooks cfg seed frame rsv))"
    "tbl_seed (build mr hooks cfg seed frame rsv) = seed" "tbl_frame (build mr hooks cfg seed frame rsv) = frame"
  using assms by (auto simp: build_def table_failed_def split: if_splits sum.splits)

lemma build_entries_few:
  assumes "tbl_status (build mr hooks cfg seed frame rsv) = ok ()" "length frame < 2 ^ 32"
  shows "tiles frame 0 (tbl_entries (build mr hooks cfg seed frame rsv))"
    "length (tbl_entries (build mr hooks cfg seed frame rsv)) < 2 ^ 31"
proof -
  show t: "tiles frame 0 (tbl_entries (build mr hooks cfg seed frame rsv))"
    using scan_fields_tiles [OF build_entries(1) [OF assms(1)]] assms(2) by simp
  show "length (tbl_entries (build mr hooks cfg seed frame rsv)) < 2 ^ 31"
    using tiles_length [OF t] assms(2) by simp
qed

text \<open>The first entry of a tag.\<close>

definition first_entry :: "entry list \<Rightarrow> nat \<Rightarrow> entry option" where
  "first_entry es tag = List.find (\<lambda>e. ent_tag e = tag) es"

lemma first_entry_index:
  "x < length es \<Longrightarrow> ent_tag (es ! x) = tag \<Longrightarrow> \<forall>y<x. ent_tag (es ! y) \<noteq> tag \<Longrightarrow> first_entry es tag = Some (es ! x)"
  by (auto simp: first_entry_def find_Some_iff)

lemma build_layout:
  assumes "check_container hooks fs" "tags_ok fs" "soh_free hooks fs"
    and "length (wire_fields fs) < 2 ^ 32" "length fs \<le> max_offset_entries cfg"
  shows "tbl_status (build arena_ample hooks cfg seed (wire_fields fs) rsv) = ok ()"
    "tbl_entries (build arena_ample hooks cfg seed (wire_fields fs) rsv) = layout 0 fs"
proof -
  have "well_paired hooks fs"
    using observe_all_well_paired [of checker_init hooks fs] assms(1)
    by (simp add: check_container_def checker_init_def checker_idle_def)
  then have "scan_fields arena_ample hooks cfg (wire_fields fs) 0 (0, 0) [] = ok (layout 0 fs)"
    using assms scan_fields_layout [of hooks fs "(0, 0)" "wire_fields fs" "[]" "[]" cfg arena_ample]
    by (simp add: arena_ample_def)
  then show "tbl_status (build arena_ample hooks cfg seed (wire_fields fs) rsv) = ok ()"
    "tbl_entries (build arena_ample hooks cfg seed (wire_fields fs) rsv) = layout 0 fs"
    by (simp_all add: build_def arena_ample_def)
qed

text \<open>A message with a counted Data value that holds an SOH byte.\<close>

definition sample_fields :: "(nat \<times> byte list) list" where
  "sample_fields = [(35, ''B''), (95, ''3''), (96, ''a'' @ [SOH] @ ''b''), (58, ''hi'')]"

lemma hooks_none_standard:
  "data_tag_for_length dict_hooks_none t = standard_data_tag_for_length t"
  "length_tag_for_data dict_hooks_none t = standard_length_tag_for_data t"
  using standard_partner(1) [of t] standard_partner(2) [of t]
  by (auto simp: data_tag_for_length_def length_tag_for_data_def dict_hooks_none_def standard_pair_tag_bit_exact is_standard_pair_tag_def)

lemma sample_pairs:
  "data_tag_for_length dict_hooks_none 35 = 0" "data_tag_for_length dict_hooks_none 95 = 96"
  "data_tag_for_length dict_hooks_none 58 = 0" "length_tag_for_data dict_hooks_none 35 = 0"
  "length_tag_for_data dict_hooks_none 95 = 0" "length_tag_for_data dict_hooks_none 96 = 95"
  "length_tag_for_data dict_hooks_none 58 = 0"
proof -
  show d: "data_tag_for_length dict_hooks_none 95 = 96"
    unfolding hooks_none_standard by (simp add: standard_data_tag_for_length_def lower_bound_def standard_length_data_pairs_def)
  show "length_tag_for_data dict_hooks_none 96 = 95" using std_pairs.pair_inverse [of 95 96] d by simp
  show "length_tag_for_data dict_hooks_none 95 = 0" using std_pairs.typed [of 95] d by simp
qed (simp_all add: data_tag_for_length_def length_tag_for_data_def standard_pair_tag_bit_def standard_pair_tag_range
    dict_hooks_none_def)

lemma sample_fields_ok:
  "check_container dict_hooks_none sample_fields" "tags_ok sample_fields" "soh_free dict_hooks_none sample_fields"
  "length (wire_fields sample_fields) < 2 ^ 32" "length sample_fields \<le> max_offset_entries table_config_default"
proof -
  have v: "dec_value ''3'' = 3" "digits ''3''" by (simp_all add: dec_value_def digit_val_def is_digit_def)
  show "check_container dict_hooks_none sample_fields"
    using observe_all_well_paired [of checker_init dict_hooks_none sample_fields] v
    by (simp add: check_container_def checker_init_def checker_idle_def sample_fields_def sample_pairs length_value_def)
  show "soh_free dict_hooks_none sample_fields" by (simp add: sample_fields_def soh_free_def sample_pairs)
  show "tags_ok sample_fields" "length sample_fields \<le> max_offset_entries table_config_default"
    by (simp_all add: sample_fields_def table_config_default_def)
  show "length (wire_fields sample_fields) < 2 ^ 32"
    by (simp add: sample_fields_def wire_field_def dec_digits.simps)
qed



text \<open>C24. A built table describes its frame exactly: the entries tile the frame without gap or
  overlap, so no entry reaches outside it, there are no more of them than the configured cap,
  and a frame that is refused leaves no entry behind.\<close>

theorem build_safe:
  assumes "length frame < 2 ^ 32" "t = build mr hooks cfg seed frame rsv"
  shows "(case tbl_status t of
      Inl e \<Rightarrow> tbl_entries t = [] \<and> tbl_overlay t = []
    | Inr _ \<Rightarrow> tiles frame 0 (tbl_entries t) \<and> length (tbl_entries t) \<le> max_offset_entries cfg \<and>
        (\<forall>e \<in> set (tbl_entries t). ent_offset e + ent_length e \<le> length frame))"
proof (cases "tbl_status t")
  case (Inl e)
  then show ?thesis unfolding assms(2) by (auto simp: build_def table_failed_def split: if_splits sum.splits)
next
  case (Inr u)
  then have s: "tbl_status (build mr hooks cfg seed frame rsv) = ok ()" using assms(2) by simp
  note t = build_entries_few(1) [OF s assms(1)]
  show ?thesis
    using Inr tiles_in_bounds [OF t] t scan_fields_max [OF build_entries(1) [OF s]] by (simp add: assms(2))
qed

theorem build_safe_witness:
  "case tbl_status (build arena_ample dict_hooks_none table_config_default 7 (wire_fields sample_fields) 0) of
     Inl e \<Rightarrow> False | Inr _ \<Rightarrow> tiles (wire_fields sample_fields) 0 (layout 0 sample_fields)"
  using build_safe [OF sample_fields_ok(4) refl, of arena_ample dict_hooks_none table_config_default 7 0]
    build_layout [OF sample_fields_ok, of 7 0] by simp

text \<open>C25. Looking up a tag returns the first field with that tag and never a later one or
  another tag's; and it always finds it unless the frame has more than 128 different tags,
  the bound of the probe length.\<close>

theorem table_find_first:
  assumes "tbl_status t = ok ()" "length frame < 2 ^ 32" "t = build mr hooks cfg seed frame rsv"
  shows "(\<forall>e. table_find t tag = ok e \<longrightarrow> first_entry (tbl_entries t) tag = Some e) \<and>
    (card (set (map ent_tag (tbl_entries t))) \<le> 128 \<longrightarrow>
       table_find t tag = (case first_entry (tbl_entries t) tag of None \<Rightarrow> unexpected wire_required_field_missing | Some e \<Rightarrow> ok e))"
proof -
  define es where "es = tbl_entries t"
  have s: "tbl_status (build mr hooks cfg seed frame rsv) = ok ()" using assms(1,3) by simp
  have few: "length es < 2 ^ 31" using build_entries_few(2) [OF s assms(2)] assms(3) by (simp add: es_def)
  have ov: "tbl_overlay t = overlay_of seed es" "tbl_seed t = seed"
    using build_entries [OF s] assms(3) by (simp_all add: es_def)
  obtain k where k: "k \<le> 32" "length es < 2 ^ k" "ovl.inv k seed es (length es) (overlay_of seed es)"
    using overlay_of_inv [OF few] .
  have len: "length (overlay_of seed es) = 2 ^ k" using k(3) by (simp add: ovl.inv_def)
  let ?m = "of_nat (2 ^ k - 1) :: 32 word"
  obtain x where x: "find_loop es (overlay_of seed es) ?m tag (mix tag seed AND ?m) 0 = map_option (\<lambda>x. es ! x) x"
    "ovl.search k seed es (overlay_of seed es) tag x"
    using find_loop_search [OF k(1) len, of "mix tag seed AND ?m" seed tag 0 es] unat_and_mask [OF k(1), of "mix tag seed"]
    by (auto simp: ovl.pr_def)
  have "overlay_of seed es \<noteq> []" using len by auto
  then have f: "table_find t tag = (case x of None \<Rightarrow> unexpected wire_required_field_missing | Some x \<Rightarrow> ok (es ! x))"
    using assms(1) ov len x(1) unfolding table_find_def Let_def by (simp add: es_def [symmetric] split: option.split)
  show ?thesis
  proof (cases x)
    case (Some i)
    then have "first_entry es tag = Some (es ! i)"
      using ovl.search_first [OF k(3)] x(2) by (intro first_entry_index) auto
    then show ?thesis using f Some by (simp add: es_def)
  next
    case None
    have "first_entry es tag = None" if c: "card (set (map ent_tag es)) \<le> 128"
    proof (rule ccontr)
      assume "first_entry es tag \<noteq> None"
      then obtain i where i: "i < length es" "ent_tag (es ! i) = tag"
        by (auto simp: first_entry_def find_Some_iff)
      have "ovl.crowded k seed es (overlay_of seed es) tag"
        using ovl.search_missing [OF k(3) _ i(1)] x(2) None i(2) by simp
      from ovl.crowded_keys [OF k(3) this k(2) i(1)] i(2)
      have "128 < card ((\<lambda>x. ent_tag (es ! x)) ` {..<length es})" by (simp add: kMaxBuildProbe_def)
      moreover have "(\<lambda>x. ent_tag (es ! x)) ` {..<length es} = set (map ent_tag es)"
        by (force simp: set_conv_nth)
      ultimately show False using c by simp
    qed
    then show ?thesis using f None by (simp add: es_def)
  qed
qed

theorem table_find_first_witness:
  "\<exists>e. table_find (build arena_ample dict_hooks_none table_config_default 7 (wire_fields sample_fields) 0) 58 = ok e \<and>
     field_of (wire_fields sample_fields) e = (58, ''hi'')"
proof -
  let ?l = "layout 0 sample_fields"
  note l = build_layout [OF sample_fields_ok, of 7 0]
  have len: "length sample_fields = 4" "sample_fields ! 3 = (58, ''hi'')" by (simp_all add: sample_fields_def)
  have f: "first_entry ?l 58 = Some (?l ! 3)" by (simp add: sample_fields_def first_entry_def field_entry_def)
  have "field_of (wire_fields sample_fields) (?l ! 3) = (58, ''hi'')"
    using arg_cong [OF field_of_layout [of "wire_fields sample_fields" "[]" sample_fields], of "\<lambda>xs. xs ! 3"] len by simp
  moreover have "card (set (map ent_tag ?l)) \<le> 128" using card_length [of "map ent_tag ?l"] len by simp
  note mp [OF conjunct2 [OF table_find_first [OF l(1) sample_fields_ok(4) refl, of 58, unfolded l(2) f option.case]] this]
  ultimately show ?thesis by blast
qed

end
