(* ===== verification/Fixpp_Groups.thy ===== *)
theory Fixpp_Groups
  imports Fixpp_OffsetTable
begin

text \<open>
  Repeating groups of an offset table (\<^verbatim>\<open>src/wire/offset_table.cpp\<close>): the extent of a group
  under the dictionary's membership predicate, and its instances as byte slices.

  A slice's \<^verbatim>\<open>data\<close> pointer is its offset from the base of the table's frame.  The two
  callbacks of the dictionary are those of the \<^typ>\<open>dict_hooks\<close> of the table; a table without
  a dictionary has none.  The walk over the entries calls itself for nested groups, at most
  \<open>kMaxGroupDepth\<close> levels deep, and its loops advance by what the nested call consumed; they
  are partial functions, shown below to return for every table and dictionary.
\<close>

definition kMaxGroupDepth :: nat where "kMaxGroupDepth = 16"

definition set_group_context :: "offset_table \<Rightarrow> group_context \<Rightarrow> offset_table" where
  "set_group_context t ctx = t\<lparr>tbl_ctx := ctx\<rparr>"

definition stored_group_context :: "offset_table \<Rightarrow> group_context" where
  "stored_group_context t = tbl_ctx t"

definition group_context_for :: "offset_table \<Rightarrow> nat \<Rightarrow> group_context" where
  "group_context_for t no_tag = pushed (stored_group_context t) no_tag"

definition parse_declared_count :: "byte list \<Rightarrow> entry \<Rightarrow> nat" where
  "parse_declared_count frame e = parse_bounded_u32 (sub_span frame (ent_offset e) (ent_length e))"

definition group_member :: "dict_hooks \<Rightarrow> group_context \<Rightarrow> nat \<Rightarrow> nat \<Rightarrow> bool" where
  "group_member hooks ctx no_tag tag = (case group_member_fn hooks of None \<Rightarrow> False | Some f \<Rightarrow> f ctx no_tag tag)"

subsection \<open>The extent of a group\<close>

text \<open>The members behind the delimiter of an instance; \<open>step\<close> consumes one field, or the whole
  nested group it heads.\<close>

partial_function (option) member_loop ::
    "(nat \<Rightarrow> (nat \<times> bool) option) \<Rightarrow> (nat \<Rightarrow> bool) \<Rightarrow> entry list \<Rightarrow> nat \<Rightarrow> nat \<Rightarrow> (nat \<times> bool) option" where
  "member_loop step is_member es delim k =
     (if k < length es \<and> ent_tag (es ! k) \<noteq> delim then
        if \<not> is_member (ent_tag (es ! k)) then Some (k, False)
        else Option.bind (step k) (\<lambda>(k, overflow).
          if overflow then Some (k, True) else member_loop step is_member es delim k)
      else Some (k, False))"

partial_function (option) instance_loop ::
    "(nat \<Rightarrow> (nat \<times> bool) option) \<Rightarrow> (nat \<Rightarrow> bool) \<Rightarrow> entry list \<Rightarrow> nat \<Rightarrow> nat \<Rightarrow> nat \<Rightarrow> nat \<Rightarrow> nat \<Rightarrow>
     (nat \<times> bool) option" where
  "instance_loop step is_member es max_entries delim declared inst k =
     (if k < length es \<and> inst < declared \<and> ent_tag (es ! k) = delim then
        Option.bind (step k) (\<lambda>(k1, overflow).
          if overflow then Some (k1, True)
          else Option.bind (member_loop step is_member es delim k1) (\<lambda>(k2, overflow).
            if overflow then Some (k2, True)
            else if k2 - k > max_entries then Some (k2, True)
            else instance_loop step is_member es max_entries delim declared (inst + 1) k2))
      else Some (k, False))"

text \<open>\<open>levels\<close> is \<^verbatim>\<open>kMaxGroupDepth - depth\<close>: the walk stops with an overflow at 0.\<close>

fun extent_levels :: "offset_table \<Rightarrow> nat \<Rightarrow> nat \<Rightarrow> group_context \<Rightarrow> (nat \<times> bool) option" where
  "extent_levels t 0 count_idx ctx = Some (count_idx, True)"
| "extent_levels t (Suc levels) count_idx ctx =
     (let es = tbl_entries t; hooks = tbl_hooks t; first = count_idx + 1 in
      if first \<ge> length es then Some (first, False)
      else if group_member_fn hooks = None then Some (first, False)
      else
        let group_no_tag = ent_tag (es ! count_idx); delim = ent_tag (es ! first) in
        if \<not> group_member hooks ctx group_no_tag delim then Some (first, False)
        else
          let declared = parse_declared_count (tbl_frame t) (es ! count_idx) in
          if declared = 0 then Some (first, False)
          else
            let child = pushed ctx group_no_tag;
                consume_one = (\<lambda>i.
                  if i + 1 < length es \<and> group_member hooks child (ent_tag (es ! i)) (ent_tag (es ! (i + 1)))
                  then extent_levels t levels i child
                  else Some (i + 1, False))
            in instance_loop consume_one (group_member hooks ctx group_no_tag) es
                 (max_group_entries_per_instance (tbl_cfg t)) delim declared 0 first)"

definition consume_group_extent :: "offset_table \<Rightarrow> nat \<Rightarrow> group_context \<Rightarrow> nat \<Rightarrow> (nat \<times> bool) option" where
  "consume_group_extent t count_idx ctx d = extent_levels t (kMaxGroupDepth - d) count_idx ctx"

record group_index =
  gi_no_tag :: nat
  gi_first :: nat
  gi_count :: nat

definition group :: "offset_table \<Rightarrow> nat \<Rightarrow> group_index expected_t option" where
  "group t no_tag =
     (case tbl_status t of
        Inl e \<Rightarrow> Some (unexpected e)
      | Inr _ \<Rightarrow>
          if group_member_fn (tbl_hooks t) = None then Some (unexpected wire_required_field_missing)
          else
            let es = tbl_entries t; count_idx = length (takeWhile (\<lambda>e. ent_tag e \<noteq> no_tag) es) in
            if count_idx = length es then Some (unexpected wire_required_field_missing)
            else
              let first = count_idx + 1 in
              if first \<ge> length es then Some (ok \<lparr>gi_no_tag = no_tag, gi_first = first, gi_count = 0\<rparr>)
              else
                let delim = ent_tag (es ! first); ctx = stored_group_context t in
                if \<not> group_member (tbl_hooks t) ctx no_tag delim
                then Some (unexpected wire_required_field_missing)
                else Option.bind (consume_group_extent t count_idx ctx (depth ctx)) (\<lambda>(group_end, overflow).
                  if overflow then Some (unexpected wire_group_too_large)
                  else Some (ok \<lparr>gi_no_tag = no_tag, gi_first = first, gi_count = group_end - first\<rparr>)))"

subsection \<open>Instances as slices\<close>

fun back_digits :: "byte list \<Rightarrow> nat \<Rightarrow> nat" where
  "back_digits frame 0 = 0"
| "back_digits frame (Suc p) = (if is_digit (frame ! p) then back_digits frame p else Suc p)"

definition field_start_from_val :: "byte list \<Rightarrow> nat \<Rightarrow> nat" where
  "field_start_from_val frame val_start = (if val_start = 0 then 0 else back_digits frame (val_start - 1))"

definition is_boundary :: "entry list \<Rightarrow> nat \<Rightarrow> nat \<Rightarrow> nat \<Rightarrow> nat \<Rightarrow> bool" where
  "is_boundary es first group_end delim k \<longleftrightarrow> k = group_end \<or> (k > first \<and> ent_tag (es ! k) = delim)"

definition group_delimiter :: "offset_table \<Rightarrow> nat \<Rightarrow> nat \<Rightarrow> nat" where
  "group_delimiter t no_tag first =
     (let wire = ent_tag (tbl_entries t ! first) in
      case group_delim_fn (tbl_hooks t) of
        None \<Rightarrow> wire
      | Some f \<Rightarrow> let d = f (stored_group_context t) no_tag in if d \<noteq> 0 then d else wire)"

text \<open>The filling pass over the positions \<open>ks\<close>, from the start of the current instance.\<close>

fun fill_slices :: "byte list \<Rightarrow> entry list \<Rightarrow> (nat \<Rightarrow> bool) \<Rightarrow> nat list \<Rightarrow> nat \<Rightarrow> group_slice list" where
  "fill_slices frame es boundary [] inst_start = []"
| "fill_slices frame es boundary (k # ks) inst_start =
     (if boundary k then
        let fs = field_start_from_val frame (ent_offset (es ! inst_start));
            end_off = u32 (ent_offset (es ! (k - 1)) + ent_length (es ! (k - 1)));
            len = (if end_off > fs then end_off - fs else 0)
        in \<lparr>slice_data = fs, slice_len = len\<rparr> # fill_slices frame es boundary ks k
      else fill_slices frame es boundary ks inst_start)"

record group_slices_result =
  gsr_slices :: "group_slice list"
  gsr_alloc_failed :: bool

text \<open>The slices of the instances, as the two passes compute them.\<close>

definition partition_group :: "offset_table \<Rightarrow> nat \<Rightarrow> group_slice list option" where
  "partition_group t no_tag =
     Option.bind (group t no_tag) (\<lambda>gi.
       Some (case gi of
          Inl _ \<Rightarrow> []
        | Inr g \<Rightarrow>
            let es = tbl_entries t; first = gi_first g; group_end = first + gi_count g in
            if first < length es \<and> first < group_end
            then fill_slices (tbl_frame t) es (is_boundary es first group_end (group_delimiter t no_tag first))
                   [first..<group_end + 1] first
            else []))"

text \<open>The result and the table with its cache row; \<open>mr\<close> tells whether the slice array or the
  cache row cannot be allocated.\<close>

definition group_slices_status ::
    "arena \<Rightarrow> offset_table \<Rightarrow> nat \<Rightarrow> (group_slices_result \<times> offset_table) option" where
  "group_slices_status mr t no_tag =
     (case map_of (tbl_groups t) no_tag of
        Some slices \<Rightarrow> Some (\<lparr>gsr_slices = slices, gsr_alloc_failed = False\<rparr>, t)
      | None \<Rightarrow>
          Option.bind (partition_group t no_tag) (\<lambda>slices.
            if slices_fail mr then Some (\<lparr>gsr_slices = [], gsr_alloc_failed = True\<rparr>, t)
            else Some (\<lparr>gsr_slices = slices, gsr_alloc_failed = False\<rparr>,
                       t\<lparr>tbl_groups := tbl_groups t @ [(no_tag, slices)]\<rparr>)))"

definition group_slices :: "arena \<Rightarrow> offset_table \<Rightarrow> nat \<Rightarrow> (group_slice list \<times> offset_table) option" where
  "group_slices mr t no_tag = map_option (\<lambda>(r, t). (gsr_slices r, t)) (group_slices_status mr t no_tag)"

subsection \<open>The walk returns\<close>

definition advances :: "nat \<Rightarrow> (nat \<Rightarrow> (nat \<times> bool) option) \<Rightarrow> bool" where
  "advances n step \<longleftrightarrow> (\<forall>i < n. \<exists>k overflow. step i = Some (k, overflow) \<and> (\<not> overflow \<longrightarrow> i < k \<and> k \<le> n))"

lemma advancesE:
  assumes "advances n step" "i < n"
  obtains k overflow where "step i = Some (k, overflow)" "\<not> overflow \<Longrightarrow> i < k \<and> k \<le> n"
  using assms unfolding advances_def by blast

lemma member_loop_returns:
  assumes "advances (length es) step" "k \<le> length es"
  shows "\<exists>k' overflow. member_loop step is_member es delim k = Some (k', overflow) \<and>
           (\<not> overflow \<longrightarrow> k \<le> k' \<and> k' \<le> length es)"
  using assms(2)
proof (induction "length es - k" arbitrary: k rule: less_induct)
  case less
  show ?case
  proof (cases "k < length es \<and> ent_tag (es ! k) \<noteq> delim \<and> is_member (ent_tag (es ! k))")
    case True
    then obtain k1 o1 where s: "step k = Some (k1, o1)" "\<not> o1 \<Longrightarrow> k < k1 \<and> k1 \<le> length es"
      using advancesE [OF assms(1)] by blast
    show ?thesis
    proof (cases o1)
      case True
      with \<open>k < length es \<and> _\<close> s show ?thesis by (subst member_loop.simps) auto
    next
      case False
      with s have k1: "k < k1" "k1 \<le> length es" by simp_all
      with True have "length es - k1 < length es - k" by simp
      from less(1) [OF this k1(2)] obtain k' o' where
        "member_loop step is_member es delim k1 = Some (k', o')" "\<not> o' \<longrightarrow> k1 \<le> k' \<and> k' \<le> length es"
        by blast
      with True False s k1 show ?thesis by (subst member_loop.simps) auto
    qed
  next
    case False
    with less(2) show ?thesis by (subst member_loop.simps) auto
  qed
qed

lemma instance_loop_returns:
  assumes "advances (length es) step" "k \<le> length es"
  shows "\<exists>k' overflow. instance_loop step is_member es cap delim declared inst k = Some (k', overflow) \<and>
           (\<not> overflow \<longrightarrow> k \<le> k' \<and> k' \<le> length es \<and> k' - k \<le> (declared - inst) * cap)"
  using assms(2)
proof (induction "length es - k" arbitrary: k inst rule: less_induct)
  case less
  show ?case
  proof (cases "k < length es \<and> inst < declared \<and> ent_tag (es ! k) = delim")
    case True
    then obtain k1 o1 where s: "step k = Some (k1, o1)" "\<not> o1 \<Longrightarrow> k < k1 \<and> k1 \<le> length es"
      using advancesE [OF assms(1)] by blast
    show ?thesis
    proof (cases o1)
      case True
      with \<open>k < length es \<and> _\<close> s show ?thesis by (subst instance_loop.simps) auto
    next
      case False
      with s have k1: "k < k1" "k1 \<le> length es" by simp_all
      obtain k2 o2 where m: "member_loop step is_member es delim k1 = Some (k2, o2)"
          "\<not> o2 \<longrightarrow> k1 \<le> k2 \<and> k2 \<le> length es"
        using member_loop_returns [OF assms(1) k1(2)] by blast
      show ?thesis
      proof (cases "o2 \<or> k2 - k > cap")
        case True
        with \<open>k < length es \<and> _\<close> \<open>\<not> o1\<close> s m show ?thesis by (subst instance_loop.simps) auto
      next
        case False
        with m k1 have k2: "k < k2" "k2 \<le> length es" "k2 - k \<le> cap" by simp_all
        with True have "length es - k2 < length es - k" by simp
        from less(1) [OF this k2(2), of "inst + 1"] obtain k' o' where r:
          "instance_loop step is_member es cap delim declared (inst + 1) k2 = Some (k', o')"
          "\<not> o' \<longrightarrow> k2 \<le> k' \<and> k' \<le> length es \<and> k' - k2 \<le> (declared - (inst + 1)) * cap" by blast
        from True have "(declared - inst) * cap = cap + (declared - (inst + 1)) * cap"
          by (metis Suc_diff_Suc Suc_eq_plus1 mult_Suc)
        with True False \<open>\<not> o1\<close> s m k2 r show ?thesis by (subst instance_loop.simps) auto
      qed
    qed
  next
    case False
    with less(2) show ?thesis by (subst instance_loop.simps) auto
  qed
qed

lemma extent_levels_returns:
  assumes "count_idx < length (tbl_entries t)"
  shows "\<exists>k overflow. extent_levels t levels count_idx ctx = Some (k, overflow) \<and>
           (\<not> overflow \<longrightarrow> count_idx < k \<and> k \<le> length (tbl_entries t) \<and>
              k - (count_idx + 1) \<le> parse_declared_count (tbl_frame t) (tbl_entries t ! count_idx) *
                max_group_entries_per_instance (tbl_cfg t))"
  using assms
proof (induction levels arbitrary: count_idx ctx)
  case (Suc levels)
  let ?n = "length (tbl_entries t)"
  let ?child = "pushed ctx (ent_tag (tbl_entries t ! count_idx))"
  let ?step = "\<lambda>i. if i + 1 < ?n \<and> group_member (tbl_hooks t) ?child (ent_tag (tbl_entries t ! i)) (ent_tag (tbl_entries t ! (i + 1)))
                  then extent_levels t levels i ?child else Some (i + 1, False)"
  have adv: "advances ?n ?step"
    unfolding advances_def
  proof (intro allI impI)
    fix i assume "i < ?n"
    then show "\<exists>k overflow. ?step i = Some (k, overflow) \<and> (\<not> overflow \<longrightarrow> i < k \<and> k \<le> ?n)"
      using Suc.IH [of i ?child] by (cases "i + 1 < ?n") auto
  qed
  show ?case
  proof (cases "count_idx + 1 < ?n")
    case True
    then obtain k overflow where "instance_loop ?step (group_member (tbl_hooks t) ctx (ent_tag (tbl_entries t ! count_idx)))
        (tbl_entries t) (max_group_entries_per_instance (tbl_cfg t)) (ent_tag (tbl_entries t ! (count_idx + 1)))
        (parse_declared_count (tbl_frame t) (tbl_entries t ! count_idx)) 0 (count_idx + 1) = Some (k, overflow)"
      "\<not> overflow \<longrightarrow> count_idx + 1 \<le> k \<and> k \<le> ?n \<and> k - (count_idx + 1) \<le>
        (parse_declared_count (tbl_frame t) (tbl_entries t ! count_idx) - 0) * max_group_entries_per_instance (tbl_cfg t)"
      using instance_loop_returns [OF adv, of "count_idx + 1"] by (meson less_imp_le)
    with True show ?thesis by (auto simp: Let_def)
  next
    case False
    with Suc.prems show ?thesis by (auto simp: Let_def)
  qed
qed auto

lemma group_returns:
  obtains r where "group t no_tag = Some r"
    and "\<And>g. r = ok g \<Longrightarrow> tbl_status t = ok () \<and> gi_no_tag g = no_tag \<and> 0 < gi_first g \<and>
           ent_tag (tbl_entries t ! (gi_first g - 1)) = no_tag \<and>
           gi_first g + gi_count g \<le> length (tbl_entries t) \<and>
           gi_count g \<le> parse_declared_count (tbl_frame t) (tbl_entries t ! (gi_first g - 1)) *
             max_group_entries_per_instance (tbl_cfg t)"
proof -
  let ?es = "tbl_entries t"
  let ?c = "length (takeWhile (\<lambda>e. ent_tag e \<noteq> no_tag) ?es)"
  show thesis
  proof (cases "tbl_status t")
    case (Inl e)
    then show ?thesis by (intro that [of "unexpected e"]) (simp_all add: group_def)
  next
    case (Inr u)
    show ?thesis
    proof (cases "?c < length ?es")
      case True
      then have tag: "ent_tag (?es ! ?c) = no_tag" using nth_length_takeWhile [of "\<lambda>e. ent_tag e \<noteq> no_tag" ?es] by simp
      obtain k overflow where e: "consume_group_extent t ?c (stored_group_context t) (depth (stored_group_context t)) = Some (k, overflow)"
        "\<not> overflow \<longrightarrow> ?c < k \<and> k \<le> length ?es \<and>
           k - (?c + 1) \<le> parse_declared_count (tbl_frame t) (?es ! ?c) * max_group_entries_per_instance (tbl_cfg t)"
        unfolding consume_group_extent_def using extent_levels_returns [OF True] by blast
      show ?thesis
        using True tag e Inr
        by (intro that [of "the (group t no_tag)"]) (auto simp: group_def Let_def Suc_le_eq split: if_splits)
    next
      case False
      then have "?c = length ?es" using length_takeWhile_le [of "\<lambda>e. ent_tag e \<noteq> no_tag" ?es] by linarith
      with Inr show ?thesis
        by (intro that [of "unexpected wire_required_field_missing"]) (simp_all add: group_def Let_def)
    qed
  qed
qed

subsection \<open>The slices tile the group\<close>

definition entry_end :: "entry \<Rightarrow> nat" where "entry_end e = ent_offset e + ent_length e"

definition entry_start :: "entry list \<Rightarrow> nat \<Rightarrow> nat" where
  "entry_start es k = (if k = 0 then 0 else entry_end (es ! (k - 1)) + 1)"

lemma tiles_nth:
  assumes "tiles buf i es" "k < length es"
  defines "s \<equiv> (if k = 0 then i else entry_end (es ! (k - 1)) + 1)"
  shows "s + 1 < ent_offset (es ! k)" "entry_end (es ! k) \<le> length buf"
    "digits (sub_span buf s (ent_offset (es ! k) - 1 - s))"
    "0 < k \<Longrightarrow> buf ! (s - 1) = SOH"
proof -
  have "s + 1 < ent_offset (es ! k) \<and> entry_end (es ! k) \<le> length buf \<and>
    digits (sub_span buf s (ent_offset (es ! k) - 1 - s)) \<and> (0 < k \<longrightarrow> buf ! (s - 1) = SOH)"
    using assms(1,2) unfolding s_def
  proof (induction arbitrary: k rule: tiles.induct)
    case (tiles_field i e es)
    show ?case
    proof (cases k)
      case 0
      with tiles_field show ?thesis by (simp add: entry_end_def)
    next
      case (Suc j)
      let ?m = "min (ent_offset e + ent_length e + 1) (length buf)"
      from Suc tiles_field have j: "j < length es" by simp
      note IH = tiles_field.IH [OF j]
      show ?thesis
      proof (cases j)
        case 0
        with IH have "?m + 1 < ent_offset (es ! 0)" "ent_offset (es ! 0) \<le> length buf" by (simp_all add: entry_end_def)
        then have "?m = ent_offset e + ent_length e + 1" "ent_offset e + ent_length e < length buf" by linarith+
        with IH 0 Suc tiles_field(7) show ?thesis by (simp add: entry_end_def)
      next
        case (Suc l)
        with IH \<open>k = Suc j\<close> show ?thesis by simp
      qed
    qed
  qed simp
  then show "s + 1 < ent_offset (es ! k)" "entry_end (es ! k) \<le> length buf"
    "digits (sub_span buf s (ent_offset (es ! k) - 1 - s))"
    "0 < k \<Longrightarrow> buf ! (s - 1) = SOH" by simp_all
qed

lemma back_digits_run:
  assumes "s \<le> p" "\<forall>j. s \<le> j \<longrightarrow> j < p \<longrightarrow> is_digit (buf ! j)" "s = 0 \<or> \<not> is_digit (buf ! (s - 1))"
  shows "back_digits buf p = s"
  using assms
proof (induction p)
  case (Suc p)
  then show ?case by (cases "s = Suc p") auto
qed simp

lemma field_start_tiles:
  assumes "tiles buf 0 es" "k < length es"
  shows "field_start_from_val buf (ent_offset (es ! k)) = entry_start es k"
proof -
  let ?s = "entry_start es k" and ?o = "ent_offset (es ! k)"
  note t = tiles_nth [OF assms, folded entry_start_def]
  have "is_digit (buf ! j)" if "?s \<le> j" "j < ?o - 1" for j
  proof -
    have "sub_span buf ?s (?o - 1 - ?s) ! (j - ?s) = buf ! j"
      using t(1,2) that by (simp add: sub_span_def entry_end_def)
    moreover have "j - ?s < length (sub_span buf ?s (?o - 1 - ?s))"
      using t(1,2) that by (simp add: sub_span_def entry_end_def)
    ultimately show ?thesis using t(3) by (metis list_all_length)
  qed
  then have "back_digits buf (?o - 1) = ?s"
    using t(1,4) by (intro back_digits_run) (auto simp: entry_start_def)
  then show ?thesis using t(1) by (simp add: field_start_from_val_def)
qed

fun join_soh :: "byte list list \<Rightarrow> byte list" where
  "join_soh [] = []"
| "join_soh [x] = x"
| "join_soh (x # y # zs) = x @ SOH # join_soh (y # zs)"

definition slice_bytes :: "byte list \<Rightarrow> group_slice \<Rightarrow> byte list" where
  "slice_bytes frame s = sub_span frame (slice_data s) (slice_len s)"

lemma join_soh_Cons: "zs \<noteq> [] \<Longrightarrow> join_soh (x # zs) = x @ SOH # join_soh zs"
  by (cases zs) simp_all

lemma length_fill_slices: "length (fill_slices frame es b ks i) = length (filter b ks)"
  by (induction ks arbitrary: i) (simp_all add: Let_def)

lemma sub_span_split_at:
  assumes "a \<le> m" "m < b" "b \<le> length xs"
  shows "sub_span xs a (b - a) = sub_span xs a (m - a) @ xs ! m # sub_span xs (m + 1) (b - (m + 1))"
proof -
  have "xs ! m # drop (m + 1) xs = drop m xs" using assms by (metis Cons_nth_drop_Suc Suc_eq_plus1 less_le_trans)
  moreover have "sub_span xs a (b - a) = take (m - a) (drop a xs) @ take (b - m) (drop m xs)"
    unfolding sub_span_def using assms take_add [of "m - a" "b - m" "drop a xs"] by simp
  moreover have "b - m = Suc (b - (m + 1))" using assms by simp
  ultimately show ?thesis by (metis sub_span_def take_Suc_Cons)
qed

lemma entry_order:
  assumes "tiles buf 0 es" "i \<le> k" "k < length es"
  shows "entry_start es i + 2 \<le> entry_end (es ! k)" "entry_end (es ! k) \<le> length buf"
proof -
  have "entry_start es i \<le> entry_start es k" using assms(2,3)
  proof (induction k)
    case (Suc k)
    show ?case
    proof (cases "i = Suc k")
      case False
      with Suc have "entry_start es i \<le> entry_start es k" by simp
      moreover have "entry_start es k \<le> entry_end (es ! k)"
        using tiles_nth(1) [OF assms(1), of k, folded entry_start_def] Suc by (simp add: entry_end_def)
      ultimately show ?thesis by (simp add: entry_start_def)
    qed simp
  qed simp
  with tiles_nth(1,2) [OF assms(1,3), folded entry_start_def]
  show "entry_start es i + 2 \<le> entry_end (es ! k)" "entry_end (es ! k) \<le> length buf" by (simp_all add: entry_end_def)
qed

lemma fill_slices_tile:
  assumes t: "tiles frame 0 es" "length frame < 2 ^ 32" and e: "group_end \<le> length es" "b group_end"
    and k: "i < k" "k \<le> group_end"
  shows "join_soh (map (slice_bytes frame) (fill_slices frame es b [k..<group_end + 1] i)) =
      sub_span frame (entry_start es i) (entry_end (es ! (group_end - 1)) - entry_start es i) \<and>
    (\<forall>s \<in> set (fill_slices frame es b [k..<group_end + 1] i). 2 \<le> slice_len s \<and> slice_data s + slice_len s \<le> length frame)"
  using k
proof (induction "group_end - k" arbitrary: k i)
  case 0
  then have k: "k = group_end" "i \<le> group_end - 1" "group_end - 1 < length es" using e by simp_all
  note o = entry_order [OF t(1) k(2,3)]
  show ?case using o k e t(2) 0 field_start_tiles [OF t(1), of i]
    by (simp add: Let_def u32_def slice_bytes_def flip: entry_end_def)
next
  case (Suc n)
  then have k: "k < group_end" by simp
  have up: "[k..<group_end + 1] = k # [k + 1..<group_end + 1]" using k by (simp add: upt_conv_Cons)
  show ?case
  proof (cases "b k")
    case False
    then show ?thesis using Suc.hyps(1) [of "k + 1" i] Suc.hyps(2) Suc.prems k unfolding up by (simp del: upt_Suc)
  next
    case True
    let ?rest = "fill_slices frame es b [k + 1..<group_end + 1] k"
    have o: "entry_start es i + 2 \<le> entry_end (es ! (k - 1))" "entry_end (es ! (k - 1)) \<le> length frame"
      using entry_order [OF t(1), of i "k - 1"] Suc.prems e by simp_all
    have g: "entry_start es k + 2 \<le> entry_end (es ! (group_end - 1))" "entry_end (es ! (group_end - 1)) \<le> length frame"
      using entry_order [OF t(1), of k "group_end - 1"] k e by simp_all
    have soh: "frame ! entry_end (es ! (k - 1)) = SOH" "entry_start es k = entry_end (es ! (k - 1)) + 1"
      using tiles_nth(4) [OF t(1), of k] k e Suc.prems by (simp_all add: entry_start_def)
    have "group_end \<in> set (filter b [k + 1..<group_end + 1])" using k e by simp
    then have "0 < length ?rest" by (metis length_fill_slices length_pos_if_in_set)
    then have ne: "fill_slices frame es b [Suc k..<Suc group_end] k \<noteq> []" by simp
    have n: "n = group_end - (k + 1)" using Suc.hyps(2) by simp
    show ?thesis using Suc.hyps(1) [OF n, of k] k Suc.prems o g t(2) True e
        field_start_tiles [OF t(1), of i]
        sub_span_split_at [of "entry_start es i" "entry_end (es ! (k - 1))" "entry_end (es ! (group_end - 1))" frame]
      unfolding up by (simp add: Let_def u32_def join_soh_Cons ne soh [simplified] slice_bytes_def del: upt_Suc flip: entry_end_def)
  qed
qed

subsection \<open>Nested groups\<close>

text \<open>The cache of sub-tables, one per slice and dictionary, that the table of the whole message
  owns.  Rows point at sub-tables that several rows may share, so the sub-tables live in a
  store (\<open>nc_tables\<close>, each with the offset of its slice) and a row names one by its index;
  \<^verbatim>\<open>None\<close> is the null pointer of a failed build.  A dictionary is identified by \<open>key\<close>, its
  address.  \<open>mem\<close> is the frame the slices point into.\<close>

record nested_arena =
  shell_fails :: bool
  sub_arena :: arena
  slice_arena :: arena
  row_fails :: bool

record nested_cache_row =
  row_slice :: nat
  row_hooks_key :: nat
  row_no_tag :: nat
  row_table :: "nat option"

record nested_cache =
  nc_rows :: "nested_cache_row list"
  nc_tables :: "(nat \<times> offset_table) list"

definition build_nested_subview ::
    "nested_arena \<Rightarrow> byte list \<Rightarrow> 32 word \<Rightarrow> nat \<Rightarrow> nat \<Rightarrow> dict_hooks \<Rightarrow> group_context \<Rightarrow> offset_table option" where
  "build_nested_subview mr mem seed data len hooks ctx =
     (if shell_fails mr then None
      else Some (set_group_context
        (build (sub_arena mr) hooks table_config_default seed (sub_span mem data (len + 1)) 0) ctx))"

definition rebase :: "nat \<Rightarrow> group_slice \<Rightarrow> group_slice" where
  "rebase base s = s\<lparr>slice_data := base + slice_data s\<rparr>"

definition resolve_nested_result ::
    "nested_arena \<Rightarrow> nested_cache \<Rightarrow> nat option \<Rightarrow> nat \<Rightarrow> (group_slices_result \<times> nested_cache) option" where
  "resolve_nested_result mr c table nested_no_tag =
     (case table of
        None \<Rightarrow> Some (\<lparr>gsr_slices = [], gsr_alloc_failed = True\<rparr>, c)
      | Some i \<Rightarrow>
          let (base, t) = nc_tables c ! i; sub_build_oom = (tbl_status t = unexpected out_of_memory) in
          Option.bind (group_slices_status (slice_arena mr) t nested_no_tag) (\<lambda>(s, t).
            Some (\<lparr>gsr_slices = map (rebase base) (gsr_slices s), gsr_alloc_failed = gsr_alloc_failed s \<or> sub_build_oom\<rparr>,
                  c\<lparr>nc_tables := (nc_tables c)[i := (base, t)]\<rparr>)))"

text \<open>The pass over the rows: \<open>Inl\<close> is an exact hit, \<open>Inr\<close> the table of the first row of the slice.\<close>

fun cache_scan ::
    "nested_cache_row list \<Rightarrow> nat \<Rightarrow> nat \<Rightarrow> nat \<Rightarrow> bool \<Rightarrow> nat option \<Rightarrow> nat option + nat option" where
  "cache_scan [] data key no_tag found table = Inr table"
| "cache_scan (row # rows) data key no_tag found table =
     (if row_slice row \<noteq> data \<or> row_hooks_key row \<noteq> key then cache_scan rows data key no_tag found table
      else if row_no_tag row = no_tag then Inl (row_table row)
      else if \<not> found then cache_scan rows data key no_tag True (row_table row)
      else cache_scan rows data key no_tag found table)"

definition nested_group_slices ::
    "nested_arena \<Rightarrow> byte list \<Rightarrow> 32 word \<Rightarrow> nested_cache \<Rightarrow> nat option \<Rightarrow> nat \<Rightarrow> nat \<Rightarrow> dict_hooks \<Rightarrow> nat \<Rightarrow>
     group_context \<Rightarrow> (group_slices_result \<times> nested_cache) option" where
  "nested_group_slices mr mem seed c data_ptr len nested_no_tag hooks hooks_key ctx =
     (case data_ptr of
        None \<Rightarrow> Some (\<lparr>gsr_slices = [], gsr_alloc_failed = False\<rparr>, c)
      | Some data \<Rightarrow>
          (case cache_scan (nc_rows c) data hooks_key nested_no_tag False None of
             Inl table \<Rightarrow> resolve_nested_result mr c table nested_no_tag
           | Inr found \<Rightarrow>
               let (table, c) =
                     (case found of
                        Some i \<Rightarrow> (Some i, c)
                      | None \<Rightarrow>
                          (case build_nested_subview mr mem seed data len hooks ctx of
                             None \<Rightarrow> (None, c)
                           | Some t \<Rightarrow> (Some (length (nc_tables c)), c\<lparr>nc_tables := nc_tables c @ [(data, t)]\<rparr>)));
                   row = \<lparr>row_slice = data, row_hooks_key = hooks_key, row_no_tag = nested_no_tag, row_table = table\<rparr>;
                   c = (if row_fails mr then c else c\<lparr>nc_rows := nc_rows c @ [row]\<rparr>)
               in resolve_nested_result mr c table nested_no_tag))"

subsection \<open>Allocation failures\<close>

lemma scan_value_no_oom: "scan_value hooks buf carry tag vs \<noteq> unexpected out_of_memory"
  by (auto simp: scan_value_def Let_def split: prod.split)

lemma tag_scan_no_oom: "tag_scan buf i tag \<noteq> unexpected out_of_memory"
proof (induction buf i tag rule: tag_scan.induct)
  case (1 buf i tag)
  then show ?case by (subst tag_scan.simps) (auto split: prod.split)
qed

lemma scan_fields_ample:
  "scan_fields mr hooks cfg buf i carry acc \<noteq> unexpected out_of_memory \<Longrightarrow>
   scan_fields arena_ample hooks cfg buf i carry acc = scan_fields mr hooks cfg buf i carry acc"
proof (induction mr hooks cfg buf i carry acc rule: scan_fields.induct)
  case (1 mr hooks cfg buf i carry acc)
  note IH = 1(1) and no = 1(2) [unfolded scan_fields.simps [of mr hooks cfg buf i carry acc]]
  show ?case
    unfolding scan_fields.simps [of arena_ample hooks cfg buf i carry acc] scan_fields.simps [of mr hooks cfg buf i carry acc]
    using IH no by (auto simp: arena_ample_def split: if_splits sum.splits prod.splits)
qed

lemma build_ample:
  assumes "tbl_status (build mr hooks cfg seed frame 0) \<noteq> unexpected out_of_memory"
  shows "build arena_ample hooks cfg seed frame 0 = build mr hooks cfg seed frame 0"
proof -
  have "scan_fields mr hooks cfg frame 0 (0, 0) [] \<noteq> unexpected out_of_memory"
    using assms by (auto simp: build_def table_failed_def)
  note s = scan_fields_ample [OF this]
  show ?thesis unfolding build_def s using assms
    by (auto simp: build_def arena_ample_def split: sum.splits if_splits) (simp_all add: table_failed_def)
qed

subsection \<open>The caches\<close>

lemma extent_levels_groups [simp]: "extent_levels (t\<lparr>tbl_groups := gs\<rparr>) levels i ctx = extent_levels t levels i ctx"
  by (induction levels arbitrary: i ctx) (simp_all add: Let_def cong: if_cong)

lemma group_groups [simp]: "group (t\<lparr>tbl_groups := gs\<rparr>) no_tag = group t no_tag"
  by (cases "tbl_status t") (simp_all add: group_def consume_group_extent_def stored_group_context_def Let_def)

lemma partition_group_groups [simp]: "partition_group (t\<lparr>tbl_groups := gs\<rparr>) no_tag = partition_group t no_tag"
  by (simp add: partition_group_def group_delimiter_def stored_group_context_def Let_def cong: sum.case_cong option.case_cong if_cong)

definition coherent :: "offset_table \<Rightarrow> bool" where
  "coherent t \<longleftrightarrow> (\<forall>(no_tag, slices) \<in> set (tbl_groups t). partition_group t no_tag = Some slices)"

lemma partition_group_returns: "\<exists>slices. partition_group t no_tag = Some slices"
  by (rule group_returns [of t no_tag]) (simp add: partition_group_def)

lemma group_slices_status_coherent:
  assumes "coherent t"
  obtains r t' where "group_slices_status mr t no_tag = Some (r, t')" "coherent t'"
    "t'\<lparr>tbl_groups := []\<rparr> = t\<lparr>tbl_groups := []\<rparr>"
    "\<not> gsr_alloc_failed r \<Longrightarrow> partition_group t no_tag = Some (gsr_slices r)"
proof -
  obtain slices where p: "partition_group t no_tag = Some slices" using partition_group_returns by blast
  show thesis
  proof (cases "map_of (tbl_groups t) no_tag")
    case (Some s)
    with assms have "partition_group t no_tag = Some s" by (auto simp: coherent_def dest: map_of_SomeD)
    with Some assms show ?thesis
      by (intro that [of "\<lparr>gsr_slices = s, gsr_alloc_failed = False\<rparr>" t]) (simp_all add: group_slices_status_def)
  next
    case None
    show ?thesis
    proof (cases "slices_fail mr")
      case True
      with None p assms show ?thesis
        by (intro that [of "\<lparr>gsr_slices = [], gsr_alloc_failed = True\<rparr>" t]) (simp_all add: group_slices_status_def)
    next
      case False
      with None p assms show ?thesis
        by (intro that [of "\<lparr>gsr_slices = slices, gsr_alloc_failed = False\<rparr>" "t\<lparr>tbl_groups := tbl_groups t @ [(no_tag, slices)]\<rparr>"])
           (auto simp: group_slices_status_def coherent_def)
    qed
  qed
qed

text \<open>The sub-table of slice \<open>d\<close> under dictionary \<open>key\<close>, built with no cache and no failure.\<close>

definition nested_reference ::
    "byte list \<Rightarrow> 32 word \<Rightarrow> (nat \<Rightarrow> nat) \<Rightarrow> (nat \<Rightarrow> dict_hooks) \<Rightarrow> (nat \<Rightarrow> group_context) \<Rightarrow> nat \<Rightarrow> nat \<Rightarrow> arena \<Rightarrow> offset_table" where
  "nested_reference mem seed lens hooks ctxs d key mr =
     set_group_context (build mr (hooks key) table_config_default seed (sub_span mem d (lens d + 1)) 0) (ctxs d)"

text \<open>The states of the cache, when every call gives a slice its own length and context and a
  dictionary address its own callbacks.\<close>

inductive nested_reach ::
    "byte list \<Rightarrow> 32 word \<Rightarrow> (nat \<Rightarrow> nat) \<Rightarrow> (nat \<Rightarrow> dict_hooks) \<Rightarrow> (nat \<Rightarrow> group_context) \<Rightarrow> nested_cache \<Rightarrow> bool"
  for mem seed lens hooks ctxs where
  reach_empty: "nested_reach mem seed lens hooks ctxs \<lparr>nc_rows = [], nc_tables = []\<rparr>"
| reach_call: "nested_reach mem seed lens hooks ctxs c \<Longrightarrow>
    nested_group_slices mr mem seed c (Some d) (lens d) no_tag (hooks key) key (ctxs d) = Some (r, c') \<Longrightarrow>
    nested_reach mem seed lens hooks ctxs c'"

definition sub_ok :: "(nat \<Rightarrow> nat \<Rightarrow> arena \<Rightarrow> offset_table) \<Rightarrow> nat \<Rightarrow> nat \<Rightarrow> offset_table \<Rightarrow> bool" where
  "sub_ok ref d key t \<longleftrightarrow> coherent t \<and> (\<exists>mr. t\<lparr>tbl_groups := []\<rparr> = ref d key mr)"

definition row_ok :: "(nat \<Rightarrow> nat \<Rightarrow> arena \<Rightarrow> offset_table) \<Rightarrow> nested_cache \<Rightarrow> nat \<Rightarrow> nat \<Rightarrow> nat option \<Rightarrow> bool" where
  "row_ok ref c d key table \<longleftrightarrow>
     (\<forall>i. table = Some i \<longrightarrow> i < length (nc_tables c) \<and> (\<exists>t. nc_tables c ! i = (d, t) \<and> sub_ok ref d key t))"

definition nested_ok :: "(nat \<Rightarrow> nat \<Rightarrow> arena \<Rightarrow> offset_table) \<Rightarrow> nested_cache \<Rightarrow> bool" where
  "nested_ok ref c \<longleftrightarrow> (\<forall>row \<in> set (nc_rows c). row_ok ref c (row_slice row) (row_hooks_key row) (row_table row))"

lemma nested_reference_ample:
  assumes "tbl_status (nested_reference mem seed lens hooks ctxs d key mr) \<noteq> unexpected out_of_memory"
  shows "nested_reference mem seed lens hooks ctxs d key mr = nested_reference mem seed lens hooks ctxs d key arena_ample"
  using assms build_ample [of mr "hooks key" table_config_default seed "sub_span mem d (lens d + 1)"]
  by (simp add: nested_reference_def set_group_context_def)

lemma resolve_nested:
  assumes "nested_ok ref c" "row_ok ref c d key table"
    and ample: "\<And>mr. tbl_status (ref d key mr) \<noteq> unexpected out_of_memory \<Longrightarrow> ref d key mr = ref d key arena_ample"
  shows "\<exists>r c'. resolve_nested_result mr c table no_tag = Some (r, c') \<and> nested_ok ref c' \<and>
    (\<not> gsr_alloc_failed r \<longrightarrow>
       map_option (map (rebase d)) (partition_group (ref d key arena_ample) no_tag) = Some (gsr_slices r))"
proof (cases table)
  case None
  with assms(1) show ?thesis by (simp add: resolve_nested_result_def)
next
  case (Some i)
  with assms(2) obtain t mr0 where t: "i < length (nc_tables c)" "nc_tables c ! i = (d, t)" "coherent t"
    "t\<lparr>tbl_groups := []\<rparr> = ref d key mr0" by (auto simp: row_ok_def sub_ok_def)
  obtain r t' where s: "group_slices_status (slice_arena mr) t no_tag = Some (r, t')" "coherent t'"
    "t'\<lparr>tbl_groups := []\<rparr> = t\<lparr>tbl_groups := []\<rparr>"
    "\<not> gsr_alloc_failed r \<Longrightarrow> partition_group t no_tag = Some (gsr_slices r)"
    by (rule group_slices_status_coherent [OF t(3)]) blast
  let ?c = "c\<lparr>nc_tables := (nc_tables c)[i := (d, t')]\<rparr>"
  have "sub_ok ref d' key' t \<Longrightarrow> sub_ok ref d' key' t'" for d' key' using s(2,3) by (simp add: sub_ok_def)
  then have "row_ok ref c d' key' tb \<Longrightarrow> row_ok ref ?c d' key' tb" for d' key' tb
    using t(1,2) by (auto simp: row_ok_def nth_list_update)
  with assms(1) have ok': "nested_ok ref ?c" by (auto simp: nested_ok_def)
  have "map_option (map (rebase d)) (partition_group (ref d key arena_ample) no_tag) = Some (map (rebase d) (gsr_slices r))"
    if "\<not> gsr_alloc_failed r" "tbl_status t \<noteq> unexpected out_of_memory"
  proof -
    have "tbl_status (ref d key mr0) \<noteq> unexpected out_of_memory" using that(2) by (simp flip: t(4))
    then have "t\<lparr>tbl_groups := []\<rparr> = ref d key arena_ample" using ample t(4) by metis
    then show ?thesis using s(4) [OF that(1)] partition_group_groups [of "[]" t no_tag] by simp
  qed
  with Some t(2) s(1) ok' show ?thesis by (simp add: resolve_nested_result_def)
qed

lemma cache_scan_rows:
  assumes "\<forall>row \<in> set rows. row_slice row = d \<longrightarrow> row_hooks_key row = key \<longrightarrow> P (row_table row)" "P table"
  shows "case cache_scan rows d key no_tag found table of Inl tb \<Rightarrow> P tb | Inr tb \<Rightarrow> P tb"
  using assms by (induction rows arbitrary: found table) auto

lemma nested_call:
  fixes mem seed lens hooks ctxs
  defines "ref \<equiv> nested_reference mem seed lens hooks ctxs"
  assumes "nested_ok ref c"
  shows "\<exists>r c'. nested_group_slices mr mem seed c (Some d) (lens d) no_tag (hooks key) key (ctxs d) = Some (r, c') \<and>
    nested_ok ref c' \<and> (\<not> gsr_alloc_failed r \<longrightarrow>
       map_option (map (rebase d)) (partition_group (ref d key arena_ample) no_tag) = Some (gsr_slices r))"
proof -
  have "tbl_status (ref d key mr') \<noteq> unexpected out_of_memory \<Longrightarrow> ref d key mr' = ref d key arena_ample" for mr'
    unfolding ref_def by (rule nested_reference_ample)
  note resolve = resolve_nested [where ref = ref and d = d and key = key and mr = mr and no_tag = no_tag, OF _ _ this]
  have "\<forall>row \<in> set (nc_rows c). row_slice row = d \<longrightarrow> row_hooks_key row = key \<longrightarrow> row_ok ref c d key (row_table row)"
    using assms(2) by (auto simp: nested_ok_def)
  note scan = cache_scan_rows [OF this, of None no_tag False]
  show ?thesis
  proof (cases "cache_scan (nc_rows c) d key no_tag False None")
    case (Inl tb)
    with scan resolve [OF assms(2), of tb] show ?thesis by (simp add: nested_group_slices_def row_ok_def)
  next
    case (Inr tb)
    define sub where "sub = (case tb of Some i \<Rightarrow> (Some i, c) | None \<Rightarrow>
      (case build_nested_subview mr mem seed d (lens d) (hooks key) (ctxs d) of None \<Rightarrow> (None, c)
       | Some t \<Rightarrow> (Some (length (nc_tables c)), c\<lparr>nc_tables := nc_tables c @ [(d, t)]\<rparr>)))"
    obtain tb' c1 where sub: "sub = (tb', c1)" by fastforce
    define c2 where "c2 = (if row_fails mr then c1 else
      c1\<lparr>nc_rows := nc_rows c1 @ [\<lparr>row_slice = d, row_hooks_key = key, row_no_tag = no_tag, row_table = tb'\<rparr>]\<rparr>)"
    have "nested_ok ref c1 \<and> row_ok ref c1 d key tb'"
    proof (cases "tb = None \<and> \<not> shell_fails mr")
      case True
      let ?t = "ref d key (sub_arena mr)"
      have c1: "tb' = Some (length (nc_tables c))" "c1 = c\<lparr>nc_tables := nc_tables c @ [(d, ?t)]\<rparr>"
        using sub True by (simp_all add: sub_def build_nested_subview_def ref_def nested_reference_def)
      have "tbl_groups ?t = []" by (simp add: ref_def nested_reference_def set_group_context_def build_def table_failed_def split: sum.split)
      then have "sub_ok ref d key ?t" by (auto simp: sub_ok_def coherent_def intro!: exI [of _ "sub_arena mr"])
      then show ?thesis using assms(2) by (fastforce simp: c1 nested_ok_def row_ok_def nth_append)
    next
      case False
      then have "tb' = tb" "c1 = c" using sub by (auto simp: sub_def build_nested_subview_def split: option.splits)
      then show ?thesis using assms(2) Inr scan by (simp add: row_ok_def)
    qed
    then have "nested_ok ref c2" "row_ok ref c2 d key tb'" by (auto simp: c2_def nested_ok_def row_ok_def)
    from resolve [OF this] Inr sub show ?thesis
      by (simp add: nested_group_slices_def Let_def sub_def c2_def)
  qed
qed

lemma nested_reach_ok:
  "nested_reach mem seed lens hooks ctxs c \<Longrightarrow> nested_ok (nested_reference mem seed lens hooks ctxs) c"
proof (induction rule: nested_reach.induct)
  case (reach_call c mr d no_tag key r c')
  then show ?case using nested_call [OF reach_call.IH, of mr d no_tag key] by auto
qed (simp add: nested_ok_def)

subsection \<open>A message with a group\<close>

definition sample_group_hooks :: dict_hooks where
  "sample_group_hooks = dict_hooks_none\<lparr>group_member_fn := Some (\<lambda>ctx no_tag tag. no_tag = 73 \<and> (tag = 11 \<or> tag = 55))\<rparr>"

definition sample_group_fields :: "(nat \<times> byte list) list" where
  "sample_group_fields = [(35, ''E''), (73, ''2''), (11, ''a''), (55, ''x''), (11, ''b''), (58, ''t'')]"

abbreviation sample_group_table :: offset_table where
  "sample_group_table \<equiv> set_group_context (build arena_ample sample_group_hooks table_config_default 7 (wire_fields sample_group_fields) 0) empty_context"

lemma sample_group_pairs: "t \<in> {35, 73, 11, 55, 58} \<Longrightarrow> data_tag_for_length sample_group_hooks t = 0 \<and> length_tag_for_data sample_group_hooks t = 0"
  by (auto simp: data_tag_for_length_def length_tag_for_data_def standard_pair_tag_bit_def standard_pair_tag_range
    dict_hooks_none_def sample_group_hooks_def)

lemma sample_group_ok:
  "check_container sample_group_hooks sample_group_fields" "tags_ok sample_group_fields" "soh_free sample_group_hooks sample_group_fields"
  "length (wire_fields sample_group_fields) < 2 ^ 32" "length sample_group_fields \<le> max_offset_entries table_config_default"
proof -
  show "check_container sample_group_hooks sample_group_fields"
    using observe_all_well_paired [of checker_init sample_group_hooks sample_group_fields]
    by (simp add: check_container_def checker_init_def checker_idle_def sample_group_fields_def sample_group_pairs)
  show "soh_free sample_group_hooks sample_group_fields" by (simp add: sample_group_fields_def soh_free_def sample_group_pairs)
  show "tags_ok sample_group_fields" "length sample_group_fields \<le> max_offset_entries table_config_default"
    by (simp_all add: sample_group_fields_def table_config_default_def)
  show "length (wire_fields sample_group_fields) < 2 ^ 32"
    by (simp add: sample_group_fields_def wire_field_def dec_digits.simps)
qed

lemma build_config: "tbl_cfg (build mr hooks cfg seed frame rsv) = cfg" "tbl_hooks (build mr hooks cfg seed frame rsv) = hooks"
  "tbl_groups (build mr hooks cfg seed frame rsv) = []"
  by (auto simp: build_def table_failed_def split: sum.split)

lemma sample_group_tags:
  "map ent_tag (layout 0 sample_group_fields) = [35, 73, 11, 55, 11, 58]"
  by (simp add: sample_group_fields_def field_entry_def)

lemma sample_group_declared:
  "parse_declared_count (wire_fields sample_group_fields) (layout 0 sample_group_fields ! 1) = 2"
  by (simp add: parse_declared_count_def sample_group_fields_def field_entry_def wire_field_def dec_digits.simps
      sub_span_def parse_bounded_u32_value dec_value_def digit_val_def is_digit_def)

lemma sample_group:
  "group sample_group_table 73 = Some (ok \<lparr>gi_no_tag = 73, gi_first = 2, gi_count = 3\<rparr>)"
proof -
  note l = build_layout [OF sample_group_ok, of 7 0]
  let ?es = "layout 0 sample_group_fields" and ?m = "group_member sample_group_hooks"
  have len: "length sample_group_fields = 6" by (simp add: sample_group_fields_def)
  have tag: "ent_tag (?es ! k) = [35, 73, 11, 55, 11, 58] ! k" if "k < 6" for k
    using that len sample_group_tags by (metis length_layout nth_map)
  have tags: "ent_tag (?es ! Suc 0) = 73" "ent_tag (?es ! 2) = 11" "ent_tag (?es ! 3) = 55" "ent_tag (?es ! 4) = 11"
    "ent_tag (?es ! 5) = 58" using tag [of 1] tag [of 2] tag [of 3] tag [of 4] tag [of 5] by simp_all
  have cnt: "length (takeWhile (\<lambda>e. ent_tag e \<noteq> 73) ?es) = 1" by (simp add: sample_group_fields_def field_entry_def)
  have member: "?m ctx no_tag t \<longleftrightarrow> no_tag = 73 \<and> (t = 11 \<or> t = 55)" "group_member_fn sample_group_hooks \<noteq> None" for ctx no_tag t
    by (simp_all add: group_member_def sample_group_hooks_def)
  define t where "t = sample_group_table"
  have t: "tbl_entries t = ?es" "tbl_hooks t = sample_group_hooks" "max_group_entries_per_instance (tbl_cfg t) = 4096"
    "tbl_frame t = wire_fields sample_group_fields" "tbl_status t = ok ()" "tbl_ctx t = empty_context"
    by (simp_all add: t_def set_group_context_def l build_config build_entries [OF l(1)])
       (simp add: table_config_default_def)
  define step where "step = (\<lambda>i. if i + 1 < length ?es \<and> ?m (pushed empty_context 73) (ent_tag (?es ! i)) (ent_tag (?es ! (i + 1)))
      then extent_levels t 15 i (pushed empty_context 73) else Some (i + 1, False))"
  have step: "step 2 = Some (3, False)" "step 3 = Some (4, False)" "step 4 = Some (5, False)"
    using tags by (simp_all add: step_def member)
  have "member_loop step (?m empty_context 73) ?es 11 3 = Some (4, False)"
    "member_loop step (?m empty_context 73) ?es 11 5 = Some (5, False)"
    by (simp_all add: member_loop.simps [of _ _ _ _ 3] member_loop.simps [of _ _ _ _ 4] member_loop.simps [of _ _ _ _ 5]
        step tags len member)
  then have "instance_loop step (?m empty_context 73) ?es 4096 11 2 0 2 = Some (5, False)"
    by (simp add: instance_loop.simps [of _ _ _ _ _ _ _ 2] instance_loop.simps [of _ _ _ _ _ _ _ 4]
      instance_loop.simps [of _ _ _ _ _ _ _ 5] step tags len)
  moreover have "extent_levels t (Suc 15) 1 empty_context = instance_loop step (?m empty_context 73) ?es 4096 11 2 0 2"
    unfolding extent_levels.simps using sample_group_declared tags by (simp add: Let_def t len member step_def numeral_2_eq_2)
  moreover have "kMaxGroupDepth - 0 = Suc 15" by (simp add: kMaxGroupDepth_def)
  ultimately have ext: "consume_group_extent t 1 empty_context 0 = Some (5, False)" by (simp only: consume_group_extent_def)
  have "depth empty_context = 0" by (simp add: empty_context_def)
  then show ?thesis
    unfolding t_def [symmetric] group_def stored_group_context_def
    using ext tags member by (simp add: Let_def t len cnt numeral_2_eq_2)
qed

lemma boundaries:
  assumes "first < group_end"
  shows "length (filter (is_boundary es first group_end delim) [first..<group_end + 1]) =
    1 + card {k. first < k \<and> k < group_end \<and> ent_tag (es ! k) = delim}"
proof -
  have up: "[first..<group_end + 1] = first # [first + 1..<group_end] @ [group_end]"
    using assms by (simp add: upt_conv_Cons)
  have "filter (is_boundary es first group_end delim) [first + 1..<group_end] =
      filter (\<lambda>k. ent_tag (es ! k) = delim) [first + 1..<group_end]"
    by (rule filter_cong) (auto simp: is_boundary_def)
  moreover have "length (filter (\<lambda>k. ent_tag (es ! k) = delim) [first + 1..<group_end]) =
      card (set (filter (\<lambda>k. ent_tag (es ! k) = delim) [first + 1..<group_end]))"
    by (rule distinct_card [symmetric]) simp
  moreover have "set (filter (\<lambda>k. ent_tag (es ! k) = delim) [first + 1..<group_end]) =
      {k. first < k \<and> k < group_end \<and> ent_tag (es ! k) = delim}" by auto
  ultimately show ?thesis using assms unfolding up by (simp add: is_boundary_def)
qed

text \<open>C28. Locating a group returns for every table, message and dictionary, however the declared
  counts lie and whatever the callbacks answer: the walk ends, its extent follows the count
  field, stays inside the table, and is bounded by the declared count times the entries
  allowed per instance.\<close>

theorem group_extent_bounded:
  "case group t no_tag of
     None \<Rightarrow> False
   | Some (Inl e) \<Rightarrow> True
   | Some (Inr g) \<Rightarrow>
       0 < gi_first g \<and> ent_tag (tbl_entries t ! (gi_first g - 1)) = no_tag \<and>
       gi_first g + gi_count g \<le> length (tbl_entries t) \<and>
       gi_count g \<le> parse_declared_count (tbl_frame t) (tbl_entries t ! (gi_first g - 1)) *
         max_group_entries_per_instance (tbl_cfg t)"
proof (rule group_returns [of t no_tag])
  fix r
  assume "group t no_tag = Some r"
    "\<And>g. r = ok g \<Longrightarrow> tbl_status t = ok () \<and> gi_no_tag g = no_tag \<and> 0 < gi_first g \<and>
       ent_tag (tbl_entries t ! (gi_first g - 1)) = no_tag \<and> gi_first g + gi_count g \<le> length (tbl_entries t) \<and>
       gi_count g \<le> parse_declared_count (tbl_frame t) (tbl_entries t ! (gi_first g - 1)) *
         max_group_entries_per_instance (tbl_cfg t)"
  then show ?thesis by (cases r) simp_all
qed

text \<open>C26. The instances of a group are exactly its bytes: the slices, joined with the SOH
  separators, are the frame from the tag of the first member to the end of the last value;
  there is one slice for the first instance and one for each later delimiter; and every
  slice is a non-empty range inside the frame.\<close>

theorem group_slices_tile:
  assumes "tbl_status (build mr hooks cfg seed frame rsv) = ok ()" "length frame < 2 ^ 32"
    and "t = set_group_context (build mr hooks cfg seed frame rsv) ctx"
    and "group t no_tag = Some (ok g)" "0 < gi_count g" "\<not> slices_fail mr'"
  shows "\<exists>slices t'. group_slices_status mr' t no_tag = Some (\<lparr>gsr_slices = slices, gsr_alloc_failed = False\<rparr>, t') \<and>
    (let es = tbl_entries t; first = gi_first g; start = entry_start es first; last = entry_end (es ! (first + gi_count g - 1)) in
     join_soh (map (slice_bytes frame) slices) = sub_span frame start (last - start) \<and>
     length slices = 1 + card {k. first < k \<and> k < first + gi_count g \<and> ent_tag (es ! k) = group_delimiter t no_tag first} \<and>
     (\<forall>s \<in> set slices. 2 \<le> slice_len s \<and> slice_data s + slice_len s \<le> length frame))"
proof -
  let ?es = "tbl_entries t" and ?b = "is_boundary (tbl_entries t) (gi_first g) (gi_first g + gi_count g) (group_delimiter t no_tag (gi_first g))"
  have t: "tiles frame 0 ?es" "tbl_frame t = frame" "tbl_groups t = []"
    using build_entries_few(1) [OF assms(1,2)] build_entries(4) [OF assms(1)]
    by (simp_all add: assms(3) set_group_context_def build_config)
  have le: "gi_first g + gi_count g \<le> length ?es"
    using group_returns [of t no_tag] assms(4) by (metis option.inject)
  let ?ss = "fill_slices frame ?es ?b [gi_first g..<gi_first g + gi_count g + 1] (gi_first g)"
  have first: "?ss = fill_slices frame ?es ?b [gi_first g + 1..<gi_first g + gi_count g + 1] (gi_first g)"
    using assms(5) by (simp add: upt_conv_Cons is_boundary_def)
  have "group_slices_status mr' t no_tag = Some (\<lparr>gsr_slices = ?ss, gsr_alloc_failed = False\<rparr>, t\<lparr>tbl_groups := [(no_tag, ?ss)]\<rparr>)"
    using t(2,3) le assms(4-6) by (simp add: group_slices_status_def partition_group_def Let_def)
  moreover have "length ?ss = 1 + card {k. gi_first g < k \<and> k < gi_first g + gi_count g \<and> ent_tag (?es ! k) = group_delimiter t no_tag (gi_first g)}"
    using assms(5) by (simp only: length_fill_slices boundaries less_add_same_cancel1)
  moreover note fill_slices_tile [OF t(1) assms(2) le, of ?b "gi_first g" "gi_first g + 1", folded first]
  ultimately show ?thesis using assms(5) by (simp add: Let_def is_boundary_def)
qed

theorem group_slices_tile_witness:
  "\<exists>slices t'. group_slices_status arena_ample sample_group_table 73 = Some (\<lparr>gsr_slices = slices, gsr_alloc_failed = False\<rparr>, t') \<and>
     join_soh (map (slice_bytes (wire_fields sample_group_fields)) slices) = ''11=a'' @ [SOH] @ ''55=x'' @ [SOH] @ ''11=b''"
proof -
  note l = build_layout [OF sample_group_ok, of 7 0]
  have b: "sub_span (wire_fields sample_group_fields) 10 14 = ''11=a'' @ [SOH] @ ''55=x'' @ [SOH] @ ''11=b''"
    by (simp add: sample_group_fields_def wire_field_def dec_digits.simps sub_span_def digit_char_simps)
  have e: "entry_start (layout 0 sample_group_fields) 2 = 10" "entry_end (layout 0 sample_group_fields ! 4) = 24"
    by (simp_all add: sample_group_fields_def entry_start_def entry_end_def field_entry_def wire_field_def dec_digits.simps)
  have "\<not> slices_fail arena_ample" by (simp add: arena_ample_def)
  from group_slices_tile [OF l(1) sample_group_ok(4) refl sample_group _ this]
  obtain slices t' where s: "group_slices_status arena_ample sample_group_table 73 = Some (\<lparr>gsr_slices = slices, gsr_alloc_failed = False\<rparr>, t')"
    "join_soh (map (slice_bytes (wire_fields sample_group_fields)) slices) = sub_span (wire_fields sample_group_fields) 10 14"
    by (auto simp: Let_def set_group_context_def l(2) e)
  with b show ?thesis by metis
qed



end
