(* ===== verification/Fixpp_FrameHeader.thy ===== *)
theory Fixpp_FrameHeader
  imports Fixpp_Groups
begin

text \<open>
  The header scanners of the session layer: \<^verbatim>\<open>scan_frame_header\<close>
  (\<^verbatim>\<open>src/session/scan_frame_header.hpp\<close>), which the inbound dispatch reads every frame with, and
  \<^verbatim>\<open>scan_first_frame_ids\<close> (\<^verbatim>\<open>src/session/scan_first_frame_ids.hpp\<close>), which picks the session of a new
  connection.

  A string view is the bytes it covers, an absent member is the empty list.  The digit loop of
  a tag is the \<open>tag_scan\<close> of the offset table: both stop at the first non-digit and at the
  first tag above 65535.  The lemmas show that the header scan splits a frame exactly as the
  offset table does, for dictionaries in which no Data field is itself a Length field.
\<close>

record FrameHeader =
  fh_begin_string :: "byte list"
  fh_sender_comp_id :: "byte list"
  fh_target_comp_id :: "byte list"
  fh_msg_seq_num :: "byte list"
  fh_msg_type :: "byte list"
  fh_sending_time :: "byte list"
  fh_test_req_id :: "byte list"
  fh_begin_seqno :: "byte list"
  fh_end_seqno :: "byte list"
  fh_new_seqno :: "byte list"
  fh_poss_dup_flag :: "byte list"
  fh_orig_sending_time :: "byte list"
  fh_gap_fill_flag :: "byte list"
  fh_reset_seqnum_flag :: "byte list"
  fh_test_message_indicator :: "byte list"
  fh_max_message_size :: "byte list"
  fh_next_expected_msg_seq_num :: "byte list"
  fh_next_expected_present :: bool
  fh_fault :: field_fault
  fh_fault_length_tag :: nat
  fh_fault_offset :: nat
  fh_msg_type_is_third :: bool
  fh_fault_ref_seq_num :: "byte list"
  fh_fault_ref_msg_type :: "byte list"

definition frame_header_init :: FrameHeader where
  "frame_header_init =
     \<lparr>fh_begin_string = [], fh_sender_comp_id = [], fh_target_comp_id = [], fh_msg_seq_num = [], fh_msg_type = [],
      fh_sending_time = [], fh_test_req_id = [], fh_begin_seqno = [], fh_end_seqno = [], fh_new_seqno = [],
      fh_poss_dup_flag = [], fh_orig_sending_time = [], fh_gap_fill_flag = [], fh_reset_seqnum_flag = [],
      fh_test_message_indicator = [], fh_max_message_size = [], fh_next_expected_msg_seq_num = [],
      fh_next_expected_present = False, fh_fault = fault_none, fh_fault_length_tag = 0, fh_fault_offset = 0,
      fh_msg_type_is_third = False, fh_fault_ref_seq_num = [], fh_fault_ref_msg_type = []\<rparr>"

text \<open>The switch over the tag; \<open>field_no\<close> is the position of the field, \<open>seen_34\<close> whether a
  MsgSeqNum came before it.\<close>

definition header_field :: "nat \<Rightarrow> bool \<Rightarrow> nat \<Rightarrow> byte list \<Rightarrow> FrameHeader \<Rightarrow> FrameHeader" where
  "header_field field_no seen_34 tag val h =
     (if tag = 7 then h\<lparr>fh_begin_seqno := val\<rparr>
      else if tag = 8 then h\<lparr>fh_begin_string := val\<rparr>
      else if tag = 16 then h\<lparr>fh_end_seqno := val\<rparr>
      else if tag = 34 then
        let h = h\<lparr>fh_msg_seq_num := val\<rparr> in if \<not> seen_34 then h\<lparr>fh_fault_ref_seq_num := val\<rparr> else h
      else if tag = 35 then
        let h = h\<lparr>fh_msg_type := val\<rparr> in
        if field_no = 3 then h\<lparr>fh_msg_type_is_third := True, fh_fault_ref_msg_type := val\<rparr> else h
      else if tag = 36 then h\<lparr>fh_new_seqno := val\<rparr>
      else if tag = 43 then h\<lparr>fh_poss_dup_flag := val\<rparr>
      else if tag = 49 then h\<lparr>fh_sender_comp_id := val\<rparr>
      else if tag = 52 then h\<lparr>fh_sending_time := val\<rparr>
      else if tag = 56 then h\<lparr>fh_target_comp_id := val\<rparr>
      else if tag = 112 then h\<lparr>fh_test_req_id := val\<rparr>
      else if tag = 122 then h\<lparr>fh_orig_sending_time := val\<rparr>
      else if tag = 123 then h\<lparr>fh_gap_fill_flag := val\<rparr>
      else if tag = 141 then h\<lparr>fh_reset_seqnum_flag := val\<rparr>
      else if tag = 383 then h\<lparr>fh_max_message_size := val\<rparr>
      else if tag = 464 then h\<lparr>fh_test_message_indicator := val\<rparr>
      else if tag = 789 then h\<lparr>fh_next_expected_msg_seq_num := val, fh_next_expected_present := True\<rparr>
      else h)"

definition record_fault :: "field_fault \<Rightarrow> nat \<Rightarrow> FrameHeader \<Rightarrow> FrameHeader" where
  "record_fault kind field_start h = h\<lparr>fh_fault := kind, fh_fault_offset := u32 field_start\<rparr>"

lemma read_value_bounds:
  assumes "read_value hooks st buf vs tag = (Some ve, st')" "vs \<le> length buf"
  shows "vs \<le> ext_end ve \<and> ext_end ve \<le> length buf"
  using assms next_soh_bounds [OF assms(2)]
  by (auto simp: read_value_def Let_def counted_value_end_def split: if_splits option.splits)

lemma read_progress:
  assumes "(Some ve, st') = read_value hooks st buf (Suc j) t" "\<not> length buf \<le> j" "i \<le> j"
  shows "i < ext_end ve"
proof -
  have "Suc j \<le> length buf" using assms(2) by linarith
  from read_value_bounds [OF assms(1) [symmetric] this] assms(3) show ?thesis by linarith
qed

function header_loop ::
    "dict_hooks \<Rightarrow> byte list \<Rightarrow> nat \<Rightarrow> length_data_carry \<Rightarrow> nat \<Rightarrow> nat \<Rightarrow> bool \<Rightarrow> FrameHeader \<Rightarrow> FrameHeader" where
  "header_loop hooks frame i carry prev_tag field_no seen_34 h =
     (if i < length frame then
        let field_no = u32 (field_no + 1) in
        case tag_scan frame i 0 of
          Inl _ \<Rightarrow> record_fault malformed_tag i h
        | Inr (j, tag) \<Rightarrow>
            if j \<ge> length frame \<or> frame ! j \<noteq> EQ \<or> j = i then record_fault malformed_tag i h
            else
              (case read_value hooks carry frame (j + 1) (u16 tag) of
                 (None, carry) \<Rightarrow> record_fault length_data_mismatch i (h\<lparr>fh_fault_length_tag := prev_tag\<rparr>)
               | (Some value, carry) \<Rightarrow>
                   let e = ext_end value; val = sub_span frame (j + 1) (e - (j + 1)) in
                   header_loop hooks frame (if e < length frame then e + 1 else e) carry (u16 tag) field_no
                     (seen_34 \<or> tag = 34) (header_field field_no seen_34 tag val h))
      else h)"
  by pat_completeness auto
termination
  by (relation "measure (\<lambda>(hooks, frame, i, carry, prev_tag, field_no, seen_34, h). length frame - i)")
     (auto intro!: diff_less_mono2 less_SucI elim!: read_progress dest: tag_scan_bounds)

declare header_loop.simps [simp del]

definition scan_frame_header :: "dict_hooks \<Rightarrow> byte list \<Rightarrow> FrameHeader" where
  "scan_frame_header hooks frame = header_loop hooks frame 0 carry_init 0 0 False frame_header_init"

text \<open>The bound and the texts of the Reject that a faulty frame draws.\<close>

definition kMaxShippedMsgTypeLength :: nat where "kMaxShippedMsgTypeLength = 2"

definition kRejectTextMalformedTag :: "byte list" where
  "kRejectTextMalformedTag = ''Malformed field: invalid tag''"

definition kRejectTextLengthDataMismatch :: "byte list" where
  "kRejectTextLengthDataMismatch = ''Malformed field: Length does not match its Data field''"

subsection \<open>The first frame of a connection\<close>

record first_frame_ids =
  ids_begin_string :: "byte list"
  ids_sender_comp_id :: "byte list"
  ids_target_comp_id :: "byte list"

text \<open>The tag bytes up to \<^verbatim>\<open>=\<close> or SOH, and whether they were all digits of a tag in range.\<close>

function ids_tag_scan :: "byte list \<Rightarrow> nat \<Rightarrow> nat \<Rightarrow> bool \<Rightarrow> nat \<times> nat \<times> bool" where
  "ids_tag_scan frame i tag tag_ok =
     (if i < length frame \<and> frame ! i \<noteq> EQ \<and> frame ! i \<noteq> SOH then
        if \<not> is_digit (frame ! i) then ids_tag_scan frame (i + 1) tag False
        else case accumulate_tag_digit tag (frame ! i) of (tag, fits) \<Rightarrow> ids_tag_scan frame (i + 1) tag (tag_ok \<and> fits)
      else (i, tag, tag_ok))"
  by pat_completeness auto
termination
  by (relation "measure (\<lambda>(frame, i, tag, tag_ok). length frame - i)") auto

declare ids_tag_scan.simps [simp del]

lemma ids_tag_scan_bounds: "ids_tag_scan frame i tag tag_ok = (j, t, f) \<Longrightarrow> i \<le> j"
proof (induction frame i tag tag_ok arbitrary: j t f rule: ids_tag_scan.induct)
  case (1 frame i tag tag_ok)
  show ?case
    using 1(1) [of j t f] 1(2) [of "fst (accumulate_tag_digit tag (frame ! i))" "snd (accumulate_tag_digit tag (frame ! i))" j t f]
      1(3) [unfolded ids_tag_scan.simps [of frame i tag tag_ok]]
    by (auto split: if_splits prod.splits)
qed

lemma skip_progress: "(j, t, f) = ids_tag_scan buf i 0 True \<Longrightarrow> next_soh buf j < length buf \<Longrightarrow> i \<le> next_soh buf j"
proof -
  assume a: "(j, t, f) = ids_tag_scan buf i 0 True" "next_soh buf j < length buf"
  have "j \<le> length buf" using a(2) next_soh.simps [of buf j] by (cases "j \<le> length buf") auto
  from next_soh_bounds [OF this] ids_tag_scan_bounds [OF a(1) [symmetric]] show ?thesis by linarith
qed

function ids_loop :: "byte list \<Rightarrow> nat \<Rightarrow> length_data_carry \<Rightarrow> first_frame_ids \<Rightarrow> first_frame_ids" where
  "ids_loop frame i carry ids =
     (if i < length frame then
        case ids_tag_scan frame i 0 True of (j, tag, tag_ok) \<Rightarrow>
        if j \<ge> length frame \<or> frame ! j \<noteq> EQ \<or> \<not> tag_ok then
          let e = next_soh frame j in
          ids_loop frame (if e < length frame then e + 1 else e) (carry_reset carry) ids
        else
          (case read_value dict_hooks_none carry frame (j + 1) (u16 tag) of
             (None, carry) \<Rightarrow> ids
           | (Some value, carry) \<Rightarrow>
               let e = ext_end value; val = sub_span frame (j + 1) (e - (j + 1));
                   ids = (if tag = 8 then ids\<lparr>ids_begin_string := val\<rparr> else ids);
                   ids = (if tag = 49 then ids\<lparr>ids_sender_comp_id := val\<rparr> else ids);
                   ids = (if tag = 56 then ids\<lparr>ids_target_comp_id := val\<rparr> else ids)
               in ids_loop frame (if e < length frame then e + 1 else e) carry ids)
      else ids)"
  by pat_completeness auto
termination
  by (relation "measure (\<lambda>(frame, i, carry, ids). length frame - i)")
     (auto intro!: diff_less_mono2 le_imp_less_Suc elim!: less_imp_le [OF read_progress] skip_progress dest: ids_tag_scan_bounds [OF sym])

declare ids_loop.simps [simp del]

definition scan_first_frame_ids :: "byte list \<Rightarrow> first_frame_ids" where
  "scan_first_frame_ids frame =
     ids_loop frame 0 carry_init \<lparr>ids_begin_string = [], ids_sender_comp_id = [], ids_target_comp_id = []\<rparr>"

subsection \<open>One split for all scanners\<close>

definition unchained :: "dict_hooks \<Rightarrow> bool" where
  "unchained hooks \<longleftrightarrow> (\<forall>l. data_tag_for_length hooks l \<noteq> 0 \<longrightarrow> data_tag_for_length hooks (data_tag_for_length hooks l) = 0)"

lemma unchained_none: "unchained dict_hooks_none"
  using std_pairs.no_chain by (simp add: unchained_def hooks_none_standard)

text \<open>The two scanners bound the announced count differently, by the size of the frame and by
  the largest 32-bit number; the counts agree unless both exceed the frame.\<close>

definition same_count :: "nat \<Rightarrow> nat \<Rightarrow> nat \<Rightarrow> bool" where
  "same_count n x y \<longleftrightarrow> x = y \<or> (n \<le> x \<and> n \<le> y)"

lemma same_count_step:
  assumes "is_digit c" "9 \<le> n" "n < 2 ^ 32" "same_count n x y"
  shows "same_count n (fst (accumulate_bounded x c n)) (fst (accumulate_bounded y c 0xFFFFFFFF))"
  using accumulate_bounded_exact [OF assms(1-3), of x] accumulate_bounded_exact [OF assms(1), of "0xFFFFFFFF" y] assms(3,4)
  by (auto simp: same_count_def)

lemma same_count_loop:
  "9 \<le> n \<Longrightarrow> n < 2 ^ 32 \<Longrightarrow> same_count n x y \<Longrightarrow> same_count n (data_length_loop n x bytes) (parse_bounded_loop y bytes)"
  by (induction bytes arbitrary: x y) (simp_all add: same_count_step)

definition carry_rel :: "dict_hooks \<Rightarrow> nat \<Rightarrow> nat \<times> nat \<Rightarrow> length_data_carry \<Rightarrow> bool" where
  "carry_rel hooks n carry st \<longleftrightarrow> fst carry = carry_tag st \<and>
     (fst carry \<noteq> 0 \<longrightarrow> same_count n (snd carry) (carry_count st) \<and> (\<exists>l. fst carry = data_tag_for_length hooks l))"

lemma value_agree:
  assumes "unchained hooks" "carry_rel hooks (length buf) carry st" "0 < vs" "vs \<le> length buf" "9 \<le> length buf" "length buf < 2 ^ 32"
  shows "case scan_value hooks buf carry tag vs of
      Inl e \<Rightarrow> fst (read_value hooks st buf vs (u16 tag)) = None
    | Inr (len, i, carry') \<Rightarrow> \<exists>ve st'. read_value hooks st buf vs (u16 tag) = (Some ve, st') \<and> ext_end ve = vs + len \<and>
        i = (if ext_end ve < length buf then ext_end ve + 1 else ext_end ve) \<and> carry_rel hooks (length buf) carry' st'"
proof (cases "fst carry \<noteq> 0 \<and> u16 tag = fst carry")
  case True
  have c: "carry_tag st = u16 tag" "same_count (length buf) (snd carry) (carry_count st)"
    "u16 tag \<noteq> 0" "data_tag_for_length hooks (u16 tag) = 0"
    using True assms(2) assms(1) [unfolded unchained_def] by (simp_all add: carry_rel_def) metis
  show ?thesis
  proof (cases "vs + snd carry < length buf \<and> buf ! (vs + snd carry) = SOH")
    case True
    then have "carry_count st = snd carry" using c(2) by (auto simp: same_count_def)
    then have "read_value hooks st buf vs (u16 tag) = (Some \<lparr>ext_end = vs + snd carry, counted = True\<rparr>, st\<lparr>carry_tag := 0\<rparr>)"
      using True c(1,3,4) by (auto simp: read_value_def Let_def counted_value_end_def)
    moreover have "scan_value hooks buf carry tag vs = ok (snd carry, vs + snd carry + 1, (0, 0))"
      using True \<open>fst carry \<noteq> 0 \<and> _\<close> by (cases carry) (auto simp: scan_value_def Let_def)
    ultimately show ?thesis using True by (simp add: carry_rel_def)
  next
    case False
    then have "scan_value hooks buf carry tag vs = unexpected wire_invalid_field_format"
      using True assms(4) by (cases carry) (auto simp: scan_value_def Let_def)
    moreover have "counted_value_end buf vs (carry_count st) = None"
      using False c(2) assms(3,4) by (auto simp: counted_value_end_def same_count_def)
    ultimately show ?thesis using c(1,3) by (simp add: read_value_def Let_def)
  qed
next
  case False
  let ?e = "next_soh buf vs" and ?dt = "data_tag_for_length hooks (u16 tag)"
  let ?cnt = "parse_bounded_u32 (sub_span buf vs (?e - vs))"
  have b: "vs \<le> ?e" using next_soh_bounds [OF assms(4)] by simp
  have "same_count (length buf) (data_length_loop (length buf) 0 (sub_span buf vs (?e - vs))) ?cnt"
    unfolding parse_bounded_u32_def by (rule same_count_loop [OF assms(5,6)]) (simp add: same_count_def)
  moreover have "\<not> (carry_tag st \<noteq> 0 \<and> carry_tag st = u16 tag)" using False assms(2) by (auto simp: carry_rel_def)
  then have "read_value hooks st buf vs (u16 tag) = (Some \<lparr>ext_end = ?e, counted = False\<rparr>,
      if ?dt \<noteq> 0 then st\<lparr>carry_tag := ?dt, carry_count := ?cnt\<rparr> else st\<lparr>carry_tag := ?dt\<rparr>)"
    by (auto simp: read_value_def Let_def)
  moreover have "scan_value hooks buf carry tag vs = ok (?e - vs, if ?e < length buf then ?e + 1 else ?e,
      if ?dt \<noteq> 0 then (?dt, data_length_loop (length buf) 0 (sub_span buf vs (?e - vs))) else (0, 0))"
    using False assms(6) by (cases carry) (auto simp: scan_value_def Let_def)
  ultimately show ?thesis using b by (auto simp: carry_rel_def)
qed

text \<open>What the switch makes of a sequence of fields.\<close>

definition header_step :: "nat \<times> byte list \<Rightarrow> nat \<times> bool \<times> FrameHeader \<Rightarrow> nat \<times> bool \<times> FrameHeader" where
  "header_step f st = (case f of (tag, v) \<Rightarrow> case st of (n, seen_34, h) \<Rightarrow>
     (u32 (n + 1), seen_34 \<or> tag = 34, header_field (u32 (n + 1)) seen_34 tag v h))"

lemma header_loop_agrees:
  assumes "scan_fields mr hooks cfg buf i carry acc = r" "unchained hooks" "carry_rel hooks (length buf) carry st"
    "9 \<le> length buf" "length buf < 2 ^ 32" "i \<le> length buf" "\<forall>k. \<not> push_fails mr k"
    "fh_fault h = fault_none"
  shows "case r of
      Inl e \<Rightarrow> e = wire_offset_table_full \<or> fh_fault (header_loop hooks buf i st prev n seen h) \<noteq> fault_none
    | Inr es \<Rightarrow> \<exists>es'. es = acc @ es' \<and>
        header_loop hooks buf i st prev n seen h = snd (snd (fold header_step (map (field_of buf) es') (n, seen, h)))"
  using assms
proof (induction mr hooks cfg buf i carry acc arbitrary: st prev n seen h r rule: scan_fields.induct)
  case (1 mr hooks cfg buf i carry acc)
  note IH = 1(1) and p = 1(2-)
  note sf = p(1) [unfolded scan_fields.simps [of mr hooks cfg buf i carry acc]]
  show ?case
  proof (cases "i < length buf")
    case False
    then show ?thesis using sf by (auto simp: header_loop.simps)
  next
    case i: True
    show ?thesis
    proof (cases "tag_scan buf i 0")
      case (Inl e)
      then show ?thesis using i sf by (auto simp: header_loop.simps record_fault_def)
    next
      case (Inr jt)
      obtain j tag where jt: "tag_scan buf i 0 = ok (j, tag)" using Inr by (cases jt) simp
      note ts = tag_scan_sound [OF jt, simplified]
      show ?thesis
      proof (cases "j \<ge> length buf \<or> buf ! j \<noteq> EQ \<or> j = i")
        case True
        then show ?thesis using i jt sf by (auto simp: header_loop.simps record_fault_def)
      next
        case j: False
        have v: "case scan_value hooks buf carry tag (j + 1) of
            Inl e \<Rightarrow> fst (read_value hooks st buf (j + 1) (u16 tag)) = None
          | Inr (len, i', carry') \<Rightarrow> \<exists>ve st'. read_value hooks st buf (j + 1) (u16 tag) = (Some ve, st') \<and> ext_end ve = j + 1 + len \<and>
              i' = (if ext_end ve < length buf then ext_end ve + 1 else ext_end ve) \<and> carry_rel hooks (length buf) carry' st'"
          using p j by (intro value_agree) auto
        show ?thesis
        proof (cases "scan_value hooks buf carry tag (j + 1)")
          case (Inl e)
          then show ?thesis using i jt j sf v
            by (subst header_loop.simps) (auto simp: record_fault_def Let_def split: prod.split)
        next
          case (Inr x)
          obtain len i' carry' where sv: "scan_value hooks buf carry tag (j + 1) = ok (len, i', carry')"
            using Inr by (cases x) auto
          then obtain ve st' where rv: "read_value hooks st buf (j + 1) (u16 tag) = (Some ve, st')" "ext_end ve = j + 1 + len"
              "i' = (if ext_end ve < length buf then ext_end ve + 1 else ext_end ve)" "carry_rel hooks (length buf) carry' st'"
            using v by auto
          let ?en = "\<lparr>ent_offset = u32 (j + 1), ent_length = u32 len, ent_tag = u16 tag, group_index_link = 0\<rparr>"
          let ?val = "sub_span buf (j + 1) (ext_end ve - (j + 1))"
          have e: "j + 1 \<le> ext_end ve" "ext_end ve \<le> length buf"
            using read_value_bounds [OF rv(1)] j by auto
          have f: "field_of buf ?en = (tag, ?val)" using e rv(2) p(5) ts i by (simp add: field_of_def)
          let ?n = "u32 (n + 1)"
          have hl: "header_loop hooks buf i st prev n seen h =
              header_loop hooks buf i' st' (u16 tag) ?n (seen \<or> tag = 34) (header_field ?n seen tag ?val h)"
            using i jt j rv by (subst header_loop.simps) (simp add: Let_def)
          have h: "fh_fault (header_field ?n seen tag ?val h) = fault_none"
            using p(8) by (simp add: header_field_def Let_def)
          have le: "i' \<le> length buf" using rv(3) e by auto
          show ?thesis
          proof (cases "max_offset_entries cfg \<le> length acc")
            case True
            then show ?thesis using sf i jt j sv by auto
          next
            case room: False
            have np: "\<not> push_fails mr (length acc)" using p(7) by simp
            have r: "scan_fields mr hooks cfg buf i' carry' (acc @ [?en]) = r" using sf i jt j sv room np by simp
            note IH'' = IH [OF i jt refl j sv refl refl room np r p(2) rv(4) p(4,5) le p(7) h, of "u16 tag" ?n "seen \<or> tag = 34"]
            then show ?thesis unfolding hl using f by (cases r) (auto simp: header_step_def)
          qed
        qed
      qed
    qed
  qed
qed

subsection \<open>The members of the header\<close>

definition last_value :: "(nat \<times> byte list) list \<Rightarrow> nat \<Rightarrow> byte list" where
  "last_value fs tag = fold (\<lambda>(t, v) x. if t = tag then v else x) fs []"

definition first_value :: "(nat \<times> byte list) list \<Rightarrow> nat \<Rightarrow> byte list" where
  "first_value fs tag = (case map_of fs tag of None \<Rightarrow> [] | Some v \<Rightarrow> v)"

lemma last_value_snoc [simp]: "last_value (fs @ [f]) tag = (if fst f = tag then snd f else last_value fs tag)"
  by (simp add: last_value_def split: prod.split)

definition header_of :: "(nat \<times> byte list) list \<Rightarrow> FrameHeader" where
  "header_of fs = snd (snd (fold header_step fs (0, False, frame_header_init)))"

lemma header_fold:
  "fold header_step fs (0, False, frame_header_init) = (u32 (length fs), 34 \<in> fst ` set fs, header_of fs)"
proof (induction fs rule: rev_induct)
  case Nil
  then show ?case by (simp add: header_of_def u32_def)
next
  case (snoc f fs)
  have "fold header_step (fs @ [f]) (0, False, frame_header_init) =
      header_step f (fold header_step fs (0, False, frame_header_init))" by simp
  then have s: "fold header_step (fs @ [f]) (0, False, frame_header_init) =
      header_step f (u32 (length fs), 34 \<in> fst ` set fs, header_of fs)" unfolding snoc .
  then show ?case unfolding header_of_def [of "fs @ [f]"] s
    by (cases f) (auto simp: header_step_def u32_def mod_simps)
qed

lemma header_of_snoc:
  "header_of (fs @ [f]) = header_field (u32 (u32 (length fs) + 1)) (34 \<in> fst ` set fs) (fst f) (snd f) (header_of fs)"
  unfolding header_of_def [of "fs @ [f]"] fold_append comp_def header_fold [of fs]
  by (simp add: header_step_def split: prod.split)

lemma header_of_Nil: "header_of [] = frame_header_init" by (simp add: header_of_def)

lemma last_value_Nil [simp]: "last_value [] tag = []" by (simp add: last_value_def)

lemma header_of_members:
  "fh_begin_string (header_of fs) = last_value fs 8" "fh_sender_comp_id (header_of fs) = last_value fs 49"
  "fh_target_comp_id (header_of fs) = last_value fs 56" "fh_msg_seq_num (header_of fs) = last_value fs 34"
  "fh_msg_type (header_of fs) = last_value fs 35" "fh_sending_time (header_of fs) = last_value fs 52"
  "fh_test_req_id (header_of fs) = last_value fs 112" "fh_begin_seqno (header_of fs) = last_value fs 7"
  "fh_end_seqno (header_of fs) = last_value fs 16" "fh_new_seqno (header_of fs) = last_value fs 36"
  "fh_poss_dup_flag (header_of fs) = last_value fs 43" "fh_orig_sending_time (header_of fs) = last_value fs 122"
  "fh_gap_fill_flag (header_of fs) = last_value fs 123" "fh_reset_seqnum_flag (header_of fs) = last_value fs 141"
  "fh_test_message_indicator (header_of fs) = last_value fs 464" "fh_max_message_size (header_of fs) = last_value fs 383"
  "fh_next_expected_msg_seq_num (header_of fs) = last_value fs 789"
  "fh_next_expected_present (header_of fs) \<longleftrightarrow> 789 \<in> fst ` set fs" "fh_fault (header_of fs) = fault_none"
  by (induction fs rule: rev_induct; simp add: header_of_Nil frame_header_init_def header_of_snoc header_field_def Let_def)+

lemma header_of_references:
  "fh_fault_ref_seq_num (header_of fs) = first_value fs 34"
  "length fs < 2 ^ 32 \<Longrightarrow> fh_msg_type_is_third (header_of fs) \<longleftrightarrow> 3 \<le> length fs \<and> fst (fs ! 2) = 35"
proof -
  have "fh_fault_ref_seq_num (header_of fs) = (case map_of fs 34 of None \<Rightarrow> [] | Some v \<Rightarrow> v)"
  proof (induction fs rule: rev_induct)
    case (snoc f fs)
    show ?case
    proof (cases "34 \<in> fst ` set fs")
      case True
      then obtain v where "map_of fs 34 = Some v" by (metis map_of_eq_None_iff not_Some_eq)
      then show ?thesis using True snoc by (simp add: header_of_snoc header_field_def Let_def map_add_def)
    next
      case False
      then have "map_of fs 34 = None" by (simp add: map_of_eq_None_iff)
      then show ?thesis using False snoc by (cases f) (simp add: header_of_snoc header_field_def Let_def map_add_def)
    qed
  qed (simp add: header_of_Nil frame_header_init_def)
  then show "fh_fault_ref_seq_num (header_of fs) = first_value fs 34" by (simp add: first_value_def)
  show "length fs < 2 ^ 32 \<Longrightarrow> fh_msg_type_is_third (header_of fs) \<longleftrightarrow> 3 \<le> length fs \<and> fst (fs ! 2) = 35"
  proof (induction fs rule: rev_induct)
    case (snoc f fs)
    then show ?case
      by (cases f) (auto simp: header_of_snoc header_field_def Let_def nth_append)
  qed (simp add: header_of_def frame_header_init_def)
qed

text \<open>C29. The session layer and the message view split a frame the same way. For every frame and
  every dictionary in which no Data field is itself a Length field, the header scan reports a
  fault exactly where building the offset table fails for another reason than its entry cap;
  and when the table is built, every header member is the value of the last of the table's
  entries with that tag, the reference number of a Reject the first MsgSeqNum, and the
  third-field test is about the third entry.\<close>

theorem header_agrees_with_table:
  assumes "unchained hooks" "9 \<le> length frame" "length frame < 2 ^ 32"
    and "t = build arena_ample hooks cfg seed frame 0" "h = scan_frame_header hooks frame"
    and "fs = map (field_of frame) (tbl_entries t)"
  shows "case tbl_status t of
      Inl e \<Rightarrow> e = wire_offset_table_full \<or> fh_fault h \<noteq> fault_none
    | Inr _ \<Rightarrow> fh_fault h = fault_none \<and>
        fh_begin_string h = last_value fs 8 \<and> fh_sender_comp_id h = last_value fs 49 \<and>
        fh_target_comp_id h = last_value fs 56 \<and> fh_msg_seq_num h = last_value fs 34 \<and>
        fh_msg_type h = last_value fs 35 \<and> fh_sending_time h = last_value fs 52 \<and>
        fh_test_req_id h = last_value fs 112 \<and> fh_begin_seqno h = last_value fs 7 \<and>
        fh_end_seqno h = last_value fs 16 \<and> fh_new_seqno h = last_value fs 36 \<and>
        fh_poss_dup_flag h = last_value fs 43 \<and> fh_orig_sending_time h = last_value fs 122 \<and>
        fh_gap_fill_flag h = last_value fs 123 \<and> fh_reset_seqnum_flag h = last_value fs 141 \<and>
        fh_max_message_size h = last_value fs 383 \<and> fh_test_message_indicator h = last_value fs 464 \<and>
        fh_next_expected_msg_seq_num h = last_value fs 789 \<and>
        (fh_next_expected_present h \<longleftrightarrow> 789 \<in> fst ` set fs) \<and> fh_fault_ref_seq_num h = first_value fs 34 \<and>
        (fh_msg_type_is_third h \<longleftrightarrow> 3 \<le> length fs \<and> fst (fs ! 2) = 35)"
proof -
  have "carry_rel hooks (length frame) (0, 0) carry_init" by (simp add: carry_rel_def carry_init_def)
  moreover have "\<forall>k. \<not> push_fails arena_ample k" by (simp add: arena_ample_def)
  moreover have "fh_fault frame_header_init = fault_none" by (simp add: frame_header_init_def)
  ultimately have agree: "case scan_fields arena_ample hooks cfg frame 0 (0, 0) [] of
      Inl e \<Rightarrow> e = wire_offset_table_full \<or> fh_fault h \<noteq> fault_none
    | Inr es \<Rightarrow> h = header_of (map (field_of frame) es)"
    using header_loop_agrees [where mr = arena_ample and cfg = cfg and i = 0 and carry = "(0, 0)" and acc = "[]" and st = carry_init
        and prev = 0 and n = 0 and seen = False and h = frame_header_init, OF refl assms(1) _ assms(2,3)]
    by (simp add: assms(5) scan_frame_header_def header_of_def split: sum.splits)
  show ?thesis
  proof (cases "scan_fields arena_ample hooks cfg frame 0 (0, 0) []")
    case (Inl e)
    then show ?thesis using agree assms(4) by (simp add: build_def table_failed_def arena_ample_def)
  next
    case (Inr es)
    then have t: "tbl_status t = ok ()" "tbl_entries t = es"
      using assms(4) by (simp_all add: build_def arena_ample_def)
    have len: "length fs < 2 ^ 32"
      using build_entries_few(2) [of arena_ample hooks cfg seed frame 0] t(1) assms(3,4,6) by simp
    have h: "h = header_of fs" using agree Inr t(2) assms(6) by simp
    show ?thesis using t(1) header_of_members [of fs] header_of_references(1) [of fs] header_of_references(2) [OF len]
      unfolding h by simp
  qed
qed

theorem header_agrees_with_table_witness:
  "fh_fault (scan_frame_header dict_hooks_none (wire_fields sample_fields)) = fault_none \<and>
   fh_msg_type (scan_frame_header dict_hooks_none (wire_fields sample_fields)) = ''B''"
proof -
  note l = build_layout [OF sample_fields_ok, of 7 0]
  have "9 \<le> length (wire_fields sample_fields)" by (simp add: sample_fields_def wire_field_def dec_digits.simps)
  moreover have "last_value (map (field_of (wire_fields sample_fields)) (layout 0 sample_fields)) 35 = ''B''"
    using field_of_layout [of "wire_fields sample_fields" "[]" sample_fields] by (simp add: sample_fields_def last_value_def)
  ultimately show ?thesis
    using header_agrees_with_table [OF unchained_none _ sample_fields_ok(4) refl refl refl, of table_config_default 7] l by simp
qed

lemma ids_tag_scan_ok: "tag_scan frame i tag = ok (j, t) \<Longrightarrow> ids_tag_scan frame i tag True = (j, t, True)"
proof (induction frame i tag rule: tag_scan.induct)
  case (1 frame i tag)
  show ?case
    using 1(2) 1(1) unfolding ids_tag_scan.simps [of frame i tag True] tag_scan.simps [of frame i tag]
    by (auto split: if_splits prod.splits)
qed

lemma ids_loop_header:
  assumes "fh_fault (header_loop dict_hooks_none frame i carry prev n seen h) = fault_none" "fh_fault h = fault_none"
    and "ids = \<lparr>ids_begin_string = fh_begin_string h, ids_sender_comp_id = fh_sender_comp_id h, ids_target_comp_id = fh_target_comp_id h\<rparr>"
    and "h' = header_loop dict_hooks_none frame i carry prev n seen h"
  shows "ids_loop frame i carry ids =
    \<lparr>ids_begin_string = fh_begin_string h', ids_sender_comp_id = fh_sender_comp_id h', ids_target_comp_id = fh_target_comp_id h'\<rparr>"
  using assms
proof (induction dict_hooks_none frame i carry prev n seen h arbitrary: ids rule: header_loop.induct)
  case (1 frame i carry prev n seen h)
  note IH = 1(1) and p = 1(2-)
  show ?case
  proof (cases "i < length frame")
    case False
    then show ?thesis using p by (simp add: header_loop.simps ids_loop.simps)
  next
    case i: True
    obtain j tag where t: "tag_scan frame i 0 = ok (j, tag)"
      using p(1) i by (cases "tag_scan frame i 0") (auto simp: header_loop.simps [of _ frame i] record_fault_def)
    have j: "\<not> (length frame \<le> j \<or> frame ! j \<noteq> EQ \<or> j = i)"
      using p(1) i t by (auto simp: header_loop.simps [of _ frame i] record_fault_def Let_def split: if_splits)
    obtain ve carry' where v: "read_value dict_hooks_none carry frame (j + 1) (u16 tag) = (Some ve, carry')"
      using p(1) i t j by (cases "read_value dict_hooks_none carry frame (j + 1) (u16 tag)", cases "fst (read_value dict_hooks_none carry frame (j + 1) (u16 tag))")
        (auto simp: header_loop.simps [of _ frame i] record_fault_def Let_def)
    define val where "val = sub_span frame (j + 1) (ext_end ve - (j + 1))"
    define i' where "i' = (if ext_end ve < length frame then ext_end ve + 1 else ext_end ve)"
    define h2 where "h2 = header_field (u32 (n + 1)) seen tag val h"
    have hl: "header_loop dict_hooks_none frame i carry prev n seen h =
        header_loop dict_hooks_none frame i' carry' (u16 tag) (u32 (n + 1)) (seen \<or> tag = 34) h2"
      using i t j v by (subst header_loop.simps) (simp add: Let_def val_def i'_def h2_def)
    let ?ids = "\<lparr>ids_begin_string = fh_begin_string h2, ids_sender_comp_id = fh_sender_comp_id h2, ids_target_comp_id = fh_target_comp_id h2\<rparr>"
    have il: "ids_loop frame i carry ids = ids_loop frame i' carry' ?ids"
      using i j v ids_tag_scan_ok [OF t] p(3)
      by (subst ids_loop.simps) (simp add: Let_def val_def i'_def h2_def header_field_def)
    have "ids_loop frame i' carry' ?ids =
      \<lparr>ids_begin_string = fh_begin_string h', ids_sender_comp_id = fh_sender_comp_id h', ids_target_comp_id = fh_target_comp_id h'\<rparr>"
      unfolding i'_def h2_def val_def
    proof (rule IH [OF i refl t refl j v [symmetric] refl refl refl])
      note hl' = hl [unfolded i'_def h2_def val_def]
      show "fh_fault (header_field (u32 (n + 1)) seen tag (sub_span frame (j + 1) (ext_end ve - (j + 1))) h) = fault_none"
        using p(2) by (simp add: header_field_def Let_def)
      show "fh_fault (header_loop dict_hooks_none frame (if ext_end ve < length frame then ext_end ve + 1 else ext_end ve) carry'
          (u16 tag) (u32 (n + 1)) (seen \<or> tag = 34)
          (header_field (u32 (n + 1)) seen tag (sub_span frame (j + 1) (ext_end ve - (j + 1))) h)) = fault_none"
        using p(1) unfolding hl' .
      show "h' = header_loop dict_hooks_none frame (if ext_end ve < length frame then ext_end ve + 1 else ext_end ve) carry'
          (u16 tag) (u32 (n + 1)) (seen \<or> tag = 34)
          (header_field (u32 (n + 1)) seen tag (sub_span frame (j + 1) (ext_end ve - (j + 1))) h)"
        using p(4) unfolding hl' .
    qed simp
    then show ?thesis using il by simp
  qed
qed



text \<open>With a chain of pairs (1 announces 2, which announces 3) the two scanners split
  differently: behind the counted 2 the header scan counts 3, the table does not.\<close>

definition chain_hooks :: dict_hooks where
  "chain_hooks = dict_hooks_none\<lparr>length_pair_fn := Some (\<lambda>t side. case side of
     side_length \<Rightarrow> if t = 1 then 2 else if t = 2 then 3 else 0
   | side_data \<Rightarrow> if t = 2 then 1 else if t = 3 then 2 else 0)\<rparr>"

definition chain_frame :: "byte list" where
  "chain_frame = ''1=1'' @ [SOH] @ ''2=5'' @ [SOH] @ ''3=abc'' @ [SOH]"

lemma chain_tags: "data_tag_for_length chain_hooks 1 = 2" "data_tag_for_length chain_hooks 2 = 3" "data_tag_for_length chain_hooks 3 = 0"
  by (simp_all add: data_tag_for_length_def standard_pair_tag_bit_def standard_pair_tag_range chain_hooks_def standard_pair_tag_bit_exact [symmetric] dict_hooks_none_def)

lemma chain_scan:
  "length chain_frame = 14" "tag_scan chain_frame 0 0 = ok (1, 1)" "tag_scan chain_frame 4 0 = ok (5, 2)" "tag_scan chain_frame 8 0 = ok (9, 3)"
  "chain_frame ! 1 = EQ" "chain_frame ! 5 = EQ" "chain_frame ! 9 = EQ" "chain_frame ! 7 = SOH"
  "next_soh chain_frame 2 = 3" "next_soh chain_frame 10 = 13"
  "sub_span chain_frame 2 1 = ''1''" "sub_span chain_frame 6 1 = ''5''"
  by (simp_all add: tag_scan.simps next_soh.simps chain_frame_def is_digit_def accumulate_tag_digit_exact digit_val_def sub_span_def)

lemma split_differs_on_chain:
  "fh_fault (scan_frame_header chain_hooks chain_frame) = length_data_mismatch"
  "tbl_status (build arena_ample chain_hooks table_config_default 7 chain_frame 0) = ok ()"
proof -
  have c: "parse_bounded_u32 ''1'' = 1" "parse_bounded_u32 ''5'' = 5"
    by (simp_all add: parse_bounded_u32_value dec_value_def is_digit_def digit_val_def)
  have v: "read_value chain_hooks carry_init chain_frame 2 1 = (Some \<lparr>ext_end = 3, counted = False\<rparr>, \<lparr>carry_tag = 2, carry_count = 1\<rparr>)"
    "read_value chain_hooks \<lparr>carry_tag = 2, carry_count = 1\<rparr> chain_frame 6 2 = (Some \<lparr>ext_end = 7, counted = True\<rparr>, \<lparr>carry_tag = 3, carry_count = 5\<rparr>)"
    "read_value chain_hooks \<lparr>carry_tag = 3, carry_count = 5\<rparr> chain_frame 10 3 = (None, \<lparr>carry_tag = 0, carry_count = 5\<rparr>)"
    by (simp_all add: read_value_def carry_init_def chain_scan chain_tags c chain_scan [unfolded One_nat_def] counted_value_end_def Let_def del: One_nat_def)
  show "fh_fault (scan_frame_header chain_hooks chain_frame) = length_data_mismatch"
    unfolding scan_frame_header_def
    by (simp add: header_loop.simps [of _ _ 0] header_loop.simps [of _ _ 4] header_loop.simps [of _ _ 8] chain_scan v
        record_fault_def Let_def del: One_nat_def)
  have s: "scan_value chain_hooks chain_frame (0, 0) 1 2 = ok (1, 4, (2, 1))"
    "scan_value chain_hooks chain_frame (2, 1) 2 6 = ok (1, 8, (0, 0))"
    "scan_value chain_hooks chain_frame (0, 0) 3 10 = ok (3, 14, (0, 0))"
    by (simp_all add: scan_value_def chain_scan chain_scan [unfolded One_nat_def] chain_tags Let_def
        accumulate_bounded_exact is_digit_def digit_val_def del: One_nat_def)
  show "tbl_status (build arena_ample chain_hooks table_config_default 7 chain_frame 0) = ok ()"
    by (simp add: build_def scan_fields.simps [of _ _ _ _ 0] scan_fields.simps [of _ _ _ _ 4] scan_fields.simps [of _ _ _ _ 8]
        scan_fields.simps [of _ _ _ _ 14] chain_scan s arena_ample_def table_config_default_def del: One_nat_def)
qed

end
