(* ===== verification/Fixpp_Admin.thy ===== *)
theory Fixpp_Admin
  imports Fixpp_FrameHeader
begin

text \<open>
  The administrative messages of the session layer (\<^verbatim>\<open>src/session/admin_messages.cpp\<close>): one
  builder per message over the wire writer, and \<^verbatim>\<open>interpret_logon\<close>, which validates the Logon
  of the peer.

  A builder appends its fields in order, computing each value when its turn comes, and stops at
  the first error; \<open>append_fields\<close> is that sequence, and \<open>build_frame\<close> adds the commit.  The
  result is the committed length, the frame being the first bytes of the buffer.  Values of
  type \<^verbatim>\<open>int\<close> keep their 32-bit range; the HeartBtInt of a Logon is accumulated with the
  wrap-around of a 32-bit register (the C++ leaves the overflow undefined).
\<close>

subsection \<open>Rendering\<close>

fun render_back :: "nat \<Rightarrow> nat \<Rightarrow> byte list \<Rightarrow> nat \<times> byte list" where
  "render_back v p acc = (if v > 0 \<and> p > 0 then render_back (v div 10) (p - 1) (digit_char (v mod 10) # acc) else (v, acc))"

declare render_back.simps [simp del]

definition render_number :: "nat \<Rightarrow> nat \<Rightarrow> byte list" where
  "render_number v n =
     (if n = 0 then []
      else if v = 0 then ''0''
      else case render_back v n [] of (rest, ds) \<Rightarrow> if rest \<noteq> 0 then [] else ds)"

text \<open>\<^verbatim>\<open>char nbuf[12]\<close> and the error when nothing was rendered.\<close>

definition number_value :: "nat \<Rightarrow> byte list expected_t" where
  "number_value v = (let sv = render_number v 12 in if sv = [] then unexpected wire_field_value_truncated else ok sv)"

definition clamp_int :: "int \<Rightarrow> nat" where
  "clamp_int i = (if i < 0 then 0 else nat i)"

subsection \<open>Builders\<close>

fun append_fields :: "writer \<Rightarrow> (nat \<times> byte list expected_t) list \<Rightarrow> unit expected_t \<times> writer" where
  "append_fields w [] = (ok (), w)"
| "append_fields w ((tag, Inl e) # fs) = (unexpected e, w)"
| "append_fields w ((tag, Inr value) # fs) =
     (case append_raw w tag value of
        (Inl e, w) \<Rightarrow> (unexpected e, w)
      | (Inr _, w) \<Rightarrow> append_fields w fs)"

definition build_frame :: "byte list \<Rightarrow> (nat \<times> byte list expected_t) list \<Rightarrow> nat expected_t \<times> writer" where
  "build_frame out fs =
     (case append_fields (writer_new out) fs of
        (Inl e, w) \<Rightarrow> (unexpected e, w)
      | (Inr _, w) \<Rightarrow> commit w)"

datatype application_version = Unknown | v40 | v41 | v42 | v43 | v44 | v50 | v50sp1 | v50sp2 | vlatest

definition render_appl_ver_id :: "application_version \<Rightarrow> byte list expected_t" where
  "render_appl_ver_id v =
     (case v of v40 \<Rightarrow> ok ''2'' | v41 \<Rightarrow> ok ''3'' | v42 \<Rightarrow> ok ''4'' | v43 \<Rightarrow> ok ''5'' | v44 \<Rightarrow> ok ''6''
      | v50 \<Rightarrow> ok ''7'' | v50sp1 \<Rightarrow> ok ''8'' | v50sp2 \<Rightarrow> ok ''9'' | vlatest \<Rightarrow> ok ''10''
      | Unknown \<Rightarrow> unexpected dict_unknown_appl_ver_id)"

text \<open>An enumeration may hold a value outside its enumerators through a cast.\<close>

datatype msg_direction = send | receive | off_enum

record supported_msg_type =
  smt_direction :: msg_direction
  smt_msg_type :: "byte list"

record logon_advertise_options =
  opt_max_message_size :: "nat option"
  opt_test_message_indicator :: bool
  opt_supported_msg_types :: "supported_msg_type list"

definition optional_field :: "nat \<Rightarrow> byte list option \<Rightarrow> (nat \<times> byte list expected_t) list" where
  "optional_field tag v = (case v of None \<Rightarrow> [] | Some s \<Rightarrow> [(tag, ok s)])"

definition text_field :: "nat \<Rightarrow> byte list \<Rightarrow> (nat \<times> byte list expected_t) list" where
  "text_field tag s = (if s \<noteq> [] then [(tag, ok s)] else [])"

definition msg_type_fields :: "supported_msg_type \<Rightarrow> (nat \<times> byte list expected_t) list" where
  "msg_type_fields m =
     [(372, ok (smt_msg_type m)),
      (385, case smt_direction m of send \<Rightarrow> ok ''S'' | receive \<Rightarrow> ok ''R'' | off_enum \<Rightarrow> unexpected invalid_session_config)]"

definition advertise_fields :: "logon_advertise_options \<Rightarrow> (nat \<times> byte list expected_t) list" where
  "advertise_fields opts =
     (case opt_max_message_size opts of None \<Rightarrow> [] | Some n \<Rightarrow> [(383, number_value n)]) @
     (if opt_supported_msg_types opts \<noteq> [] then
        (384, number_value (u32 (length (opt_supported_msg_types opts)))) #
        concat (map msg_type_fields (opt_supported_msg_types opts))
      else []) @
     (if opt_test_message_indicator opts then [(464, ok ''Y'')] else [])"

text \<open>The fields every message starts with.\<close>

definition header_fields ::
    "byte list \<Rightarrow> byte list \<Rightarrow> nat \<Rightarrow> byte list \<Rightarrow> byte list \<Rightarrow> byte list \<Rightarrow> (nat \<times> byte list expected_t) list" where
  "header_fields begin_string mtype seq sender_comp_id sending_time target_comp_id =
     [(8, ok begin_string), (35, ok mtype), (34, number_value seq), (49, ok sender_comp_id),
      (52, ok sending_time), (56, ok target_comp_id)]"

definition logon_fields ::
    "nat \<Rightarrow> byte list \<Rightarrow> byte list \<Rightarrow> byte list \<Rightarrow> int \<Rightarrow> byte list \<Rightarrow> bool \<Rightarrow> nat option \<Rightarrow> application_version option \<Rightarrow>
     byte list option \<Rightarrow> byte list option \<Rightarrow> logon_advertise_options \<Rightarrow> (nat \<times> byte list expected_t) list" where
  "logon_fields seq sender_comp_id target_comp_id begin_string heartbt_int sending_time reset_seqnum next_expected_seq
       default_appl_ver_id username password opts =
     header_fields begin_string ''A'' seq sender_comp_id sending_time target_comp_id @
     [(98, ok ''0''), (108, number_value (clamp_int heartbt_int))] @
     (case default_appl_ver_id of None \<Rightarrow> [] | Some v \<Rightarrow> [(1137, render_appl_ver_id v)]) @
     optional_field 553 username @ optional_field 554 password @
     (if reset_seqnum then [(141, ok ''Y'')] else []) @
     (case next_expected_seq of None \<Rightarrow> [] | Some n \<Rightarrow> [(789, number_value n)]) @
     advertise_fields opts"

definition build_logon where
  "build_logon out seq sender_comp_id target_comp_id begin_string heartbt_int sending_time reset_seqnum next_expected_seq
       default_appl_ver_id username password opts =
     build_frame out (logon_fields seq sender_comp_id target_comp_id begin_string heartbt_int sending_time reset_seqnum
       next_expected_seq default_appl_ver_id username password opts)"

definition build_logout where
  "build_logout out seq sender_comp_id target_comp_id text begin_string sending_time =
     build_frame out (header_fields begin_string ''5'' seq sender_comp_id sending_time target_comp_id @ text_field 58 text)"

definition build_heartbeat where
  "build_heartbeat out seq sender_comp_id target_comp_id test_req_id begin_string sending_time =
     build_frame out (header_fields begin_string ''0'' seq sender_comp_id sending_time target_comp_id @
       text_field 112 test_req_id)"

definition build_test_request where
  "build_test_request out seq sender_comp_id target_comp_id test_req_id begin_string sending_time =
     build_frame out (header_fields begin_string ''1'' seq sender_comp_id sending_time target_comp_id @
       [(112, ok test_req_id)])"

definition build_reject_with_text where
  "build_reject_with_text out seq sender_comp_id target_comp_id ref_seq_num (ref_tag_id :: int) ref_msg_type
       session_reject_reason begin_string sending_time text =
     build_frame out (header_fields begin_string ''3'' seq sender_comp_id sending_time target_comp_id @
       [(45, number_value ref_seq_num)] @
       (if ref_tag_id > 0 then [(371, number_value (nat ref_tag_id))] else []) @
       text_field 372 ref_msg_type @ [(373, number_value (clamp_int session_reject_reason))] @ text_field 58 text)"

definition build_reject where
  "build_reject out seq sender_comp_id target_comp_id ref_seq_num ref_tag_id ref_msg_type session_reject_reason
       begin_string sending_time =
     build_reject_with_text out seq sender_comp_id target_comp_id ref_seq_num ref_tag_id ref_msg_type
       session_reject_reason begin_string sending_time []"

definition build_business_message_reject where
  "build_business_message_reject out seq sender_comp_id target_comp_id ref_seq_num ref_msg_type business_reject_reason
       begin_string sending_time =
     build_frame out (header_fields begin_string ''j'' seq sender_comp_id sending_time target_comp_id @
       [(45, number_value ref_seq_num)] @ text_field 372 ref_msg_type @
       [(380, number_value (clamp_int business_reject_reason))])"

definition build_resend_request where
  "build_resend_request out seq sender_comp_id target_comp_id begin_seqno end_seqno begin_string sending_time =
     build_frame out (header_fields begin_string ''2'' seq sender_comp_id sending_time target_comp_id @
       [(7, number_value begin_seqno), (16, number_value end_seqno)])"

definition build_sequence_reset_gapfill where
  "build_sequence_reset_gapfill out seq sender_comp_id target_comp_id new_seqno begin_string sending_time =
     build_frame out (header_fields begin_string ''4'' seq sender_comp_id sending_time target_comp_id @
       [(43, ok ''Y''), (122, ok sending_time), (36, number_value new_seqno), (123, ok ''Y'')])"

subsection \<open>The Logon of the peer\<close>

definition i32 :: "int \<Rightarrow> int" where
  "i32 x = (x + 2 ^ 31) mod 2 ^ 32 - 2 ^ 31"

fun heartbt_loop :: "int \<Rightarrow> byte list \<Rightarrow> int" where
  "heartbt_loop v [] = v"
| "heartbt_loop v (ch # val) =
     (if \<not> is_digit ch then - 1 else heartbt_loop (i32 (i32 (v * 10) + int (digit_val ch))) val)"

record logon_scan =
  begin_string_found :: "byte list"
  msg_type_found :: "byte list"
  sender_found :: "byte list"
  target_found :: "byte list"
  heartbt_int_found :: int
  has_heartbt :: bool
  default_appl_ver_id_found :: "byte list option"
  username_found :: "byte list option"
  password_found :: "byte list option"
  invalid_encrypt_method_seen :: bool

definition logon_scan_init :: logon_scan where
  "logon_scan_init =
     \<lparr>begin_string_found = [], msg_type_found = [], sender_found = [], target_found = [], heartbt_int_found = - 1,
      has_heartbt = False, default_appl_ver_id_found = None, username_found = None, password_found = None,
      invalid_encrypt_method_seen = False\<rparr>"

definition logon_field :: "nat \<times> byte list \<Rightarrow> logon_scan \<Rightarrow> logon_scan" where
  "logon_field f st = (case f of (tag, val) \<Rightarrow>
     if tag = 8 then st\<lparr>begin_string_found := val\<rparr>
     else if tag = 35 then st\<lparr>msg_type_found := val\<rparr>
     else if tag = 49 then st\<lparr>sender_found := val\<rparr>
     else if tag = 56 then st\<lparr>target_found := val\<rparr>
     else if tag = 108 then st\<lparr>heartbt_int_found := heartbt_loop 0 val, has_heartbt := True\<rparr>
     else if tag = 98 then (if val \<noteq> ''0'' then st\<lparr>invalid_encrypt_method_seen := True\<rparr> else st)
     else if tag = 1137 then st\<lparr>default_appl_ver_id_found := Some val\<rparr>
     else if tag = 553 then st\<lparr>username_found := Some val\<rparr>
     else if tag = 554 then st\<lparr>password_found := Some val\<rparr>
     else st)"

text \<open>\<open>Inl\<close> is the jump to \<^verbatim>\<open>next_field\<close>, with the position it is taken at.\<close>

function logon_tag_scan :: "byte list \<Rightarrow> nat \<Rightarrow> nat \<Rightarrow> nat + nat \<times> nat" where
  "logon_tag_scan frame i tag =
     (if i < length frame \<and> frame ! i \<noteq> EQ \<and> frame ! i \<noteq> SOH then
        if \<not> is_digit (frame ! i) then Inl i
        else case accumulate_tag_digit tag (frame ! i) of (tag, fits) \<Rightarrow>
          if \<not> fits then Inl i else logon_tag_scan frame (i + 1) tag
      else if i \<ge> length frame \<or> frame ! i \<noteq> EQ then Inl i
      else Inr (i, tag))"
  by pat_completeness auto
termination
  by (relation "measure (\<lambda>(frame, i, tag). length frame - i)") auto

declare logon_tag_scan.simps [simp del]

lemma logon_tag_scan_bounds:
  assumes "i \<le> length frame"
  shows "case logon_tag_scan frame i tag of Inl j \<Rightarrow> i \<le> j \<and> j \<le> length frame | Inr (j, t) \<Rightarrow> i \<le> j \<and> j < length frame"
  using assms
proof (induction frame i tag rule: logon_tag_scan.induct)
  case (1 frame i tag)
  show ?case using 1 by (subst logon_tag_scan.simps) (fastforce split: prod.splits sum.splits)
qed

lemma logon_tag_scan_Inl: "logon_tag_scan frame i 0 = Inl j \<Longrightarrow> i < length frame \<Longrightarrow> i \<le> next_soh frame j"
  using logon_tag_scan_bounds [of i frame 0] next_soh_bounds [of j frame] by simp

lemma logon_tag_scan_Inr: "logon_tag_scan frame i 0 = Inr (j, t) \<Longrightarrow> i < length frame \<Longrightarrow> i \<le> j \<and> \<not> length frame \<le> j"
  using logon_tag_scan_bounds [of i frame 0] by simp

function logon_loop ::
    "dict_hooks \<Rightarrow> byte list \<Rightarrow> nat \<Rightarrow> length_data_carry \<Rightarrow> logon_scan \<Rightarrow> logon_scan expected_t" where
  "logon_loop hooks frame i carry st =
     (if i < length frame then
        case logon_tag_scan frame i 0 of
          Inl j \<Rightarrow>
            let e = next_soh frame j in
            logon_loop hooks frame (if e < length frame then e + 1 else e) (carry_reset carry) st
        | Inr (j, tag) \<Rightarrow>
            (case read_value hooks carry frame (j + 1) (u16 tag) of
               (None, _) \<Rightarrow> unexpected session_invalid_logon
             | (Some value, carry) \<Rightarrow>
                 let e = ext_end value; val = sub_span frame (j + 1) (e - (j + 1)) in
                 logon_loop hooks frame (if e < length frame \<and> frame ! e = SOH then e + 1 else e) carry
                   (logon_field (tag, val) st))
      else ok st)"
  by pat_completeness auto
termination
  by (relation "measure (\<lambda>(hooks, frame, i, carry, st). length frame - i)")
     (auto intro!: diff_less_mono2 le_imp_less_Suc dest!: logon_tag_scan_Inl logon_tag_scan_Inr elim!: less_imp_le [OF read_progress] read_progress)

declare logon_loop.simps [simp del]

record logon_interpret_result =
  heartbt_int :: int
  default_appl_ver_id :: "byte list option"
  username :: "byte list option"
  password :: "byte list option"

definition logon_checks :: "byte list \<Rightarrow> byte list \<Rightarrow> byte list \<Rightarrow> logon_scan \<Rightarrow> logon_interpret_result expected_t" where
  "logon_checks expected_sender expected_target expected_begin st =
     (if msg_type_found st \<noteq> ''A'' then unexpected session_invalid_logon
      else if begin_string_found st \<noteq> expected_begin then unexpected session_begin_string_unsupported
      else if sender_found st \<noteq> expected_sender then unexpected session_compid_mismatch
      else if target_found st \<noteq> expected_target then unexpected session_compid_mismatch
      else if \<not> has_heartbt st \<or> heartbt_int_found st < 0 then unexpected session_invalid_logon
      else if invalid_encrypt_method_seen st then unexpected session_invalid_logon
      else ok \<lparr>heartbt_int = heartbt_int_found st, default_appl_ver_id = default_appl_ver_id_found st,
               username = username_found st, password = password_found st\<rparr>)"

definition interpret_logon ::
    "dict_hooks \<Rightarrow> byte list \<Rightarrow> byte list \<Rightarrow> byte list \<Rightarrow> byte list \<Rightarrow> logon_interpret_result expected_t" where
  "interpret_logon hooks frame expected_sender expected_target expected_begin =
     (case logon_loop hooks frame 0 carry_init logon_scan_init of
        Inl e \<Rightarrow> unexpected e
      | Inr st \<Rightarrow> logon_checks expected_sender expected_target expected_begin st)"

subsection \<open>Builders write messages\<close>

lemma render_back_digits:
  "0 < v \<Longrightarrow> length (dec_digits v) \<le> p \<Longrightarrow> render_back v p acc = (0, dec_digits v @ acc)"
proof (induction v arbitrary: p acc rule: less_induct)
  case (less v)
  have p: "0 < p" using less.prems(2) dec_digits_not_Nil [of v] by (cases "dec_digits v") auto
  show ?case
  proof (cases "v < 10")
    case True
    then show ?thesis using less.prems p by (simp add: render_back.simps [of v] render_back.simps [of 0] dec_digits.simps)
  next
    case False
    then have "render_back (v div 10) (p - 1) (digit_char (v mod 10) # acc) = (0, dec_digits (v div 10) @ digit_char (v mod 10) # acc)"
      using less.prems(2) by (intro less.IH) (simp_all add: dec_digits.simps [of v])
    then show ?thesis using less.prems(1) p False by (simp add: render_back.simps [of v] dec_digits.simps [of v])
  qed
qed

lemma number_value_digits [simp]: "v < 2 ^ 32 \<Longrightarrow> number_value v = ok (dec_digits v)"
proof -
  assume v: "v < 2 ^ 32"
  have "length (dec_digits v) \<le> 12" using v by (intro length_dec_digits_le) simp_all
  then show ?thesis
    using render_back_digits [of v 12 "[]"] dec_digits_not_Nil [of v]
    by (cases "v = 0") (simp_all add: number_value_def render_number_def dec_digits.simps digit_char_simps)
qed

definition oks :: "(nat \<times> byte list) list \<Rightarrow> (nat \<times> byte list expected_t) list" where
  "oks fs = map (\<lambda>(tag, v). (tag, ok v)) fs"

lemma oks_simps [simp]: "oks [] = []" "oks ((tag, v) # fs) = (tag, ok v) # oks fs" "oks (fs @ gs) = oks fs @ oks gs"
  by (simp_all add: oks_def)

lemma append_fields_oks: "append_fields w (oks fs) = append_all w fs"
  by (induction w fs rule: append_all.induct) (simp_all split: prod.split sum.split)

lemma build_frame_oks: "build_frame out (oks fs) = write_message out fs"
  by (simp add: build_frame_def write_message_def append_fields_oks)

text \<open>When a builder succeeds, every value was computed, and the buffer starts with the message.\<close>

lemma append_fields_ok: "append_fields w fs = (ok u, w') \<Longrightarrow> \<exists>gs. fs = oks gs"
proof (induction w fs rule: append_fields.induct)
  case (1 w)
  then show ?case by (intro exI [of _ "[]"]) simp
next
  case (2 w tag e fs)
  then show ?case by simp
next
  case (3 w tag v fs)
  obtain r w1 where a: "append_raw w tag v = (r, w1)" by fastforce
  obtain u' where r: "r = Inr u'" using 3(2) a by (cases r) simp_all
  then obtain gs where "fs = oks gs" using 3(1) [OF a [symmetric] r] 3(2) a by auto
  then show ?case by (intro exI [of _ "(tag, v) # gs"]) simp
qed

lemma build_frame_ok:
  assumes "build_frame out (oks ((8, bs) # fs)) = (ok n, w)" "tags_ok fs" "length out < 2 ^ 32"
  shows "take n (dst w) = wire_fields (framed_fields bs fs)" "n = length (wire_fields (framed_fields bs fs))"
    "length (dst w) = length out"
proof -
  have "tags_ok ((8, bs) # fs)" using assms(2) by simp
  from write_message_result [OF this assms(3) assms(1) [unfolded build_frame_oks] refl refl]
  show "take n (dst w) = wire_fields (framed_fields bs fs)" "n = length (wire_fields (framed_fields bs fs))"
    "length (dst w) = length out"
    by (auto simp: message_as_fields split: if_splits)
qed

subsection \<open>Reading plain fields\<close>

definition plain :: "dict_hooks \<Rightarrow> (nat \<times> byte list) list \<Rightarrow> bool" where
  "plain hooks fs \<longleftrightarrow> (\<forall>(tag, v) \<in> set fs. tag < 2 ^ 16 \<and> SOH \<notin> set v \<and> data_tag_for_length hooks tag = 0)"

lemma plain_simps [simp]:
  "plain hooks []"
  "plain hooks ((tag, v) # fs) \<longleftrightarrow> tag < 2 ^ 16 \<and> SOH \<notin> set v \<and> data_tag_for_length hooks tag = 0 \<and> plain hooks fs"
  "plain hooks (fs @ gs) \<longleftrightarrow> plain hooks fs \<and> plain hooks gs"
  by (auto simp: plain_def)

lemma read_value_plain:
  assumes "buf = pre @ wire_field tag v @ rest" "SOH \<notin> set v" "carry_tag st = 0" "data_tag_for_length hooks tag = 0"
  shows "read_value hooks st buf (length pre + length (dec_digits tag) + 1) tag =
      (Some \<lparr>ext_end = length pre + length (dec_digits tag) + 1 + length v, counted = False\<rparr>, st)"
    "sub_span buf (length pre + length (dec_digits tag) + 1) (length v) = v"
    "length pre + length (dec_digits tag) + 1 + length v < length buf"
    "buf ! (length pre + length (dec_digits tag) + 1 + length v) = SOH"
proof -
  let ?p = "pre @ dec_digits tag @ [EQ]"
  have b: "buf = ?p @ v @ SOH # rest" using assms(1) by (simp add: wire_field_def)
  have "next_soh buf (length ?p) = length ?p + length v" by (rule next_soh_value [OF b assms(2)]) simp
  then show "read_value hooks st buf (length pre + length (dec_digits tag) + 1) tag =
      (Some \<lparr>ext_end = length pre + length (dec_digits tag) + 1 + length v, counted = False\<rparr>, st)"
    using assms(3,4) by (simp add: read_value_def Let_def)
  show "sub_span buf (length pre + length (dec_digits tag) + 1) (length v) = v" using b by (simp add: sub_span_def)
  show "length pre + length (dec_digits tag) + 1 + length v < length buf" using b by simp
  have "buf ! (length ?p + length v) = SOH" unfolding b by (simp only: nth_append_length_plus) simp
  then show "buf ! (length pre + length (dec_digits tag) + 1 + length v) = SOH" by simp
qed

lemma logon_tag_scan_ok:
  "tag_scan frame i tag = ok (j, t) \<Longrightarrow> j < length frame \<Longrightarrow> frame ! j = EQ \<Longrightarrow> logon_tag_scan frame i tag = Inr (j, t)"
proof (induction frame i tag rule: tag_scan.induct)
  case (1 frame i tag)
  show ?case
    using 1(2-) 1(1) unfolding logon_tag_scan.simps [of frame i tag] tag_scan.simps [of frame i tag]
    by (auto split: if_splits prod.splits)
qed

lemma logon_loop_fields:
  assumes "plain hooks fs" "frame = pre @ wire_fields fs" "carry_tag carry = 0"
  shows "logon_loop hooks frame (length pre) carry st = ok (fold logon_field fs st)"
  using assms
proof (induction fs arbitrary: pre st)
  case Nil
  then show ?case by (simp add: logon_loop.simps)
next
  case (Cons f fs)
  obtain tag v where f: "f = (tag, v)" by fastforce
  let ?ds = "dec_digits tag"
  have t: "tag < 2 ^ 16" "SOH \<notin> set v" "data_tag_for_length hooks tag = 0" "plain hooks fs" using Cons.prems(1) f by simp_all
  have b: "frame = pre @ wire_field tag v @ wire_fields fs" using Cons.prems(2) f by simp
  then have b2: "frame = pre @ ?ds @ EQ # v @ SOH # wire_fields fs" by (simp add: wire_field_def)
  have ts: "tag_scan frame (length pre) 0 = ok (length pre + length ?ds, tag)"
    using tag_scan_digits [OF b2, of 0] t(1) by (simp flip: dec_value_def)
  have eq: "frame ! (length pre + length ?ds) = EQ" "length pre + length ?ds < length frame" unfolding b2 by (simp_all add: nth_append)
  note lt = logon_tag_scan_ok [OF ts eq(2,1)]
  note rv = read_value_plain [OF b t(2) Cons.prems(3) t(3)]
  have "logon_loop hooks frame (length pre) carry st = logon_loop hooks frame (length (pre @ wire_field tag v)) carry (logon_field f st)"
    using eq lt rv t(1) f by (subst logon_loop.simps) (simp add: Let_def length_wire_field add.assoc)
  also have "\<dots> = ok (fold logon_field fs (logon_field f st))" using b t(4) Cons.prems(3) by (intro Cons.IH) simp_all
  finally show ?case by simp
qed

subsection \<open>What a Logon says\<close>

definition optional_value :: "(nat \<times> byte list) list \<Rightarrow> nat \<Rightarrow> byte list option" where
  "optional_value fs tag = (if tag \<in> fst ` set fs then Some (last_value fs tag) else None)"

lemma optional_value_snoc [simp]:
  "optional_value (fs @ [f]) tag = (if fst f = tag then Some (snd f) else optional_value fs tag)"
  by (auto simp: optional_value_def)

lemma logon_scan_members:
  "begin_string_found (fold logon_field fs logon_scan_init) = last_value fs 8"
  "msg_type_found (fold logon_field fs logon_scan_init) = last_value fs 35"
  "sender_found (fold logon_field fs logon_scan_init) = last_value fs 49"
  "target_found (fold logon_field fs logon_scan_init) = last_value fs 56"
  "has_heartbt (fold logon_field fs logon_scan_init) \<longleftrightarrow> 108 \<in> fst ` set fs"
  "default_appl_ver_id_found (fold logon_field fs logon_scan_init) = optional_value fs 1137"
  "username_found (fold logon_field fs logon_scan_init) = optional_value fs 553"
  "password_found (fold logon_field fs logon_scan_init) = optional_value fs 554"
  "invalid_encrypt_method_seen (fold logon_field fs logon_scan_init) \<longleftrightarrow> (\<exists>v. (98, v) \<in> set fs \<and> v \<noteq> ''0'')"
  by (induction fs rule: rev_induct; auto simp: logon_scan_init_def logon_field_def optional_value_def split: prod.split)+

lemma logon_scan_heartbt:
  "heartbt_int_found (fold logon_field fs logon_scan_init) =
     (if 108 \<in> fst ` set fs then heartbt_loop 0 (last_value fs 108) else - 1)"
  by (induction fs rule: rev_induct) (auto simp: logon_scan_init_def logon_field_def split: prod.split)

lemma i32_id: "- (2 ^ 31) \<le> x \<Longrightarrow> x < 2 ^ 31 \<Longrightarrow> i32 x = x"
  by (simp add: i32_def)

lemma heartbt_loop_value:
  "digits ds \<Longrightarrow> dec_acc v ds < 2 ^ 31 \<Longrightarrow> heartbt_loop (int v) ds = int (dec_acc v ds)"
proof (induction ds arbitrary: v)
  case (Cons c ds)
  have le: "v * 10 + digit_val c < 2 ^ 31"
    using Cons.prems(2) dec_acc_mono [of "v * 10 + digit_val c" ds] by simp
  have "i32 (int v * 10) = int v * 10" using le by (intro i32_id) simp_all
  moreover have "i32 (int v * 10 + int (digit_val c)) = int (v * 10 + digit_val c)" using le by (subst i32_id) simp_all
  ultimately show ?case using Cons.IH [of "v * 10 + digit_val c"] Cons.prems by simp
qed simp


lemma logon_heartbt_wraps: "heartbt_loop 0 ''4294967306'' = 10"
  by (simp add: i32_def is_digit_def digit_val_def)

subsection \<open>Sent and received\<close>

text \<open>A builder's field list whose values are all computed and hold no SOH, over tags that the
  dictionary pairs with nothing.\<close>

definition sendable :: "dict_hooks \<Rightarrow> (nat \<times> byte list expected_t) list \<Rightarrow> bool" where
  "sendable hooks fs \<longleftrightarrow> (\<forall>(tag, r) \<in> set fs. tag < 2 ^ 16 \<and> data_tag_for_length hooks tag = 0 \<and>
     (case r of Inl _ \<Rightarrow> False | Inr v \<Rightarrow> SOH \<notin> set v))"

definition computed :: "(nat \<times> byte list expected_t) list \<Rightarrow> (nat \<times> byte list) list" where
  "computed fs = map (\<lambda>(tag, r). (tag, projr r)) fs"

lemma computed_simps [simp]:
  "computed [] = []" "computed ((tag, r) # fs) = (tag, projr r) # computed fs" "computed (fs @ gs) = computed fs @ computed gs"
  by (simp_all add: computed_def)

lemma oks_computed: "oks gs = fs \<Longrightarrow> gs = computed fs"
  by (induction gs arbitrary: fs) (auto simp: oks_def)

lemma sendable_computed: "sendable hooks fs \<Longrightarrow> plain hooks (computed fs) \<and> fs = oks (computed fs)"
proof (induction fs)
  case (Cons f fs)
  obtain tag r where f: "f = (tag, r)" by fastforce
  with Cons show ?case by (cases r) (simp_all add: sendable_def)
qed simp

lemma fst_computed [simp]: "fst ` set (computed fs) = fst ` set fs"
  by (force simp: computed_def)

text \<open>What a builder that succeeds leaves in the buffer.\<close>

lemma built_fields:
  assumes "build_frame out ((8, ok bs) # fs) = (ok n, w)" "sendable hooks ((8, ok bs) # fs)" "length out < 2 ^ 32"
    "data_tag_for_length hooks 9 = 0" "data_tag_for_length hooks 10 = 0"
  shows "take n (dst w) = wire_fields (framed_fields bs (computed fs))"
    "n = length (wire_fields (framed_fields bs (computed fs)))" "n \<le> length out"
    "plain hooks (framed_fields bs (computed fs))"
proof -
  note s = sendable_computed [OF assms(2)]
  have p: "plain hooks (computed fs)" "SOH \<notin> set bs" "data_tag_for_length hooks 8 = 0" using s by simp_all
  then have t: "tags_ok (computed fs)" by (auto simp: plain_def)
  have "build_frame out (oks ((8, bs) # computed fs)) = (ok n, w)" using assms(1) s by simp
  note b = build_frame_ok [OF this t assms(3)]
  show "take n (dst w) = wire_fields (framed_fields bs (computed fs))" "n = length (wire_fields (framed_fields bs (computed fs)))"
    by (rule b)+
  then have "length (take n (dst w)) = n" by simp
  then show "n \<le> length out" using b(3) by simp
  have "SOH \<notin> set ds" if "digits ds" for ds :: "byte list" using that by (auto simp: list_all_iff)
  then show "plain hooks (framed_fields bs (computed fs))" using p assms(4,5) by (simp add: framed_fields_def)
qed

lemma build_frame_fits:
  assumes "sendable hooks ((8, ok bs) # fs)" "length out < 2 ^ 32" "length (wire_fields (computed fs)) \<le> 999999"
    "length (wire_field 8 bs) + length (wire_fields (computed fs)) + 16 \<le> length out"
  shows "\<exists>n w. build_frame out ((8, ok bs) # fs) = (ok n, w)"
proof -
  let ?b = "wire_fields (computed fs)"
  note s = sendable_computed [OF assms(1)]
  have t: "tags_ok ((8, bs) # computed fs)" using s by (auto simp: plain_def)
  obtain r w where rw: "write_message out ((8, bs) # computed fs) = (r, w)" by fastforce
  have "build_frame out ((8, ok bs) # fs) = (r, w)" using s rw build_frame_oks [of out "(8, bs) # computed fs"] by simp
  moreover have "length (dec_digits (length ?b)) \<le> 6" using assms(3) by (intro length_dec_digits_le) simp_all
  then have "length (message_bytes (wire_field 8 bs) ?b) \<le> length out" using assms(4) by (simp add: length_message_bytes)
  then have "\<exists>n. r = ok n" using write_message_result [OF t assms(2) rw refl refl] assms(3,4) by (auto split: if_splits)
  ultimately show ?thesis by blast
qed

definition logon_tag :: "nat \<Rightarrow> bool" where
  "logon_tag tag \<longleftrightarrow> tag \<in> {8, 35, 49, 56, 98, 108, 553, 554, 1137}"

lemma fold_logon_field_other: "\<forall>f \<in> set fs. \<not> logon_tag (fst f) \<Longrightarrow> fold logon_field fs st = st"
proof (induction fs arbitrary: st)
  case (Cons f fs)
  then have "logon_field f st = st" by (cases f) (simp add: logon_field_def logon_tag_def)
  with Cons show ?case by simp
qed simp

lemma interpret_plain:
  "plain hooks fs \<Longrightarrow> interpret_logon hooks (wire_fields fs) s t b = logon_checks s t b (fold logon_field fs logon_scan_init)"
  using logon_loop_fields [of hooks fs _ "[]" carry_init] by (simp add: interpret_logon_def carry_init_def)


text \<open>The options of a FIXT Logon with credentials.\<close>

definition sample_options :: logon_advertise_options where
  "sample_options = \<lparr>opt_max_message_size = Some 4096, opt_test_message_indicator = True,
     opt_supported_msg_types = [\<lparr>smt_direction = send, smt_msg_type = ''D''\<rparr>]\<rparr>"

abbreviation sample_logon :: "nat expected_t \<times> writer" where
  "sample_logon \<equiv> build_logon (replicate 512 (CHR ''x'')) 1 ''S'' ''T'' ''FIXT.1.1'' 30 ''20240101-00:00:00'' True (Some 2) (Some v50sp2)
     (Some ''u'') None sample_options"

definition admin_tags :: "nat list" where
  "admin_tags = [8, 9, 10, 34, 35, 49, 52, 56, 98, 108, 1137, 553, 554, 141, 789, 383, 384, 372, 385, 464, 7, 16, 36, 43, 45,
     58, 112, 122, 123, 371, 373, 380]"

lemma admin_tags_not_lengths: "list_all (\<lambda>p. length_tag p \<notin> set admin_tags) standard_length_data_pairs"
  by (simp add: standard_length_data_pairs_def admin_tags_def)

lemma unpaired_none: "tag \<in> set admin_tags \<Longrightarrow> data_tag_for_length dict_hooks_none tag = 0"
  using admin_tags_not_lengths standard_data_tag_iff [of tag "standard_data_tag_for_length tag"]
  by (auto simp: hooks_none_standard list_all_iff)

lemma sample_logon_fields:
  "sendable dict_hooks_none (logon_fields 1 ''S'' ''T'' ''FIXT.1.1'' 30 ''20240101-00:00:00'' True (Some 2) (Some v50sp2)
     (Some ''u'') None sample_options)"
proof -
  have "SOH \<notin> set (dec_digits n)" for n by (rule digits_no_SOH(1)) simp
  then show ?thesis
    by (simp add: sendable_def logon_fields_def header_fields_def optional_field_def advertise_fields_def sample_options_def
        msg_type_fields_def clamp_int_def render_appl_ver_id_def unpaired_none admin_tags_def)
qed



subsection \<open>From the builder to the peer's scanners\<close>

lemma header_loop_fields:
  assumes "plain hooks fs" "frame = pre @ wire_fields fs" "carry_tag carry = 0"
  shows "header_loop hooks frame (length pre) carry prev n seen h = snd (snd (fold header_step fs (n, seen, h)))"
  using assms
proof (induction fs arbitrary: pre prev n seen h)
  case Nil
  then show ?case by (simp add: header_loop.simps)
next
  case (Cons f fs)
  obtain tag v where f: "f = (tag, v)" by fastforce
  let ?ds = "dec_digits tag"
  have t: "tag < 2 ^ 16" "SOH \<notin> set v" "data_tag_for_length hooks tag = 0" "plain hooks fs" using Cons.prems(1) f by simp_all
  have b: "frame = pre @ wire_field tag v @ wire_fields fs" using Cons.prems(2) f by simp
  then have b2: "frame = pre @ ?ds @ EQ # v @ SOH # wire_fields fs" by (simp add: wire_field_def)
  have ts: "tag_scan frame (length pre) 0 = ok (length pre + length ?ds, tag)"
    using tag_scan_digits [OF b2, of 0] t(1) by (simp flip: dec_value_def)
  have eq: "frame ! (length pre + length ?ds) = EQ" "length pre + length ?ds < length frame" unfolding b2 by (simp_all add: nth_append)
  note rv = read_value_plain [OF b t(2) Cons.prems(3) t(3)]
  let ?n = "u32 (n + 1)"
  have "header_loop hooks frame (length pre) carry prev n seen h =
      header_loop hooks frame (length (pre @ wire_field tag v)) carry (u16 tag) ?n (seen \<or> tag = 34) (header_field ?n seen tag v h)"
    using eq ts rv t(1) by (subst header_loop.simps) (simp add: Let_def length_wire_field add.assoc)
  also have "\<dots> = snd (snd (fold header_step fs (header_step f (n, seen, h))))"
    using b t(4) Cons.prems(3) f by (subst Cons.IH) (simp_all add: header_step_def)
  finally show ?case by simp
qed

lemma scan_plain: "plain hooks fs \<Longrightarrow> scan_frame_header hooks (wire_fields fs) = header_of fs"
  using header_loop_fields [of hooks fs _ "[]" carry_init] by (simp add: scan_frame_header_def header_of_def carry_init_def)

text \<open>A frame that a builder commits arrives: whatever follows it in the stream, the framer cuts out
  exactly its bytes, and the header scan reads back its fields.\<close>

lemma built_frame_arrives:
  assumes "build_frame out ((8, ok bs) # fs) = (ok n, w)" "sendable hooks ((8, ok bs) # fs)" "length out < 2 ^ 32" "fs \<noteq> []"
    "data_tag_for_length hooks 9 = 0" "data_tag_for_length hooks 10 = 0" "length out \<le> max_bytes" "max_bytes < 2 ^ 63"
    and "h = scan_frame_header hooks (take n (dst w))" "gs = framed_fields bs (computed fs)"
  shows "\<exists>boff blen. parse_frame (take n (dst w) @ rest) max_bytes = Complete n boff blen" "h = header_of gs"
proof -
  note b = built_fields [OF assms(1-3,5,6)]
  have cs: "computed fs \<noteq> []" "SOH \<notin> set bs" using assms(2,4) by (simp_all add: computed_def sendable_def)
  let ?m = "message_bytes (wire_field 8 bs) (wire_fields (computed fs))"
  have m: "take n (dst w) = ?m" "length ?m = n" using b(1,2) by (simp_all add: message_as_fields)
  then have "length ?m \<le> max_bytes" using b(3) assms(7) by simp
  from parse_frame_complete [OF message_fix_frame [OF cs(2,1) refl] this assms(8)]
  show "\<exists>boff blen. parse_frame (take n (dst w) @ rest) max_bytes = Complete n boff blen" unfolding m by blast
  show "h = header_of gs" using b(1) scan_plain [OF b(4)] assms(9,10) by simp
qed

end
