(* ===== verification/Fixpp_SessionGuards.thy ===== *)
theory Fixpp_SessionGuards
  imports Fixpp_FrameHeader
begin

text \<open>
  The guards of a session: the sequence-number counters (\<^verbatim>\<open>src/session/seqnum_manager.cpp\<close>), the
  SendingTime window (\<^verbatim>\<open>src/session/sending_time.cpp\<close>) and the classification of message types
  (\<^verbatim>\<open>src/session/msgtype_classifier.hpp\<close>).

  Every counter operation first takes the asynchronous mutex; \<open>lk\<close> is whether it was granted
  (it is refused once the session is being torn down).  Sequence numbers are natural numbers
  below \<open>2 ^ 32\<close>, time points and durations the integers of their 64-bit counts.
\<close>

subsection \<open>Sequence numbers\<close>

definition seqnum_min :: nat where "seqnum_min = 1"

definition seqnum_max :: nat where "seqnum_max = 2 ^ 32 - 1"

record seqnum_manager =
  next_inbound :: nat
  next_outbound :: nat

definition seqnum_manager_new :: seqnum_manager where
  "seqnum_manager_new = \<lparr>next_inbound = seqnum_min, next_outbound = seqnum_min\<rparr>"

definition check_inbound :: "bool \<Rightarrow> nat \<Rightarrow> seqnum_manager \<Rightarrow> unit expected_t \<times> seqnum_manager" where
  "check_inbound lk seq m =
     (if \<not> lk then (unexpected session_already_closed, m)
      else if seq < next_inbound m then (unexpected session_seqnum_too_low, m)
      else if seq > next_inbound m then (unexpected session_seqnum_too_high, m)
      else if next_inbound m = seqnum_max then (unexpected store_seqnum_overflow, m)
      else (ok (), m\<lparr>next_inbound := u32 (next_inbound m + 1)\<rparr>))"

definition peek_outbound :: "seqnum_manager \<Rightarrow> nat" where
  "peek_outbound m = next_outbound m"

definition assign_outbound :: "bool \<Rightarrow> seqnum_manager \<Rightarrow> nat expected_t \<times> seqnum_manager" where
  "assign_outbound lk m =
     (if \<not> lk then (unexpected session_already_closed, m)
      else if next_outbound m = seqnum_max then (unexpected store_seqnum_overflow, m)
      else (ok (next_outbound m), m\<lparr>next_outbound := u32 (next_outbound m + 1)\<rparr>))"

definition take_back_outbound :: "nat \<Rightarrow> seqnum_manager \<Rightarrow> seqnum_manager" where
  "take_back_outbound k m = (if next_outbound m > k then m\<lparr>next_outbound := k\<rparr> else m)"

definition hydrate :: "bool \<Rightarrow> nat \<Rightarrow> nat \<Rightarrow> seqnum_manager \<Rightarrow> unit expected_t \<times> seqnum_manager" where
  "hydrate lk ni no m =
     (if \<not> lk then (unexpected session_already_closed, m)
      else (ok (), m\<lparr>next_inbound := ni, next_outbound := no\<rparr>))"

definition reset_to_one :: "bool \<Rightarrow> seqnum_manager \<Rightarrow> unit expected_t \<times> seqnum_manager" where
  "reset_to_one lk m =
     (if \<not> lk then (unexpected session_already_closed, m)
      else (ok (), m\<lparr>next_inbound := seqnum_min, next_outbound := seqnum_min\<rparr>))"

definition set_next_inbound :: "bool \<Rightarrow> nat \<Rightarrow> seqnum_manager \<Rightarrow> unit expected_t \<times> seqnum_manager" where
  "set_next_inbound lk n m =
     (if \<not> lk then (unexpected session_already_closed, m) else (ok (), m\<lparr>next_inbound := n\<rparr>))"

definition set_next_outbound :: "bool \<Rightarrow> nat \<Rightarrow> seqnum_manager \<Rightarrow> unit expected_t \<times> seqnum_manager" where
  "set_next_outbound lk n m =
     (if \<not> lk then (unexpected session_already_closed, m) else (ok (), m\<lparr>next_outbound := n\<rparr>))"

subsection \<open>SendingTime\<close>

definition u64_of :: "int \<Rightarrow> nat" where
  "u64_of x = nat (x mod 2 ^ 64)"

definition check_sending_time :: "int \<Rightarrow> int \<Rightarrow> int \<Rightarrow> unit expected_t" where
  "check_sending_time inbound_sending_time effective_now max_latency =
     (if max_latency < 0 then unexpected session_sending_time_accuracy
      else
        let hi_ns = max inbound_sending_time effective_now;
            lo_ns = min inbound_sending_time effective_now;
            delta_ns = u64_sub (u64_of hi_ns) (u64_of lo_ns);
            max_s = u64_of max_latency;
            max_ns = (if max_s > (2 ^ 64 - 1) div 10 ^ 9 then 2 ^ 64 - 1 else max_s * 10 ^ 9)
        in if delta_ns > max_ns then unexpected session_sending_time_accuracy else ok ())"

definition stamp_sending_time ::
    "int \<Rightarrow> fix_time_precision \<Rightarrow> byte list \<Rightarrow> (byte list \<times> nat) expected_t" where
  "stamp_sending_time now prec buf = utc_time_to_fix_string now prec buf"

subsection \<open>Message types\<close>

definition is_admin_msgtype :: "byte list \<Rightarrow> bool" where
  "is_admin_msgtype mtype \<longleftrightarrow> mtype = ''0'' \<or> mtype = ''1'' \<or> mtype = ''2'' \<or> mtype = ''3'' \<or> mtype = ''4'' \<or> mtype = ''5''"

subsection \<open>Runs of the counters\<close>

text \<open>Inbound numbers as they arrive and outbound numbers as they are asked for, each with the
  outcome of its lock.\<close>

datatype seq_event = Arrive bool nat | Ask bool

fun run_counters :: "seqnum_manager \<Rightarrow> seq_event list \<Rightarrow> nat list \<times> nat list \<times> seqnum_manager" where
  "run_counters m [] = ([], [], m)"
| "run_counters m (Arrive lk seq # evs) =
     (case check_inbound lk seq m of
        (Inl _, m) \<Rightarrow> run_counters m evs
      | (Inr _, m) \<Rightarrow> (case run_counters m evs of (acc, asg, m) \<Rightarrow> (seq # acc, asg, m)))"
| "run_counters m (Ask lk # evs) =
     (case assign_outbound lk m of
        (Inl _, m) \<Rightarrow> run_counters m evs
      | (Inr n, m) \<Rightarrow> (case run_counters m evs of (acc, asg, m) \<Rightarrow> (acc, n # asg, m)))"

definition counters_ok :: "seqnum_manager \<Rightarrow> bool" where
  "counters_ok m \<longleftrightarrow> next_inbound m \<le> seqnum_max \<and> next_outbound m \<le> seqnum_max"

lemma check_inbound_cases:
  assumes "counters_ok m"
  shows "check_inbound lk seq m = (r, m') \<Longrightarrow>
    counters_ok m' \<and> next_outbound m' = next_outbound m \<and>
    (case r of Inl _ \<Rightarrow> m' = m | Inr _ \<Rightarrow> seq = next_inbound m \<and> next_inbound m' = Suc (next_inbound m))"
  using assms by (auto simp: check_inbound_def counters_ok_def seqnum_max_def split: if_splits)

lemma assign_outbound_cases:
  assumes "counters_ok m"
  shows "assign_outbound lk m = (r, m') \<Longrightarrow>
    counters_ok m' \<and> next_inbound m' = next_inbound m \<and>
    (case r of Inl _ \<Rightarrow> m' = m | Inr n \<Rightarrow> n = next_outbound m \<and> next_outbound m' = Suc (next_outbound m))"
  using assms by (auto simp: assign_outbound_def counters_ok_def seqnum_max_def split: if_splits)

lemma run_counters_streams:
  assumes "counters_ok m" "run_counters m evs = (acc, asg, m')"
  shows "counters_ok m' \<and> next_inbound m \<le> next_inbound m' \<and> next_outbound m \<le> next_outbound m' \<and>
    acc = [next_inbound m..<next_inbound m'] \<and> asg = [next_outbound m..<next_outbound m']"
  using assms
proof (induction m evs arbitrary: acc asg m' rule: run_counters.induct)
  case (2 m lk seq evs)
  obtain r m1 where c: "check_inbound lk seq m = (r, m1)" by fastforce
  note cc = check_inbound_cases [OF 2(3) c]
  obtain acc1 asg1 m2 where n: "run_counters m1 evs = (acc1, asg1, m2)" by (metis prod_cases3)
  show ?case
  proof (cases r)
    case (Inl e)
    then show ?thesis using 2(1) [OF c [symmetric] Inl] cc 2(4) c by simp
  next
    case (Inr u)
    then show ?thesis using 2(2) [OF c [symmetric] Inr _ n] cc 2(4) c n by (auto simp: upt_conv_Cons)
  qed
next
  case (3 m lk evs)
  obtain r m1 where c: "assign_outbound lk m = (r, m1)" by fastforce
  note cc = assign_outbound_cases [OF 3(3) c]
  obtain acc1 asg1 m2 where n: "run_counters m1 evs = (acc1, asg1, m2)" by (metis prod_cases3)
  show ?case
  proof (cases r)
    case (Inl e)
    then show ?thesis using 3(1) [OF c [symmetric] Inl] cc 3(4) c by simp
  next
    case (Inr u)
    then show ?thesis using 3(2) [OF c [symmetric] Inr _ n] cc 3(4) c n by (auto simp: upt_conv_Cons)
  qed
qed simp

text \<open>C35. The counters neither skip nor repeat a number and never wrap. Whatever numbers arrive and
  however sends, arrivals and failed locks interleave, the accepted inbound numbers are the
  consecutive numbers from the inbound counter on, the assigned outbound numbers the
  consecutive numbers from the outbound counter on, and neither counter passes the largest
  32-bit number.\<close>

theorem seqnum_streams_consecutive:
  assumes "next_inbound m \<le> seqnum_max" "next_outbound m \<le> seqnum_max" "run_counters m evs = (acc, asg, m')"
  shows "acc = [next_inbound m..<next_inbound m'] \<and> asg = [next_outbound m..<next_outbound m'] \<and>
    next_inbound m' \<le> seqnum_max \<and> next_outbound m' \<le> seqnum_max"
  using run_counters_streams [OF _ assms(3)] assms(1,2) by (simp add: counters_ok_def)

theorem seqnum_streams_consecutive_witness:
  "fst (run_counters seqnum_manager_new [Arrive True 1, Ask True, Arrive True 3, Ask False, Arrive True 2]) = [1, 2]"
proof -
  obtain acc asg m' where r: "run_counters seqnum_manager_new [Arrive True 1, Ask True, Arrive True 3, Ask False, Arrive True 2] = (acc, asg, m')"
    by (metis prod_cases3)
  have "next_inbound m' = 3"
    using r by (simp add: seqnum_manager_new_def seqnum_min_def check_inbound_def assign_outbound_def seqnum_max_def) auto
  then show ?thesis
    using seqnum_streams_consecutive [OF _ _ r] unfolding r
    by (simp add: seqnum_manager_new_def seqnum_min_def seqnum_max_def upt_conv_Cons)
qed

text \<open>C37. The SendingTime window is exact over the whole range of the clock: a message passes if and
  only if the configured latency is not negative and the two instants are no further apart,
  with no overflow in the difference or in the conversion to nanoseconds.\<close>

theorem check_sending_time_exact:
  assumes "- (2 ^ 63) \<le> t" "t < 2 ^ 63" "- (2 ^ 63) \<le> now" "now < 2 ^ 63" "max_latency < 2 ^ 63"
  shows "check_sending_time t now max_latency =
    (if 0 \<le> max_latency \<and> \<bar>t - now\<bar> \<le> max_latency * 10 ^ 9 then ok () else unexpected session_sending_time_accuracy)"
proof (cases "max_latency < 0")
  case True
  then show ?thesis by (simp add: check_sending_time_def)
next
  case False
  have d: "int (u64_sub (u64_of (max t now)) (u64_of (min t now))) = \<bar>t - now\<bar>"
  proof -
    have "int (u64_sub (u64_of a) (u64_of b)) = (a - b) mod 2 ^ 64" for a b
    proof -
      have "int (u64_sub (u64_of a) (u64_of b)) = (a mod 2 ^ 64 + (2 ^ 64 - b mod 2 ^ 64)) mod 2 ^ 64"
        by (simp add: u64_sub_def u64_of_def of_nat_diff zmod_int add_diff_eq)
      also have "\<dots> = (a - b) mod 2 ^ 64"
        by (metis (no_types, lifting) add_diff_eq diff_add_eq mod_add_self2 mod_diff_eq)
      finally show ?thesis .
    qed
    moreover have "max t now - min t now = \<bar>t - now\<bar>" by (simp add: max_def min_def)
    ultimately show ?thesis using assms by simp
  qed
  have m: "int (u64_of max_latency) = max_latency" using False assms(5) by (simp add: u64_of_def)
  let ?s = "u64_of max_latency" and ?d = "u64_sub (u64_of (max t now)) (u64_of (min t now))"
  have ge: "int ?d < 2 ^ 64" unfolding d using assms by simp
  show ?thesis
  proof (cases "?s > (2 ^ 64 - 1) div 10 ^ 9")
    case True
    then have "2 ^ 64 \<le> max_latency * 10 ^ 9" using m by simp
    then have "\<bar>t - now\<bar> \<le> max_latency * 10 ^ 9" using ge unfolding d by linarith
    then show ?thesis using True False ge by (simp add: check_sending_time_def Let_def)
  next
    case le: False
    have "?d > ?s * 10 ^ 9 \<longleftrightarrow> int ?d > int ?s * 10 ^ 9"
      by (metis of_nat_less_iff of_nat_mult of_nat_numeral of_nat_power)
    then show ?thesis using le False unfolding d m by (simp add: check_sending_time_def Let_def)
  qed
qed

theorem check_sending_time_exact_witness:
  "check_sending_time 1700000000000000000 1700000120000000000 120 = ok () \<and>
   check_sending_time (- (2 ^ 63)) (2 ^ 63 - 1) 120 = unexpected session_sending_time_accuracy"
  using check_sending_time_exact [of 1700000000000000000 1700000120000000000 120]
    check_sending_time_exact [of "- (2 ^ 63)" "2 ^ 63 - 1" 120] by simp

end
