(* ===== verification/Fixpp_MessageStore.thy ===== *)
theory Fixpp_MessageStore
  imports Fixpp_SessionGuards
begin

text \<open>
  The message store as its clients see it (\<^verbatim>\<open>include/fixpp/session/message_store.hpp\<close>,
  \<^verbatim>\<open>retrieve_visitor.hpp\<close>, \<^verbatim>\<open>direction.hpp\<close>): the directions, the visitor of a retrieval, the
  default body of \<^verbatim>\<open>reset_to\<close>, and the contract of a store as a locale.

  A coroutine that waits can be overtaken by others.  A store operation takes its mutex and
  holds it to its end, so it is one step; a retrieval releases the mutex before it walks, and
  the operations that other coroutines complete while the visitor is suspended are part of
  what the visitor answers (\<open>on_frame\<close>).

  A log is a list of numbered frames, oldest first.
\<close>

subsection \<open>Directions and visitors\<close>

datatype direction_t = inbound | outbound

datatype visit_result = cont | stop | abort

datatype visit_reply = Thrown | Refused error | Visited visit_result

text \<open>The state \<open>'v\<close> of a visitor, what it answers to a frame, the operations \<open>'op\<close> that
  completed on the store before it answered, and the error it aborts with.\<close>

record ('v, 'op) retrieve_visitor =
  on_frame :: "nat \<Rightarrow> byte list \<Rightarrow> 'v \<Rightarrow> visit_reply \<times> 'op list \<times> 'v"
  abort_error :: "'v \<Rightarrow> error"

text \<open>What a walk does with an answer: \<open>None\<close> is to go on.\<close>

definition visit_verdict :: "('v, 'op) retrieve_visitor \<Rightarrow> visit_reply \<Rightarrow> 'v \<Rightarrow> unit expected_t option" where
  "visit_verdict visitor reply v =
     (case reply of
        Thrown \<Rightarrow> Some (unexpected store_visitor_aborted)
      | Refused e \<Rightarrow> Some (unexpected e)
      | Visited r \<Rightarrow> (case r of cont \<Rightarrow> None | stop \<Rightarrow> Some (ok ()) | abort \<Rightarrow> Some (unexpected (abort_error visitor v))))"

text \<open>The walk of a retrieval over the entries it copied under the mutex: before it reads an entry it
  compares the epoch of the store with the one it started in.  \<open>view\<close> reads an entry (\<open>None\<close> is a
  read that failed), \<open>run\<close> is the effect of the operations that completed while the visitor was
  suspended.  The result carries the frames delivered, and \<open>None\<close> when the walk reached its end.\<close>

fun visit_walk ::
    "('v, 'op) retrieve_visitor \<Rightarrow> ('s \<Rightarrow> nat) \<Rightarrow> ('op list \<Rightarrow> 's \<Rightarrow> 's) \<Rightarrow> ('e \<Rightarrow> 's \<Rightarrow> byte list option \<times> 's) \<Rightarrow> ('e \<Rightarrow> nat) \<Rightarrow>
     nat \<Rightarrow> 'e list \<Rightarrow> 'v \<Rightarrow> 's \<Rightarrow> (nat \<times> byte list) list \<Rightarrow> unit expected_t option \<times> (nat \<times> byte list) list \<times> 'v \<times> 's" where
  "visit_walk visitor gen run view seq_of g0 [] v s seen = (None, seen, v, s)"
| "visit_walk visitor gen run view seq_of g0 (e # es) v s seen =
     (if gen s \<noteq> g0 then (Some (unexpected store_io_failure), seen, v, s)
      else case view e s of
        (None, s) \<Rightarrow> (Some (unexpected store_io_failure), seen, v, s)
      | (Some frame_view, s) \<Rightarrow>
          (case on_frame visitor (seq_of e) frame_view v of (reply, ops, v) \<Rightarrow>
             let s = run ops s; seen = seen @ [(seq_of e, frame_view)] in
             case visit_verdict visitor reply v of
               Some r \<Rightarrow> (Some r, seen, v, s)
             | None \<Rightarrow> visit_walk visitor gen run view seq_of g0 es v s seen))"

text \<open>The visitor ended the walk at the last frame it was shown.\<close>

definition ended_by :: "('v, 'op) retrieve_visitor \<Rightarrow> (nat \<times> byte list) list \<Rightarrow> unit expected_t \<Rightarrow> 'v \<Rightarrow> bool" where
  "ended_by visitor seen r v' \<longleftrightarrow> seen \<noteq> [] \<and>
     (\<exists>reply ops v. on_frame visitor (fst (last seen)) (snd (last seen)) v = (reply, ops, v') \<and> visit_verdict visitor reply v' = Some r)"

subsection \<open>The default reset\<close>

definition reset_to_targets_valid :: "nat \<Rightarrow> nat \<Rightarrow> bool" where
  "reset_to_targets_valid next_in next_out \<longleftrightarrow>
     (next_in = seqnum_min \<or> next_in = seqnum_min + 1) \<and> (next_out = seqnum_min \<or> next_out = seqnum_min + 1)"

text \<open>The body a store inherits, over its own \<^verbatim>\<open>reset\<close> and \<^verbatim>\<open>next_seqnum\<close>; each call has its own
  environment (lock and input/output outcomes).\<close>

definition default_reset_to ::
    "('io \<Rightarrow> 's \<Rightarrow> unit expected_t \<times> 's) \<Rightarrow> ('io \<Rightarrow> direction_t \<Rightarrow> bool \<Rightarrow> 's \<Rightarrow> nat expected_t \<times> 's) \<Rightarrow>
     'io \<Rightarrow> 'io \<Rightarrow> 'io \<Rightarrow> nat \<Rightarrow> nat \<Rightarrow> 's \<Rightarrow> unit expected_t \<times> 's" where
  "default_reset_to reset_op next_op io1 io2 io3 next_in next_out s =
     (if \<not> reset_to_targets_valid next_in next_out then (unexpected session_invalid_argument, s)
      else case reset_op io1 s of
        (Inl e, s) \<Rightarrow> (unexpected e, s)
      | (Inr _, s) \<Rightarrow>
          (case (if next_in = seqnum_min + 1 then next_op io2 inbound True s else (ok 0, s)) of
             (Inl e, s) \<Rightarrow> (unexpected e, s)
           | (Inr _, s) \<Rightarrow>
               (case (if next_out = seqnum_min + 1 then next_op io3 outbound True s else (ok 0, s)) of
                  (Inl e, s) \<Rightarrow> (unexpected e, s)
                | (Inr _, s) \<Rightarrow> (ok (), s))))"

subsection \<open>Logs\<close>

text \<open>The last record of a number wins.\<close>

definition log_put :: "nat \<Rightarrow> 'f \<Rightarrow> (nat \<times> 'f) list \<Rightarrow> (nat \<times> 'f) list" where
  "log_put seq frame l = (if l \<noteq> [] \<and> fst (last l) = seq then butlast l @ [(seq, frame)] else l @ [(seq, frame)])"

text \<open>The frames numbered \<open>s\<close>, \<open>s + 1\<close>, ..., as long as the log holds them, up to \<open>count\<close>; the flag
  is whether one is missing.  The number \<open>s\<close> is looked up by its distance from the first.\<close>

fun log_range :: "(nat \<times> 'f) list \<Rightarrow> nat \<Rightarrow> nat \<Rightarrow> (nat \<times> 'f) list \<times> bool" where
  "log_range l s 0 = ([], False)"
| "log_range l s (Suc count) =
     (if l = [] \<or> s < fst (hd l) then ([], True)
      else let i = s - fst (hd l) in
        if i \<ge> length l \<or> fst (l ! i) \<noteq> s then ([], True)
        else case log_range l (s + 1) count of (frames, gap) \<Rightarrow> (l ! i # frames, gap))"

text \<open>The last number a retrieval asks for.\<close>

definition range_end :: "nat \<Rightarrow> nat \<Rightarrow> nat" where
  "range_end cur_next fin = (if fin = 0 then (if cur_next = seqnum_min then 0 else u32_sub cur_next 1) else fin)"

subsection \<open>The contract\<close>

text \<open>What every store promises a client that never asks it to store the largest number (the counters
  of the session refuse to assign it, \<open>assign_outbound\<close> and \<open>check_inbound\<close>).  A store that has lost
  its file is no longer usable and refuses every operation.\<close>

locale message_store =
  fixes inv :: "'s \<Rightarrow> bool"
    and usable :: "'s \<Rightarrow> bool"
    and log_of :: "'s \<Rightarrow> direction_t \<Rightarrow> (nat \<times> byte list) list"
    and next_of :: "'s \<Rightarrow> direction_t \<Rightarrow> nat"
    and store_op :: "'io \<Rightarrow> nat \<Rightarrow> byte list \<Rightarrow> direction_t \<Rightarrow> 's \<Rightarrow> unit expected_t \<times> 's"
    and next_op :: "'io \<Rightarrow> direction_t \<Rightarrow> bool \<Rightarrow> 's \<Rightarrow> nat expected_t \<times> 's"
    and reset_op :: "'io \<Rightarrow> 's \<Rightarrow> unit expected_t \<times> 's"
  assumes store_inv: "inv s \<Longrightarrow> seq \<noteq> seqnum_max \<Longrightarrow> inv (snd (store_op io seq frame dir s))"
    and next_inv: "inv s \<Longrightarrow> inv (snd (next_op io dir inc s))"
    and reset_inv: "inv s \<Longrightarrow> inv (snd (reset_op io s))"
    and unusable: "\<not> usable s \<Longrightarrow> store_op io seq frame dir s = (unexpected store_io_failure, s)"
      "\<not> usable s \<Longrightarrow> next_op io dir inc s = (unexpected store_io_failure, s)"
      "\<not> usable s \<Longrightarrow> reset_op io s = (unexpected store_io_failure, s)"
    and store_ok: "inv s \<Longrightarrow> seq \<noteq> seqnum_max \<Longrightarrow> store_op io seq frame dir s = (ok u, s') \<Longrightarrow>
      usable s' \<and> seq = next_of s dir \<and> log_of s' = (log_of s)(dir := log_put seq frame (log_of s dir)) \<and>
      next_of s' = (next_of s)(dir := seq + 1)"
    and store_fails: "inv s \<Longrightarrow> store_op io seq frame dir s = (unexpected e, s') \<Longrightarrow> usable s' \<Longrightarrow>
      log_of s' = log_of s \<and> next_of s' = next_of s"
    and next_ok: "inv s \<Longrightarrow> next_op io dir inc s = (ok n, s') \<Longrightarrow>
      usable s' \<and> n = next_of s dir \<and> log_of s' = log_of s \<and>
      next_of s' = (if inc then (next_of s)(dir := n + 1) else next_of s) \<and> (inc \<longrightarrow> n \<noteq> seqnum_max)"
    and next_fails: "inv s \<Longrightarrow> next_op io dir inc s = (unexpected e, s') \<Longrightarrow> usable s' \<Longrightarrow> log_of s' = log_of s"
    and reset_ok: "inv s \<Longrightarrow> reset_op io s = (ok u, s') \<Longrightarrow>
      usable s' \<and> log_of s' = (\<lambda>_. []) \<and> next_of s' = (\<lambda>_. seqnum_min)"
    and reset_fails: "inv s \<Longrightarrow> reset_op io s = (unexpected e, s') \<Longrightarrow> usable s' \<Longrightarrow>
      log_of s' = log_of s \<and> next_of s' = next_of s"
begin

text \<open>A frame that was stored is in the log under its number.\<close>

lemma stored_last:
  assumes "inv s" "seq \<noteq> seqnum_max" "store_op io seq frame dir s = (ok u, s')"
  shows "usable s'" "log_of s' dir \<noteq> []" "last (log_of s' dir) = (seq, frame)" "d \<noteq> dir \<Longrightarrow> log_of s' d = log_of s d"
  using store_ok [OF assms] by (auto simp: log_put_def)

text \<open>A successful default reset leaves both directions empty at the targets.\<close>

lemma default_reset_to_targets:
  assumes "inv s" "default_reset_to reset_op next_op io1 io2 io3 ni no s = (ok u, s')"
  shows "inv s' \<and> log_of s' = (\<lambda>_. []) \<and> next_of s' inbound = ni \<and> next_of s' outbound = no"
proof -
  obtain a s1 where 1: "reset_op io1 s = (ok a, s1)" and v: "reset_to_targets_valid ni no"
    using assms(2) by (auto simp: default_reset_to_def split: prod.splits sum.splits if_splits)
  have r: "log_of s1 = (\<lambda>_. [])" "next_of s1 = (\<lambda>_. seqnum_min)" "inv s1"
    using reset_ok [OF assms(1) 1] reset_inv [OF assms(1), of io1] 1 by auto
  obtain b s2 where 2: "(if ni = seqnum_min + 1 then next_op io2 inbound True s1 else (ok 0, s1)) = (ok b, s2)"
    using assms(2) 1 v by (auto simp: default_reset_to_def split: prod.splits sum.splits if_splits)
  have r2: "log_of s2 = (\<lambda>_. [])" "inv s2" "next_of s2 inbound = ni" "next_of s2 outbound = seqnum_min"
    using 2 r v next_ok [OF r(3), of io2 inbound True b s2] next_inv [OF r(3), of io2 inbound True]
    by (auto simp: reset_to_targets_valid_def split: if_splits)
  obtain c where 3: "(if no = seqnum_min + 1 then next_op io3 outbound True s2 else (ok 0, s2)) = (ok c, s')"
    using assms(2) 1 2 v by (auto simp: default_reset_to_def split: prod.splits sum.splits if_splits)
  show ?thesis
    using 3 r2 v next_ok [OF r2(2), of io3 outbound True c s'] next_inv [OF r2(2), of io3 outbound True]
    by (auto simp: reset_to_targets_valid_def split: if_splits)
qed

end

subsection \<open>Walking a snapshot\<close>

text \<open>What a walk needs of its store: an operation of another coroutine either keeps what the entries
  of the snapshot stand for, or starts a new epoch.\<close>

locale snapshot_walk =
  fixes inv :: "'s \<Rightarrow> bool"
    and gen :: "'s \<Rightarrow> nat"
    and apply_op :: "'op \<Rightarrow> 's \<Rightarrow> 's"
    and keeps :: "'s \<Rightarrow> 's \<Rightarrow> bool"
    and held :: "'s \<Rightarrow> 'e \<Rightarrow> bool"
    and view :: "'e \<Rightarrow> 's \<Rightarrow> byte list option \<times> 's"
    and seq_of :: "'e \<Rightarrow> nat"
    and shown :: "'s \<Rightarrow> 'e \<Rightarrow> byte list"
  assumes apply_inv: "inv s \<Longrightarrow> inv (apply_op op s)"
    and apply_epoch: "inv s \<Longrightarrow> keeps s (apply_op op s) \<and> gen (apply_op op s) = gen s \<or> gen (apply_op op s) = u64 (gen s + 1)"
    and keeps_refl: "keeps s s"
    and keeps_trans: "keeps s s' \<Longrightarrow> keeps s' s'' \<Longrightarrow> keeps s s''"
    and view_keeps: "inv s \<Longrightarrow> inv (snd (view e s)) \<and> keeps s (snd (view e s)) \<and> gen (snd (view e s)) = gen s"
    and view_shown: "inv s0 \<Longrightarrow> keeps s0 s \<Longrightarrow> held s0 e \<Longrightarrow> fst (view e s) = Some frame \<Longrightarrow> frame = shown s0 e"
begin

text \<open>Where a walk that started at \<open>s0\<close> stands after at most \<open>k\<close> operations of others.\<close>

definition walk_at :: "'s \<Rightarrow> nat \<Rightarrow> 's \<Rightarrow> bool" where
  "walk_at s0 k s \<longleftrightarrow> inv s \<and>
     (keeps s0 s \<and> gen s = gen s0 \<or> (\<exists>i. 0 < i \<and> i \<le> k \<and> gen s = u64 (gen s0 + i)))"

lemma walk_at_apply:
  assumes w: "walk_at s0 k s"
  shows "walk_at s0 (Suc k) (apply_op op s)"
proof -
  have inv: "inv s" using w by (simp add: walk_at_def)
  note step = apply_epoch [OF inv, of op]
  from w consider (same) "keeps s0 s" "gen s = gen s0"
    | (reset) i where "0 < i" "i \<le> k" "gen s = u64 (gen s0 + i)"
    by (auto simp: walk_at_def)
  then show ?thesis
  proof cases
    case same
    then have "keeps s0 (apply_op op s) \<and> gen (apply_op op s) = gen s0 \<or> gen (apply_op op s) = u64 (gen s0 + 1)"
      using step keeps_trans [OF same(1)] by metis
    then show ?thesis using apply_inv [OF inv] unfolding walk_at_def by fastforce
  next
    case reset
    have "u64 (u64 (gen s0 + i) + 1) = u64 (gen s0 + Suc i)" by (simp add: u64_def mod_Suc_eq)
    then have "gen (apply_op op s) = u64 (gen s0 + i) \<or> gen (apply_op op s) = u64 (gen s0 + Suc i)"
      using step reset(3) by metis
    then have "\<exists>j. 0 < j \<and> j \<le> Suc k \<and> gen (apply_op op s) = u64 (gen s0 + j)"
      using reset(1,2) by (metis Suc_le_mono le_SucI zero_less_Suc)
    then show ?thesis using apply_inv [OF inv] by (simp add: walk_at_def)
  qed
qed

lemma walk_at_run: "walk_at s0 k s \<Longrightarrow> walk_at s0 (k + length ops) (fold apply_op ops s)"
proof (induction ops arbitrary: k s)
  case (Cons op ops)
  from Cons.IH [OF walk_at_apply [OF Cons.prems, of op]] show ?case by simp
qed simp

lemma walk_at_view:
  assumes "walk_at s0 k s"
  shows "walk_at s0 k (snd (view e s))"
  using assms view_keeps [of s e] keeps_trans [of s0 s "snd (view e s)"] by (auto simp: walk_at_def)

lemma walk_at_epoch:
  assumes "walk_at s0 k s" "k < 2 ^ 64" "gen s = gen s0"
  shows "keeps s0 s"
proof (rule ccontr)
  assume "\<not> keeps s0 s"
  then obtain i where i: "0 < i" "i \<le> k" "gen s = u64 (gen s0 + i)" using assms(1) by (auto simp: walk_at_def)
  then have "(gen s0 + i) mod 2 ^ 64 = gen s0" using assms(3) by (simp add: u64_def)
  moreover from this have "gen s0 < 2 ^ 64" by (metis mod_less_divisor zero_less_numeral zero_less_power)
  ultimately have "(gen s0 + i) mod 2 ^ 64 = gen s0 mod 2 ^ 64" by simp
  then show False using i(1,2) assms(2) mod_eq_dvd_iff_nat [of "gen s0" "gen s0 + i" "2 ^ 64"] by (auto dest: dvd_imp_le)
qed

text \<open>A walk shows what the entries stood for when it started.\<close>

lemma walk_frames:
  assumes "inv s0" "walk_at s0 k s" "k + length es * b < 2 ^ 64" "\<forall>q f v. length (fst (snd (on_frame visitor q f v))) \<le> b"
    and "\<forall>e \<in> set es. held s0 e"
    and "visit_walk visitor gen (fold apply_op) view seq_of (gen s0) es v s seen = (res, seen', v', s')"
  shows "\<exists>n. seen' = seen @ take n (map (\<lambda>e. (seq_of e, shown s0 e)) es) \<and> inv s' \<and>
    (case res of None \<Rightarrow> n \<ge> length es
     | Some r \<Rightarrow> ended_by visitor seen' r v' \<or>
         r = unexpected store_io_failure \<and> (gen s' \<noteq> gen s0 \<or> (\<exists>e \<in> set es. \<exists>s. keeps s0 s \<and> view e s = (None, s'))))"
  using assms(2-)
proof (induction es arbitrary: k v s seen)
  case Nil
  then show ?case by (auto simp: walk_at_def)
next
  case (Cons e es)
  obtain o1 s1 where vw: "view e s = (o1, s1)" by fastforce
  have w1: "walk_at s0 k s1" using walk_at_view [OF Cons.prems(1), of e] vw by simp
  show ?case
  proof (cases "gen s \<noteq> gen s0 \<or> o1 = None")
    case True
    then have r: "res = Some (unexpected store_io_failure)" "seen' = seen" "s' = s \<and> gen s \<noteq> gen s0 \<or> s' = s1 \<and> o1 = None \<and> gen s = gen s0"
      using Cons.prems(5) vw by (auto split: if_splits)
    moreover from r(3) have "inv s'" using Cons.prems(1) w1 by (auto simp: walk_at_def)
    moreover have "gen s' \<noteq> gen s0 \<or> keeps s0 s \<and> view e s = (None, s')"
      using r(3) vw walk_at_epoch [OF Cons.prems(1)] Cons.prems(2) by auto
    ultimately show ?thesis by (intro exI [of _ 0]) auto
  next
    case False
    have "keeps s0 s" using walk_at_epoch [OF Cons.prems(1)] Cons.prems(2) False by simp
    then have o1: "o1 = Some (shown s0 e)" using view_shown [OF assms(1), of s e] Cons.prems(4) vw False by fastforce
    let ?f = "(seq_of e, shown s0 e)"
    obtain reply ops v1 where o: "on_frame visitor (seq_of e) (shown s0 e) v = (reply, ops, v1)"
      by (cases "on_frame visitor (seq_of e) (shown s0 e) v") auto
    have w: "walk_at s0 (k + length ops) (fold apply_op ops s1)" by (rule walk_at_run [OF w1])
    have len: "length ops \<le> b" using Cons.prems(3) o by (metis fst_conv snd_conv)
    have run: "visit_walk visitor gen (fold apply_op) view seq_of (gen s0) (e # es) v s seen =
        (case visit_verdict visitor reply v1 of
           Some r \<Rightarrow> (Some r, seen @ [?f], v1, fold apply_op ops s1)
         | None \<Rightarrow> visit_walk visitor gen (fold apply_op) view seq_of (gen s0) es v1 (fold apply_op ops s1) (seen @ [?f]))"
      using False vw o1 o by (simp add: Let_def)
    show ?thesis
    proof (cases "visit_verdict visitor reply v1")
      case (Some r)
      then have "seen' = seen @ [?f]" "res = Some r" "v' = v1" "s' = fold apply_op ops s1" using Cons.prems(5) unfolding run by auto
      moreover from this have "ended_by visitor seen' r v'" unfolding ended_by_def using o Some by auto
      ultimately show ?thesis using w by (intro exI [of _ 1]) (simp add: walk_at_def)
    next
      case None
      have "visit_walk visitor gen (fold apply_op) view seq_of (gen s0) es v1 (fold apply_op ops s1) (seen @ [?f]) = (res, seen', v', s')"
        using Cons.prems(5) None unfolding run by simp
      from Cons.IH [OF w _ Cons.prems(3) _ this] Cons.prems(2,4) len obtain n where
        "seen' = (seen @ [?f]) @ take n (map (\<lambda>e. (seq_of e, shown s0 e)) es)" "inv s'"
        "case res of None \<Rightarrow> n \<ge> length es
         | Some r \<Rightarrow> ended_by visitor seen' r v' \<or>
             r = unexpected store_io_failure \<and> (gen s' \<noteq> gen s0 \<or> (\<exists>e \<in> set es. \<exists>s. keeps s0 s \<and> view e s = (None, s')))"
        by auto
      then show ?thesis by (intro exI [of _ "Suc n"]) (auto split: option.splits)
    qed
  qed
qed

end

lemma length_log_range: "length (fst (log_range l s n)) \<le> n"
  by (induction l s n rule: log_range.induct) (auto simp: Let_def split: prod.splits)

text \<open>Over a log without holes, a range is the frames numbered in it.\<close>

definition contiguous :: "(nat \<times> 'f) list \<Rightarrow> bool" where
  "contiguous l \<longleftrightarrow> (\<forall>i < length l. fst (l ! i) = fst (hd l) + i)"

lemma log_range_contiguous:
  assumes "contiguous l" "l \<noteq> []" "fst (hd l) \<le> s"
  shows "log_range l s n = (take n (drop (s - fst (hd l)) l), fst (hd l) + length l < s + n \<and> n \<noteq> 0)"
  using assms(3)
proof (induction n arbitrary: s)
  case (Suc n)
  show ?case
  proof (cases "s - fst (hd l) < length l")
    case True
    then have "fst (l ! (s - fst (hd l))) = s" using assms(1) Suc.prems by (auto simp: contiguous_def)
    moreover have "drop (s - fst (hd l)) l = l ! (s - fst (hd l)) # drop (Suc s - fst (hd l)) l"
      using True Suc.prems by (metis Cons_nth_drop_Suc Suc_diff_le)
    ultimately show ?thesis using Suc.IH [of "s + 1"] Suc.prems assms(2) True by (auto simp: Let_def)
  next
    case False
    then show ?thesis using Suc.prems assms(2) by (simp add: Let_def)
  qed
qed simp

end
