(* ===== verification/Fixpp_MemoryStore.thy ===== *)
theory Fixpp_MemoryStore
  imports Fixpp_MessageStore
begin

text \<open>
  The volatile store (\<^verbatim>\<open>include/fixpp/session/memory_store.hpp\<close>) and its factory
  (\<^verbatim>\<open>memory_store_factory.hpp\<close>).

  Every operation takes the writer mutex; \<open>lk\<close> is whether it is granted.  The bounded policy
  keeps its frames in one slab of fixed slots, the unbounded policy in a growing byte vector.
  Allocation failure and the reservation of vectors are not modelled; sizes are
  \<^verbatim>\<open>std::size_t\<close>, with the wrap-around of the slab's size written out.
\<close>

datatype capacity_policy = bounded | unbounded

record mem_config =
  mem_policy :: capacity_policy
  inbound_capacity :: nat
  outbound_capacity :: nat
  mem_max_frame_bytes :: nat

record entry =
  en_seq :: nat
  en_bytes_len :: nat
  en_slab_offset :: nat

record memory_store =
  mem_cfg :: mem_config
  slab :: "byte list"
  unbounded_slab :: "byte list"
  inbound_entries :: "entry list"
  outbound_entries :: "entry list"
  retrieve_scratch :: "byte list"
  mem_next_inbound :: nat
  mem_next_outbound :: nat
  generation :: nat

text \<open>The size of the bounded slab, and a store over a slab whose bytes are whatever the
  allocator returned.\<close>

definition slab_total_bytes :: "mem_config \<Rightarrow> nat" where
  "slab_total_bytes cfg =
     (if mem_policy cfg = bounded then u64 (u64 (inbound_capacity cfg + outbound_capacity cfg) * mem_max_frame_bytes cfg) else 0)"

definition memory_store_new :: "mem_config \<Rightarrow> byte list \<Rightarrow> memory_store" where
  "memory_store_new cfg raw =
     \<lparr>mem_cfg = cfg, slab = take (slab_total_bytes cfg) raw, unbounded_slab = [], inbound_entries = [], outbound_entries = [],
      retrieve_scratch = [], mem_next_inbound = seqnum_min, mem_next_outbound = seqnum_min, generation = 0\<rparr>"

definition slab_offset_for :: "mem_config \<Rightarrow> nat \<Rightarrow> direction_t \<Rightarrow> nat" where
  "slab_offset_for cfg local_idx dir =
     (let global_slot = (if dir = inbound then local_idx else inbound_capacity cfg + local_idx)
      in global_slot * mem_max_frame_bytes cfg)"

definition entries_for :: "memory_store \<Rightarrow> direction_t \<Rightarrow> entry list" where
  "entries_for m dir = (if dir = inbound then inbound_entries m else outbound_entries m)"

definition next_seq_for :: "memory_store \<Rightarrow> direction_t \<Rightarrow> nat" where
  "next_seq_for m dir = (if dir = inbound then mem_next_inbound m else mem_next_outbound m)"

definition push_entry :: "direction_t \<Rightarrow> entry \<Rightarrow> memory_store \<Rightarrow> memory_store" where
  "push_entry dir e m =
     (if dir = inbound then m\<lparr>inbound_entries := inbound_entries m @ [e]\<rparr>
      else m\<lparr>outbound_entries := outbound_entries m @ [e]\<rparr>)"

definition advance_next_seq_for :: "direction_t \<Rightarrow> memory_store \<Rightarrow> memory_store" where
  "advance_next_seq_for dir m =
     (if dir = inbound then m\<lparr>mem_next_inbound := u32 (mem_next_inbound m + 1)\<rparr>
      else m\<lparr>mem_next_outbound := u32 (mem_next_outbound m + 1)\<rparr>)"

definition mem_store :: "bool \<Rightarrow> nat \<Rightarrow> byte list \<Rightarrow> direction_t \<Rightarrow> memory_store \<Rightarrow> unit expected_t \<times> memory_store" where
  "mem_store lk seq frame dir m =
     (if \<not> lk then (unexpected store_cancelled, m)
      else
        let entries = entries_for m dir; cfg = mem_cfg m;
            cap = (if dir = inbound then inbound_capacity cfg else outbound_capacity cfg) in
        if seq \<noteq> next_seq_for m dir then (unexpected store_seqnum_out_of_order, m)
        else if mem_policy cfg = bounded \<and> length entries \<ge> cap then (unexpected store_capacity_exhausted, m)
        else if length frame > mem_max_frame_bytes cfg then (unexpected store_io_failure, m)
        else if mem_policy cfg = bounded then
          let off = slab_offset_for cfg (length entries) dir;
              e = \<lparr>en_seq = seq, en_bytes_len = length frame, en_slab_offset = off\<rparr>;
              m = push_entry dir e (m\<lparr>slab := overwrite (slab m) off frame\<rparr>)
          in (ok (), advance_next_seq_for dir m)
        else
          let off = length (unbounded_slab m);
              e = \<lparr>en_seq = seq, en_bytes_len = length frame, en_slab_offset = off\<rparr>;
              m = push_entry dir e (m\<lparr>unbounded_slab := unbounded_slab m @ frame\<rparr>)
          in (ok (), advance_next_seq_for dir m))"

definition mem_next_seqnum :: "bool \<Rightarrow> direction_t \<Rightarrow> bool \<Rightarrow> memory_store \<Rightarrow> nat expected_t \<times> memory_store" where
  "mem_next_seqnum lk dir increment m =
     (if \<not> lk then (unexpected store_cancelled, m)
      else
        let current = next_seq_for m dir in
        if increment then
          if current = seqnum_max then (unexpected store_seqnum_overflow, m)
          else (ok current, advance_next_seq_for dir m)
        else (ok current, m))"

definition mem_clear :: "nat \<Rightarrow> nat \<Rightarrow> memory_store \<Rightarrow> memory_store" where
  "mem_clear next_in next_out m =
     m\<lparr>inbound_entries := [], outbound_entries := [],
       unbounded_slab := (if mem_policy (mem_cfg m) = unbounded then [] else unbounded_slab m),
       mem_next_inbound := next_in, mem_next_outbound := next_out, generation := u64 (generation m + 1)\<rparr>"

definition mem_reset :: "bool \<Rightarrow> memory_store \<Rightarrow> unit expected_t \<times> memory_store" where
  "mem_reset lk m =
     (if \<not> lk then (unexpected store_cancelled, m) else (ok (), mem_clear seqnum_min seqnum_min m))"

definition mem_reset_to :: "bool \<Rightarrow> nat \<Rightarrow> nat \<Rightarrow> memory_store \<Rightarrow> unit expected_t \<times> memory_store" where
  "mem_reset_to lk next_in next_out m =
     (if \<not> reset_to_targets_valid next_in next_out then (unexpected session_invalid_argument, m)
      else if \<not> lk then (unexpected store_cancelled, m)
      else (ok (), mem_clear next_in next_out m))"

datatype mem_op =
    MemStore bool nat "byte list" direction_t
  | MemNext bool direction_t bool
  | MemReset bool
  | MemResetTo bool nat nat

fun mem_apply :: "mem_op \<Rightarrow> memory_store \<Rightarrow> memory_store" where
  "mem_apply (MemStore lk seq frame dir) m = snd (mem_store lk seq frame dir m)"
| "mem_apply (MemNext lk dir increment) m = snd (mem_next_seqnum lk dir increment m)"
| "mem_apply (MemReset lk) m = snd (mem_reset lk m)"
| "mem_apply (MemResetTo lk next_in next_out) m = snd (mem_reset_to lk next_in next_out m)"

abbreviation mem_run :: "mem_op list \<Rightarrow> memory_store \<Rightarrow> memory_store" where
  "mem_run \<equiv> fold mem_apply"

subsection \<open>Retrieval\<close>

text \<open>The copy of the range under the mutex: entry descriptors, the bytes of an unbounded store,
  and whether a number was missing.  The counter of the loop is a 32-bit register.\<close>

partial_function (option) mem_snapshot ::
    "memory_store \<Rightarrow> direction_t \<Rightarrow> nat \<Rightarrow> nat \<Rightarrow> entry list \<Rightarrow> byte list \<Rightarrow> (entry list \<times> byte list \<times> bool) option" where
  "mem_snapshot m dir s tail_end snapshots copy =
     (let entries = entries_for m dir in
      if s \<le> tail_end then
        if entries = [] \<or> s < en_seq (hd entries) then Some (snapshots, copy, True)
        else
          let idx = s - en_seq (hd entries) in
          if idx \<ge> length entries \<or> en_seq (entries ! idx) \<noteq> s then Some (snapshots, copy, True)
          else
            let e = entries ! idx in
            if mem_policy (mem_cfg m) = unbounded then
              mem_snapshot m dir (u32 (s + 1)) tail_end (snapshots @ [e\<lparr>en_slab_offset := length copy\<rparr>])
                (copy @ sub_span (unbounded_slab m) (en_slab_offset e) (en_bytes_len e))
            else mem_snapshot m dir (u32 (s + 1)) tail_end (snapshots @ [e]) copy
      else Some (snapshots, copy, False))"

text \<open>A bounded store reads the slab into its scratch buffer, an unbounded one the copy.\<close>

definition mem_view :: "byte list \<Rightarrow> entry \<Rightarrow> memory_store \<Rightarrow> byte list option \<times> memory_store" where
  "mem_view copy e m =
     (if mem_policy (mem_cfg m) = bounded then
        let m = m\<lparr>retrieve_scratch := sub_span (slab m) (en_slab_offset e) (en_bytes_len e)\<rparr> in (Some (retrieve_scratch m), m)
      else (Some (sub_span copy (en_slab_offset e) (en_bytes_len e)), m))"

definition mem_retrieve ::
    "('v, mem_op) retrieve_visitor \<Rightarrow> bool \<Rightarrow> nat \<Rightarrow> nat \<Rightarrow> direction_t \<Rightarrow> 'v \<Rightarrow> memory_store \<Rightarrow>
     (unit expected_t \<times> (nat \<times> byte list) list \<times> 'v \<times> memory_store) option" where
  "mem_retrieve visitor lk first fin dir v m =
     (if first = 0 then Some (unexpected store_seqnum_invalid, [], v, m)
      else if fin \<noteq> 0 \<and> fin < first then Some (unexpected store_invalid_range, [], v, m)
      else if \<not> lk then Some (unexpected store_cancelled, [], v, m)
      else
        let g0 = generation m; tail_end = range_end (next_seq_for m dir) fin in
        if first > tail_end \<or> (tail_end < seqnum_min \<and> fin = 0) then Some (ok (), [], v, m)
        else case mem_snapshot m dir first tail_end [] [] of
          None \<Rightarrow> None
        | Some (snapshots, copy, gap_hit) \<Rightarrow>
            (case visit_walk visitor generation mem_run (mem_view copy) en_seq g0 snapshots v m [] of
               (Some r, seen, v, m) \<Rightarrow> Some (r, seen, v, m)
             | (None, seen, v, m) \<Rightarrow>
                 Some (if gap_hit then unexpected store_seqnum_gap else ok (), seen, v, m)))"

subsection \<open>The factory\<close>

text \<open>The factory first refuses a policy value that a cast brought from outside the enumeration; the
  datatype has no such value.  Its memory resource and executor arguments do not reach the state
  that is modelled.\<close>

definition mem_factory_check :: "mem_config \<Rightarrow> nat \<Rightarrow> unit expected_t" where
  "mem_factory_check cfg max_store_memory_bytes =
     (if mem_policy cfg = bounded then
        let ic = inbound_capacity cfg; oc = outbound_capacity cfg in
        if ic > (2 ^ 64 - 1) - oc then unexpected store_factory_failed
        else
          let total = ic + oc in
          if total > 0 \<and> mem_max_frame_bytes cfg > max_store_memory_bytes div total then unexpected store_factory_failed
          else if mem_max_frame_bytes cfg > default_max_frame_bytes then unexpected store_factory_failed
          else ok ()
      else ok ())"

definition mem_factory_make :: "mem_config \<Rightarrow> nat \<Rightarrow> byte list \<Rightarrow> memory_store expected_t" where
  "mem_factory_make cfg max_store_memory_bytes raw =
     (case mem_factory_check cfg max_store_memory_bytes of
        Inl e \<Rightarrow> unexpected e
      | Inr _ \<Rightarrow> ok (memory_store_new cfg raw))"

subsection \<open>The invariant\<close>

definition mem_capacity :: "mem_config \<Rightarrow> direction_t \<Rightarrow> nat" where
  "mem_capacity cfg dir = (if dir = inbound then inbound_capacity cfg else outbound_capacity cfg)"

text \<open>Under the bounded policy the \<open>i\<close>-th entry of a direction owns the \<open>i\<close>-th slot of its part of the
  slab; under the unbounded policy every entry lies in the byte vector.\<close>

definition mem_layout :: "memory_store \<Rightarrow> bool" where
  "mem_layout m \<longleftrightarrow>
     (if mem_policy (mem_cfg m) = bounded then
        length (slab m) = (inbound_capacity (mem_cfg m) + outbound_capacity (mem_cfg m)) * mem_max_frame_bytes (mem_cfg m) \<and>
        (\<forall>dir. length (entries_for m dir) \<le> mem_capacity (mem_cfg m) dir \<and>
          (\<forall>i < length (entries_for m dir). en_slab_offset (entries_for m dir ! i) = slab_offset_for (mem_cfg m) i dir \<and>
             en_bytes_len (entries_for m dir ! i) \<le> mem_max_frame_bytes (mem_cfg m)))
      else \<forall>dir. \<forall>e \<in> set (entries_for m dir). en_slab_offset e + en_bytes_len e \<le> length (unbounded_slab m))"

definition mem_numbers :: "memory_store \<Rightarrow> direction_t \<Rightarrow> bool" where
  "mem_numbers m dir \<longleftrightarrow> next_seq_for m dir \<le> seqnum_max \<and>
     (if entries_for m dir = [] then 1 \<le> next_seq_for m dir else 1 \<le> en_seq (hd (entries_for m dir)))"

definition mem_inv :: "memory_store \<Rightarrow> bool" where
  "mem_inv m \<longleftrightarrow> mem_layout m \<and> (\<forall>dir. mem_numbers m dir)"

text \<open>Before a counter has wrapped, every stored number is below it.\<close>

definition mem_ordered :: "memory_store \<Rightarrow> bool" where
  "mem_ordered m \<longleftrightarrow> (\<forall>dir. entries_for m dir \<noteq> [] \<longrightarrow> en_seq (last (entries_for m dir)) < next_seq_for m dir)"

definition payload :: "memory_store \<Rightarrow> entry \<Rightarrow> byte list" where
  "payload m e = sub_span (if mem_policy (mem_cfg m) = bounded then slab m else unbounded_slab m) (en_slab_offset e) (en_bytes_len e)"

definition mem_log :: "memory_store \<Rightarrow> direction_t \<Rightarrow> (nat \<times> byte list) list" where
  "mem_log m dir = map (\<lambda>e. (en_seq e, payload m e)) (entries_for m dir)"

lemma entries_for_simps [simp]:
  "entries_for (push_entry dir e m) d = (if d = dir then entries_for m d @ [e] else entries_for m d)"
  "entries_for (advance_next_seq_for dir m) = entries_for m"
  "entries_for (m\<lparr>slab := a\<rparr>) = entries_for m" "entries_for (m\<lparr>unbounded_slab := a\<rparr>) = entries_for m"
  "entries_for (m\<lparr>retrieve_scratch := a\<rparr>) = entries_for m"
  by (cases d; cases dir; auto simp: entries_for_def push_entry_def advance_next_seq_for_def fun_eq_iff)+

lemma next_seq_for_simps [simp]:
  "next_seq_for (push_entry dir e m) = next_seq_for m"
  "next_seq_for (advance_next_seq_for dir m) d = (if d = dir then u32 (next_seq_for m d + 1) else next_seq_for m d)"
  "next_seq_for (m\<lparr>slab := a\<rparr>) = next_seq_for m" "next_seq_for (m\<lparr>unbounded_slab := a\<rparr>) = next_seq_for m"
  "next_seq_for (m\<lparr>retrieve_scratch := a\<rparr>) = next_seq_for m"
  by (cases d; cases dir; auto simp: next_seq_for_def push_entry_def advance_next_seq_for_def fun_eq_iff)+

lemma mem_fields_simps [simp]:
  "mem_cfg (push_entry dir e m) = mem_cfg m" "mem_cfg (advance_next_seq_for dir m) = mem_cfg m"
  "slab (push_entry dir e m) = slab m" "slab (advance_next_seq_for dir m) = slab m"
  "unbounded_slab (push_entry dir e m) = unbounded_slab m" "unbounded_slab (advance_next_seq_for dir m) = unbounded_slab m"
  "generation (push_entry dir e m) = generation m" "generation (advance_next_seq_for dir m) = generation m"
  by (simp_all add: push_entry_def advance_next_seq_for_def)

lemma payload_simps [simp]:
  "payload (push_entry dir e m) = payload m" "payload (advance_next_seq_for dir m) = payload m"
  "payload (m\<lparr>retrieve_scratch := a\<rparr>) = payload m"
  by (simp_all add: payload_def fun_eq_iff)

text \<open>Two slots do not meet.\<close>

lemma slot_bounds:
  assumes "i < mem_capacity cfg dir"
  shows "slab_offset_for cfg i dir + mem_max_frame_bytes cfg \<le> (inbound_capacity cfg + outbound_capacity cfg) * mem_max_frame_bytes cfg"
proof -
  let ?g = "if dir = inbound then i else inbound_capacity cfg + i"
  have "Suc ?g \<le> inbound_capacity cfg + outbound_capacity cfg"
    using assms by (cases dir) (auto simp: mem_capacity_def)
  then have "Suc ?g * mem_max_frame_bytes cfg \<le> (inbound_capacity cfg + outbound_capacity cfg) * mem_max_frame_bytes cfg"
    by (rule mult_le_mono1)
  then show ?thesis by (simp add: slab_offset_for_def add.commute)
qed

lemma slots_apart:
  assumes "i < mem_capacity cfg d" "j < mem_capacity cfg dir" "d \<noteq> dir \<or> i \<noteq> j"
  shows "slab_offset_for cfg i d + mem_max_frame_bytes cfg \<le> slab_offset_for cfg j dir \<or>
    slab_offset_for cfg j dir + mem_max_frame_bytes cfg \<le> slab_offset_for cfg i d"
proof -
  let ?g = "\<lambda>d i. if d = inbound then i else inbound_capacity cfg + i"
  have "?g d i < ?g dir j \<or> ?g dir j < ?g d i" using assms by (cases d; cases dir) (auto simp: mem_capacity_def)
  moreover have "a * c + c \<le> b * c" if "a < b" for a b c :: nat
    using mult_le_mono1 [of "Suc a" b c] that by simp
  ultimately show ?thesis by (auto simp: slab_offset_for_def)
qed

lemma mem_store_ok:
  assumes inv: "mem_inv m" and st: "mem_store lk seq frame dir m = (ok u, m')"
  obtains e where "seq = next_seq_for m dir" "mem_cfg m' = mem_cfg m" "generation m' = generation m"
    "entries_for m' = (entries_for m)(dir := entries_for m dir @ [e])"
    "next_seq_for m' = (next_seq_for m)(dir := u32 (seq + 1))"
    "en_seq e = seq" "payload m' e = frame"
    "\<And>d x. x \<in> set (entries_for m d) \<Longrightarrow> payload m' x = payload m x" "mem_layout m'"
proof (cases "mem_policy (mem_cfg m) = bounded")
  case True
  let ?n = "length (entries_for m dir)"
  let ?off = "slab_offset_for (mem_cfg m) ?n dir"
  let ?e = "\<lparr>en_seq = seq, en_bytes_len = length frame, en_slab_offset = ?off\<rparr>"
  have c: "?n < mem_capacity (mem_cfg m) dir" "length frame \<le> mem_max_frame_bytes (mem_cfg m)" "seq = next_seq_for m dir"
    and m': "m' = advance_next_seq_for dir (push_entry dir ?e (m\<lparr>slab := overwrite (slab m) ?off frame\<rparr>))"
    using st True by (auto simp: mem_store_def Let_def mem_capacity_def split: if_splits)
  have len: "length (slab m) = (inbound_capacity (mem_cfg m) + outbound_capacity (mem_cfg m)) * mem_max_frame_bytes (mem_cfg m)"
    and ent: "\<And>d i. i < length (entries_for m d) \<Longrightarrow> i < mem_capacity (mem_cfg m) d \<and>
       en_slab_offset (entries_for m d ! i) = slab_offset_for (mem_cfg m) i d \<and>
       en_bytes_len (entries_for m d ! i) \<le> mem_max_frame_bytes (mem_cfg m)"
    using inv True unfolding mem_inv_def mem_layout_def by (auto intro: less_le_trans)
  have fits: "?off + length frame \<le> length (slab m)" using slot_bounds [OF c(1)] c(2) len by simp
  have old: "payload m' x = payload m x" if "x \<in> set (entries_for m d)" for d x
  proof -
    from that obtain i where i: "i < length (entries_for m d)" "x = entries_for m d ! i" by (auto simp: in_set_conv_nth)
    have "d \<noteq> dir \<or> i \<noteq> ?n" using i(1) by auto
    from slots_apart [OF conjunct1 [OF ent [OF i(1)]] c(1) this] show ?thesis
      using ent [OF i(1)] i(2) c(2) fits True unfolding m' by (auto simp: payload_def intro!: sub_span_overwrite_disjoint)
  qed
  have "mem_layout m'"
    using inv c len fits ent True unfolding m' mem_inv_def mem_layout_def
    by (auto simp: nth_append less_Suc_eq_le Suc_le_eq intro: less_imp_le)
  then show ?thesis
    using that [of ?e] c(3) fits old True unfolding m' by (auto simp: fun_eq_iff payload_def sub_span_overwrite_same)
next
  case False
  let ?e = "\<lparr>en_seq = seq, en_bytes_len = length frame, en_slab_offset = length (unbounded_slab m)\<rparr>"
  have c: "seq = next_seq_for m dir"
    and m': "m' = advance_next_seq_for dir (push_entry dir ?e (m\<lparr>unbounded_slab := unbounded_slab m @ frame\<rparr>))"
    using st False by (auto simp: mem_store_def Let_def split: if_splits)
  have ent: "x \<in> set (entries_for m d) \<Longrightarrow> en_slab_offset x + en_bytes_len x \<le> length (unbounded_slab m)" for d x
    using inv False unfolding mem_inv_def mem_layout_def by auto
  have "payload m' x = payload m x" if "x \<in> set (entries_for m d)" for d x
    using ent [OF that] False unfolding m' by (simp add: payload_def sub_span_def)
  moreover have "mem_layout m'" using ent False unfolding m' mem_layout_def by (fastforce split: if_splits)
  ultimately show ?thesis using that [of ?e] c False unfolding m' by (auto simp: fun_eq_iff payload_def sub_span_def)
qed

lemma mem_store_refused: "mem_store lk seq frame dir m = (unexpected e, m') \<Longrightarrow> m' = m"
  by (auto simp: mem_store_def Let_def split: if_splits)

lemma mem_numbers_push:
  assumes "mem_inv m" "entries_for m' = (entries_for m)(dir := entries_for m dir @ [e])"
    "next_seq_for m' = (next_seq_for m)(dir := u32 (seq + 1))" "en_seq e = seq" "seq = next_seq_for m dir"
  shows "mem_numbers m' d"
proof -
  have n: "\<And>d. mem_numbers m d" using assms(1) by (simp add: mem_inv_def)
  have "u32 (seq + 1) \<le> seqnum_max" by (simp add: u32_def seqnum_max_def)
  then show ?thesis using n [of dir] n [of d] assms(2-5)
    by (cases "d = dir") (auto simp: mem_numbers_def hd_append split: if_splits)
qed

lemma mem_inv_store: "mem_inv m \<Longrightarrow> mem_inv (snd (mem_store lk seq frame dir m))"
proof (cases "fst (mem_store lk seq frame dir m)")
  case (Inl e)
  then show "mem_inv m \<Longrightarrow> ?thesis" by (cases "mem_store lk seq frame dir m") (auto dest: mem_store_refused)
next
  case (Inr u)
  assume inv: "mem_inv m"
  obtain m' where m': "mem_store lk seq frame dir m = (ok u, m')" using Inr by (cases "mem_store lk seq frame dir m") auto
  from mem_store_ok [OF inv m'] mem_numbers_push [OF inv] show ?thesis unfolding m' mem_inv_def snd_conv by metis
qed

lemma mem_clear_simps [simp]:
  "entries_for (mem_clear ni no m) = (\<lambda>_. [])" "next_seq_for (mem_clear ni no m) d = (if d = inbound then ni else no)"
  "mem_cfg (mem_clear ni no m) = mem_cfg m" "slab (mem_clear ni no m) = slab m"
  "generation (mem_clear ni no m) = u64 (generation m + 1)"
  by (auto simp: mem_clear_def entries_for_def next_seq_for_def fun_eq_iff)

lemma mem_inv_clear: "mem_inv m \<Longrightarrow> reset_to_targets_valid ni no \<Longrightarrow> mem_inv (mem_clear ni no m)"
  by (auto simp: mem_inv_def mem_layout_def mem_numbers_def reset_to_targets_valid_def seqnum_min_def seqnum_max_def)

lemma mem_ordered_clear: "mem_ordered (mem_clear ni no m)"
  by (simp add: mem_ordered_def)

lemma mem_log_advance [simp]: "mem_log (advance_next_seq_for dir m) = mem_log m"
  by (simp add: mem_log_def fun_eq_iff)

lemma mem_inv_advance:
  assumes "mem_inv m" "next_seq_for m dir \<noteq> seqnum_max"
  shows "mem_inv (advance_next_seq_for dir m)" "u32 (next_seq_for m dir + 1) = next_seq_for m dir + 1"
proof -
  have n: "\<And>d. mem_numbers m d" using assms(1) by (simp add: mem_inv_def)
  show eq: "u32 (next_seq_for m dir + 1) = next_seq_for m dir + 1"
    using n [of dir] assms(2) by (simp add: mem_numbers_def seqnum_max_def)
  have "mem_numbers (advance_next_seq_for dir m) d" for d
    using n [of d] n [of dir] assms(2) eq
    by (cases "d = dir") (auto simp: mem_numbers_def seqnum_max_def split: if_splits)
  then show "mem_inv (advance_next_seq_for dir m)" using assms(1) by (simp add: mem_inv_def mem_layout_def)
qed

lemma mem_inv_apply: "mem_inv m \<Longrightarrow> mem_inv (mem_apply op m)"
  by (cases op)
     (auto simp: mem_inv_store mem_inv_advance mem_next_seqnum_def mem_reset_def mem_reset_to_def Let_def mem_inv_clear
        intro: mem_inv_clear simp: reset_to_targets_valid_def)

lemma mem_inv_run: "mem_inv m \<Longrightarrow> mem_inv (mem_run ops m)"
  by (induction ops arbitrary: m) (simp_all add: mem_inv_apply)

lemma log_put_fresh: "(l \<noteq> [] \<Longrightarrow> fst (last l) \<noteq> seq) \<Longrightarrow> log_put seq frame l = l @ [(seq, frame)]"
  by (auto simp: log_put_def)

lemma mem_store_log:
  assumes inv: "mem_inv m" and st: "mem_store lk seq frame dir m = (ok u, m')"
  shows "seq = next_seq_for m dir \<and> mem_log m' = (mem_log m)(dir := mem_log m dir @ [(seq, frame)]) \<and>
    next_seq_for m' = (next_seq_for m)(dir := u32 (seq + 1)) \<and> (seq \<noteq> seqnum_max \<and> mem_ordered m \<longrightarrow> mem_ordered m')"
proof (rule mem_store_ok [OF inv st])
  fix e
  assume e: "seq = next_seq_for m dir" "entries_for m' = (entries_for m)(dir := entries_for m dir @ [e])"
    "next_seq_for m' = (next_seq_for m)(dir := u32 (seq + 1))" "en_seq e = seq" "payload m' e = frame"
    "\<And>d x. x \<in> set (entries_for m d) \<Longrightarrow> payload m' x = payload m x"
  have "mem_log m' = (mem_log m)(dir := mem_log m dir @ [(seq, frame)])"
    using e(2,4-6) by (auto simp: mem_log_def fun_eq_iff)
  moreover have "mem_ordered m'" if "seq \<noteq> seqnum_max" "mem_ordered m"
  proof -
    have "mem_numbers m dir" using inv by (simp add: mem_inv_def)
    then have "u32 (seq + 1) = seq + 1" using that(1) e(1) by (simp add: mem_numbers_def seqnum_max_def)
    then show ?thesis using that(2) e(2-4) by (auto simp: mem_ordered_def)
  qed
  ultimately show ?thesis using e(1,3) by simp
qed

lemma mem_ordered_put: "mem_ordered m \<Longrightarrow> log_put (next_seq_for m dir) frame (mem_log m dir) = mem_log m dir @ [(next_seq_for m dir, frame)]"
  by (intro log_put_fresh) (auto simp: mem_log_def mem_ordered_def last_map)

lemma mem_ordered_advance: "mem_inv m \<Longrightarrow> mem_ordered m \<Longrightarrow> next_seq_for m dir \<noteq> seqnum_max \<Longrightarrow> mem_ordered (advance_next_seq_for dir m)"
  using mem_inv_advance(2) [of m dir] by (auto simp: mem_ordered_def)

interpretation mem: message_store "\<lambda>m. mem_inv m \<and> mem_ordered m" "\<lambda>m. True" mem_log next_seq_for mem_store mem_next_seqnum mem_reset
proof unfold_locales
  fix s io seq frame dir u s'
  assume s: "mem_inv s \<and> mem_ordered s" "seq \<noteq> seqnum_max" and st: "mem_store io seq frame dir s = (ok u, s')"
  have l: "seq = next_seq_for s dir" "mem_log s' = (mem_log s)(dir := mem_log s dir @ [(seq, frame)])"
      "next_seq_for s' = (next_seq_for s)(dir := u32 (seq + 1))" using mem_store_log [OF _ st] s by simp_all
  show "True \<and> seq = next_seq_for s dir \<and> mem_log s' = (mem_log s)(dir := log_put seq frame (mem_log s dir)) \<and>
      next_seq_for s' = (next_seq_for s)(dir := seq + 1)"
    using l(2,3) mem_ordered_put [of s dir frame] mem_inv_advance(2) [of s dir] s unfolding l(1) by simp
next
  fix s io seq frame dir
  assume s: "mem_inv s \<and> mem_ordered s" "seq \<noteq> seqnum_max"
  obtain r s' where st: "mem_store io seq frame dir s = (r, s')" by fastforce
  then show "mem_inv (snd (mem_store io seq frame dir s)) \<and> mem_ordered (snd (mem_store io seq frame dir s))"
    using s mem_inv_store [of s io seq frame dir] mem_store_log [of s io seq frame dir _ s']
    by (cases r) (auto dest: mem_store_refused)
next
  fix s io dir inc n s'
  assume "mem_inv s \<and> mem_ordered s" "mem_next_seqnum io dir inc s = (ok n, s')"
  then show "True \<and> n = next_seq_for s dir \<and> mem_log s' = mem_log s \<and>
      next_seq_for s' = (if inc then (next_seq_for s)(dir := n + 1) else next_seq_for s) \<and> (inc \<longrightarrow> n \<noteq> seqnum_max)"
    using mem_inv_advance(2) [of s dir] by (auto simp: mem_next_seqnum_def Let_def fun_eq_iff split: if_splits)
next
  fix s :: memory_store and io dir inc
  assume "mem_inv s \<and> mem_ordered s"
  then show "mem_inv (snd (mem_next_seqnum io dir inc s)) \<and> mem_ordered (snd (mem_next_seqnum io dir inc s))"
    "mem_inv (snd (mem_reset io s)) \<and> mem_ordered (snd (mem_reset io s))"
    by (auto simp: mem_next_seqnum_def mem_reset_def Let_def mem_inv_advance mem_ordered_advance mem_inv_clear mem_ordered_clear
          reset_to_targets_valid_def)
qed (auto simp: mem_next_seqnum_def mem_reset_def mem_log_def fun_eq_iff Let_def split: if_splits dest: mem_store_refused)

subsection \<open>Refinement\<close>

text \<open>The abstract store: a log and a counter per direction.\<close>

record log_store =
  ls_log :: "direction_t \<Rightarrow> (nat \<times> byte list) list"
  ls_next :: "direction_t \<Rightarrow> nat"

datatype op_result = Done "unit expected_t" | Number "nat expected_t"

fun log_exec :: "mem_config \<Rightarrow> mem_op \<Rightarrow> log_store \<Rightarrow> op_result \<times> log_store" where
  "log_exec cfg (MemStore lk seq frame dir) s =
     (if \<not> lk then (Done (unexpected store_cancelled), s)
      else if seq \<noteq> ls_next s dir then (Done (unexpected store_seqnum_out_of_order), s)
      else if mem_policy cfg = bounded \<and> length (ls_log s dir) \<ge> mem_capacity cfg dir then (Done (unexpected store_capacity_exhausted), s)
      else if length frame > mem_max_frame_bytes cfg then (Done (unexpected store_io_failure), s)
      else (Done (ok ()), s\<lparr>ls_log := (ls_log s)(dir := ls_log s dir @ [(seq, frame)]),
                            ls_next := (ls_next s)(dir := u32 (seq + 1))\<rparr>))"
| "log_exec cfg (MemNext lk dir increment) s =
     (if \<not> lk then (Number (unexpected store_cancelled), s)
      else if increment \<and> ls_next s dir = seqnum_max then (Number (unexpected store_seqnum_overflow), s)
      else (Number (ok (ls_next s dir)), if increment then s\<lparr>ls_next := (ls_next s)(dir := ls_next s dir + 1)\<rparr> else s))"
| "log_exec cfg (MemReset lk) s =
     (if \<not> lk then (Done (unexpected store_cancelled), s)
      else (Done (ok ()), s\<lparr>ls_log := \<lambda>_. [], ls_next := \<lambda>_. seqnum_min\<rparr>))"
| "log_exec cfg (MemResetTo lk ni no) s =
     (if \<not> reset_to_targets_valid ni no then (Done (unexpected session_invalid_argument), s)
      else if \<not> lk then (Done (unexpected store_cancelled), s)
      else (Done (ok ()), s\<lparr>ls_log := \<lambda>_. [], ls_next := \<lambda>d. if d = inbound then ni else no\<rparr>))"

fun mem_exec :: "mem_op \<Rightarrow> memory_store \<Rightarrow> op_result \<times> memory_store" where
  "mem_exec (MemStore lk seq frame dir) m = map_prod Done id (mem_store lk seq frame dir m)"
| "mem_exec (MemNext lk dir increment) m = map_prod Number id (mem_next_seqnum lk dir increment m)"
| "mem_exec (MemReset lk) m = map_prod Done id (mem_reset lk m)"
| "mem_exec (MemResetTo lk next_in next_out) m = map_prod Done id (mem_reset_to lk next_in next_out m)"

fun exec_all :: "('op \<Rightarrow> 's \<Rightarrow> op_result \<times> 's) \<Rightarrow> 'op list \<Rightarrow> 's \<Rightarrow> op_result list \<times> 's" where
  "exec_all ex [] s = ([], s)"
| "exec_all ex (op # ops) s =
     (case ex op s of (r, s) \<Rightarrow> (case exec_all ex ops s of (rs, s) \<Rightarrow> (r # rs, s)))"

definition mem_abs :: "memory_store \<Rightarrow> log_store" where
  "mem_abs m = \<lparr>ls_log = mem_log m, ls_next = next_seq_for m\<rparr>"

lemma mem_cfg_apply: "mem_cfg (mem_apply op m) = mem_cfg m"
  by (cases op) (auto simp: mem_store_def mem_next_seqnum_def mem_reset_def mem_reset_to_def Let_def)

lemma snd_mem_exec: "snd (mem_exec op m) = mem_apply op m"
  by (cases op) auto

lemma length_mem_log [simp]: "length (mem_log m dir) = length (entries_for m dir)"
  by (simp add: mem_log_def)

lemma mem_store_cases:
  assumes inv: "mem_inv m"
  shows "mem_exec (MemStore lk seq frame dir) m = (r, m') \<Longrightarrow>
    log_exec (mem_cfg m) (MemStore lk seq frame dir) (mem_abs m) = (r, mem_abs m')"
proof (cases "fst (mem_store lk seq frame dir m)")
  case (Inl e)
  assume "mem_exec (MemStore lk seq frame dir) m = (r, m')"
  then show ?thesis using Inl
    by (auto simp: mem_store_def mem_abs_def mem_capacity_def Let_def split: if_splits)
next
  case (Inr u)
  assume "mem_exec (MemStore lk seq frame dir) m = (r, m')"
  then have st: "mem_store lk seq frame dir m = (ok u, m')" "r = Done (ok ())" using Inr
    by (cases "mem_store lk seq frame dir m"; simp)+
  have "lk" "\<not> (mem_policy (mem_cfg m) = bounded \<and> length (entries_for m dir) \<ge> mem_capacity (mem_cfg m) dir)"
    "length frame \<le> mem_max_frame_bytes (mem_cfg m)"
    using st by (auto simp: mem_store_def mem_capacity_def Let_def split: if_splits)
  then show ?thesis using mem_store_log [OF inv st(1)] st(2) by (auto simp: mem_abs_def)
qed

lemma mem_exec_refines:
  assumes inv: "mem_inv m" and ex: "mem_exec op m = (r, m')"
  shows "log_exec (mem_cfg m) op (mem_abs m) = (r, mem_abs m')"
proof (cases op)
  case (MemStore lk seq frame dir)
  then show ?thesis using mem_store_cases [OF inv] ex by simp
next
  case (MemNext lk dir increment)
  then show ?thesis using ex mem_inv_advance(2) [OF inv, of dir]
    by (auto simp: mem_next_seqnum_def mem_abs_def Let_def fun_eq_iff split: if_splits)
qed (use ex in \<open>auto simp: mem_reset_def mem_reset_to_def mem_abs_def mem_log_def fun_eq_iff split: if_splits\<close>)

lemma mem_exec_all_refines:
  "mem_inv m \<Longrightarrow> exec_all mem_exec ops m = (rs, m') \<Longrightarrow> exec_all (log_exec (mem_cfg m)) ops (mem_abs m) = (rs, mem_abs m') \<and> mem_inv m'"
proof (induction ops arbitrary: m rs)
  case (Cons op ops)
  obtain r m1 where 1: "mem_exec op m = (r, m1)" by fastforce
  have m1: "m1 = mem_apply op m" using 1 snd_mem_exec by (metis snd_conv)
  obtain rs' where 2: "exec_all mem_exec ops m1 = (rs', m')" "rs = r # rs'" using Cons.prems(2) 1 by (auto split: prod.splits)
  show ?case
    using Cons.IH [OF _ 2(1)] mem_exec_refines [OF Cons.prems(1) 1] mem_inv_apply [OF Cons.prems(1)] mem_cfg_apply 2(2) m1 by simp
qed (simp add: mem_abs_def)

text \<open>A store the factory makes satisfies the invariant: its slab holds every slot.\<close>

lemma mem_factory_inv:
  assumes "mem_factory_make cfg max_bytes raw = ok m" "max_bytes < 2 ^ 64" "outbound_capacity cfg < 2 ^ 64" "slab_total_bytes cfg \<le> length raw"
  shows "mem_inv m \<and> mem_cfg m = cfg \<and> mem_abs m = \<lparr>ls_log = \<lambda>_. [], ls_next = \<lambda>_. seqnum_min\<rparr>"
proof -
  have m: "m = memory_store_new cfg raw" and ch: "mem_factory_check cfg max_bytes = ok ()"
    using assms(1) by (auto simp: mem_factory_make_def split: sum.splits)
  have "slab_total_bytes cfg = (inbound_capacity cfg + outbound_capacity cfg) * mem_max_frame_bytes cfg" if b: "mem_policy cfg = bounded"
  proof -
    let ?t = "inbound_capacity cfg + outbound_capacity cfg"
    have "\<not> inbound_capacity cfg > (2 ^ 64 - 1) - outbound_capacity cfg"
        and q: "0 < ?t \<Longrightarrow> mem_max_frame_bytes cfg \<le> max_bytes div ?t"
      using ch b by (auto simp: mem_factory_check_def Let_def split: if_splits)
    then have "?t < 2 ^ 64" using assms(3) by simp
    moreover have "?t * mem_max_frame_bytes cfg \<le> max_bytes"
      using q by (cases "?t = 0") (auto simp: less_eq_div_iff_mult_less_eq mult.commute)
    ultimately show ?thesis using b assms(2) by (simp add: slab_total_bytes_def)
  qed
  then show ?thesis using assms(4) unfolding m
    by (auto simp: mem_inv_def mem_layout_def mem_numbers_def memory_store_new_def mem_abs_def mem_log_def entries_for_def next_seq_for_def
          seqnum_min_def seqnum_max_def fun_eq_iff)
qed

subsection \<open>Retrieval under interference\<close>

text \<open>One operation either adds to the logs, or starts a new epoch.\<close>

definition extends :: "memory_store \<Rightarrow> memory_store \<Rightarrow> bool" where
  "extends m m' \<longleftrightarrow> mem_cfg m' = mem_cfg m \<and>
     (\<forall>dir. \<forall>e \<in> set (entries_for m dir). e \<in> set (entries_for m' dir) \<and> payload m' e = payload m e)"

lemma extends_refl: "extends m m"
  by (simp add: extends_def)

lemma extends_trans: "extends a b \<Longrightarrow> extends b c \<Longrightarrow> extends a c"
  unfolding extends_def by metis

lemma extends_scratch [simp]: "extends m (m'\<lparr>retrieve_scratch := a\<rparr>) = extends m m'" "mem_inv (m\<lparr>retrieve_scratch := a\<rparr>) = mem_inv m"
  by (simp_all add: extends_def mem_inv_def mem_layout_def mem_numbers_def)

lemma mem_apply_epoch:
  assumes "mem_inv m"
  shows "extends m (mem_apply op m) \<and> generation (mem_apply op m) = generation m \<or>
    generation (mem_apply op m) = u64 (generation m + 1)"
proof (cases op)
  case (MemStore lk seq frame dir)
  obtain r m' where st: "mem_store lk seq frame dir m = (r, m')" by fastforce
  show ?thesis
  proof (cases r)
    case (Inl e)
    then show ?thesis using st MemStore mem_store_refused [of lk seq frame dir m e m'] by (simp add: extends_refl)
  next
    case (Inr u)
    have "extends m m' \<and> generation m' = generation m"
      by (rule mem_store_ok [OF assms st [unfolded Inr]]) (auto simp: extends_def)
    then show ?thesis using st MemStore by simp
  qed
qed (auto simp: mem_next_seqnum_def mem_reset_def mem_reset_to_def Let_def extends_def)

text \<open>What a walk shows for an entry descriptor.\<close>

definition shown_bytes :: "byte list \<Rightarrow> memory_store \<Rightarrow> entry \<Rightarrow> byte list" where
  "shown_bytes copy m e =
     (if mem_policy (mem_cfg m) = bounded then payload m e else sub_span copy (en_slab_offset e) (en_bytes_len e))"

definition has_entry :: "memory_store \<Rightarrow> entry \<Rightarrow> bool" where
  "has_entry m e \<longleftrightarrow> mem_policy (mem_cfg m) = bounded \<longrightarrow> (\<exists>dir. e \<in> set (entries_for m dir))"

lemma mem_view_simps:
  "snd (mem_view copy e m) = (if mem_policy (mem_cfg m) = bounded
     then m\<lparr>retrieve_scratch := sub_span (slab m) (en_slab_offset e) (en_bytes_len e)\<rparr> else m)"
  "fst (mem_view copy e m) = Some (shown_bytes copy m e)"
  by (auto simp: mem_view_def shown_bytes_def payload_def Let_def)

interpretation mem_walk: snapshot_walk mem_inv generation mem_apply extends has_entry "mem_view copy" en_seq "shown_bytes copy" for copy
proof unfold_locales
  fix s s' s'' assume "extends s s'" "extends s' s''" then show "extends s s''" by (rule extends_trans)
next
  fix s0 s e frame assume "extends s0 s" "has_entry s0 e" "fst (mem_view copy e s) = Some frame"
  then show "frame = shown_bytes copy s0 e" by (auto simp: mem_view_simps shown_bytes_def extends_def has_entry_def)
qed (simp_all add: mem_inv_apply mem_apply_epoch [simplified] extends_refl mem_view_simps)

abbreviation frame_view :: "memory_store \<Rightarrow> byte list \<Rightarrow> entry \<Rightarrow> nat \<times> byte list" where
  "frame_view m copy e \<equiv> (en_seq e, shown_bytes copy m e)"

lemma mem_snapshot_range:
  assumes inv: "mem_inv m" and "tail_end \<le> seqnum_max" "s + n = tail_end + 1" "1 \<le> s"
    and "log_range (mem_log m dir) s n = (frames, gap)"
  shows "\<exists>snap c. mem_snapshot m dir (u32 s) tail_end snaps copy = Some (snaps @ snap, copy @ c, gap \<or> tail_end = seqnum_max) \<and>
    (\<forall>d. map (frame_view m (copy @ c @ d)) snap = frames) \<and>
    (mem_policy (mem_cfg m) = bounded \<longrightarrow> set snap \<subseteq> set (entries_for m dir))"
  using assms(3-)
proof (induction n arbitrary: s snaps copy frames gap)
  case 0
  have num: "mem_numbers m dir" using inv by (simp add: mem_inv_def)
  show ?case
  proof (cases "tail_end = seqnum_max")
    case True
    then have "u32 s = 0" using 0 by (simp add: u32_def seqnum_max_def)
    then show ?thesis using True num 0 by (subst mem_snapshot.simps) (auto simp: Let_def mem_numbers_def split: if_splits)
  next
    case False
    then have "u32 s = s" using 0 assms(2) by (simp add: seqnum_max_def)
    then show ?thesis using False 0 by (subst mem_snapshot.simps) simp
  qed
next
  case (Suc n)
  let ?es = "entries_for m dir" and ?l = "mem_log m dir"
  have s: "u32 s = s" using Suc.prems(1) assms(2) by (simp add: seqnum_max_def)
  have hd: "?es \<noteq> [] \<Longrightarrow> fst (hd ?l) = en_seq (hd ?es)" by (simp add: mem_log_def hd_map)
  have Nil: "?l = [] \<longleftrightarrow> ?es = []" by (simp add: mem_log_def)
  have nth: "i < length ?es \<Longrightarrow> ?l ! i = (en_seq (?es ! i), payload m (?es ! i))" for i by (simp add: mem_log_def)
  let ?i = "s - en_seq (hd ?es)"
  show ?case
  proof (cases "?es = [] \<or> s < en_seq (hd ?es) \<or> ?i \<ge> length ?es \<or> en_seq (?es ! ?i) \<noteq> s")
    case True
    then have "frames = []" "gap" using Suc.prems(3) hd Nil nth [of ?i] by (auto simp: Let_def split: if_splits prod.splits)
    moreover have "mem_snapshot m dir s tail_end snaps copy = Some (snaps, copy, True)"
      using True Suc.prems(1) by (subst mem_snapshot.simps) (auto simp: Let_def)
    ultimately show ?thesis unfolding s by (intro exI [of _ "[]"]) simp
  next
    case False
    let ?e = "?es ! ?i"
    have i: "?i < length ?es" "en_seq ?e = s" "?e \<in> set ?es" using False by auto
    obtain fs where f: "log_range ?l (s + 1) n = (fs, gap)" "frames = (s, payload m ?e) # fs"
      using Suc.prems(3) False hd Nil nth [OF i(1)] i(2) by (auto simp: Let_def split: if_splits prod.splits)
    have le: "s \<le> tail_end" using Suc.prems(1) by simp
    note IH = Suc.IH [of "s + 1", OF _ _ f(1)]
    show ?thesis
    proof (cases "mem_policy (mem_cfg m) = bounded")
      case True
      obtain snap c where r: "mem_snapshot m dir (u32 (s + 1)) tail_end (snaps @ [?e]) copy =
            Some ((snaps @ [?e]) @ snap, copy @ c, gap \<or> tail_end = seqnum_max)"
          "\<forall>d. map (frame_view m (copy @ c @ d)) snap = fs" "set snap \<subseteq> set ?es"
        using IH [of "snaps @ [?e]" copy] Suc.prems True by auto
      have "mem_snapshot m dir s tail_end snaps copy = Some (snaps @ (?e # snap), copy @ c, gap \<or> tail_end = seqnum_max)"
        using False le True r(1) by (subst mem_snapshot.simps) (simp add: Let_def)
      moreover have "frame_view m d ?e = (s, payload m ?e)" for d using i(2) True by (simp add: shown_bytes_def)
      ultimately show ?thesis unfolding s using r(2,3) f(2) i(3)
        by (intro exI [of _ "?e # snap"] exI [of _ c]) simp
    next
      case False': False
      let ?p = "payload m ?e" and ?e' = "?e\<lparr>en_slab_offset := length copy\<rparr>"
      have "en_slab_offset ?e + en_bytes_len ?e \<le> length (unbounded_slab m)"
        using inv i(3) False' unfolding mem_inv_def mem_layout_def by (metis (full_types))
      then have p: "sub_span (unbounded_slab m) (en_slab_offset ?e) (en_bytes_len ?e) = ?p" "length ?p = en_bytes_len ?e"
        using False' by (simp_all add: payload_def sub_span_def)
      obtain snap c where r: "mem_snapshot m dir (u32 (s + 1)) tail_end (snaps @ [?e']) (copy @ ?p) =
            Some ((snaps @ [?e']) @ snap, (copy @ ?p) @ c, gap \<or> tail_end = seqnum_max)"
          "\<forall>d. map (frame_view m ((copy @ ?p) @ c @ d)) snap = fs"
        using IH [of "snaps @ [?e']" "copy @ ?p"] Suc.prems False' by auto
      have "mem_snapshot m dir s tail_end snaps copy = Some (snaps @ (?e' # snap), copy @ ?p @ c, gap \<or> tail_end = seqnum_max)"
        using False le False' r(1) p(1) by (subst mem_snapshot.simps) (cases "mem_policy (mem_cfg m)"; simp add: Let_def)
      moreover have "frame_view m (copy @ ?p @ c @ d) ?e' = (s, ?p)" for d
        using p(2) i(2) False' by (simp add: shown_bytes_def sub_span_def)
      ultimately show ?thesis unfolding s using r(2) f(2) False'
        by (intro exI [of _ "?e' # snap"] exI [of _ "?p @ c"]) simp
    qed
  qed
qed


abbreviation small_config :: mem_config where
  "small_config \<equiv> \<lparr>mem_policy = bounded, inbound_capacity = 1, outbound_capacity = 2, mem_max_frame_bytes = 4\<rparr>"

abbreviation small_ops :: "mem_op list" where
  "small_ops \<equiv> [MemStore True 1 ''ab'' outbound, MemStore True 1 ''xy'' inbound, MemStore True 2 ''cde'' outbound,
     MemStore True 3 ''f'' outbound]"

lemmas mem_eval = memory_store_new_def slab_total_bytes_def mem_store_def mem_next_seqnum_def mem_reset_def mem_reset_to_def
  mem_clear_def entries_for_def next_seq_for_def push_entry_def advance_next_seq_for_def slab_offset_for_def overwrite_def
  mem_log_def payload_def sub_span_def seqnum_min_def u64_def u32_def mem_factory_make_def mem_factory_check_def
  default_max_frame_bytes_def mem_capacity_def



text \<open>A visitor that appends a frame to the store while it looks at the first, and one that resets it.\<close>

abbreviation small_store :: memory_store where
  "small_store \<equiv> mem_run [MemStore True 1 ''ab'' outbound, MemStore True 2 ''cd'' outbound]
     (memory_store_new \<lparr>mem_policy = unbounded, inbound_capacity = 0, outbound_capacity = 0, mem_max_frame_bytes = 4\<rparr> [])"

abbreviation resetting_visitor :: "(unit, mem_op) retrieve_visitor" where
  "resetting_visitor \<equiv> \<lparr>on_frame = \<lambda>q f v. (Visited cont, [MemReset True, MemStore True 1 ''zz'' outbound], v), abort_error = \<lambda>v. store_visitor_aborted\<rparr>"


subsection \<open>At the edges\<close>

text \<open>Storing the largest number succeeds and wraps the counter of the direction to 0, although the
  overflow of a number is documented to end the session without a wrap (\<^verbatim>\<open>seqnum.hpp\<close>).\<close>

lemma store_wraps_at_max:
  assumes "mem_inv m" "mem_store lk seqnum_max frame dir m = (ok u, m')"
  shows "next_seq_for m' dir = 0"
  using mem_store_log [OF assms] by (simp add: u32_def seqnum_max_def)

text \<open>A number skipped by an increment hides the frames stored after it: they are in the log and a
  retrieval of exactly their numbers finds a gap.\<close>

lemma skipped_number_hides_frames:
  assumes "m = mem_run [MemStore True 1 ''ab'' inbound, MemNext True inbound True, MemStore True 3 ''cd'' inbound]
      (memory_store_new \<lparr>mem_policy = unbounded, inbound_capacity = 0, outbound_capacity = 0, mem_max_frame_bytes = 4\<rparr> [])"
  shows "mem_log m inbound = [(1, ''ab''), (3, ''cd'')]"
    and "mem_retrieve visitor True 3 3 inbound v m = Some (unexpected store_seqnum_gap, [], v, m)"
proof -
  let ?e = "\<lambda>seq off. \<lparr>en_seq = seq, en_bytes_len = 2, en_slab_offset = off\<rparr>"
  have m: "m = \<lparr>mem_cfg = \<lparr>mem_policy = unbounded, inbound_capacity = 0, outbound_capacity = 0, mem_max_frame_bytes = 4\<rparr>,
      slab = [], unbounded_slab = ''abcd'', inbound_entries = [?e 1 0, ?e 3 2], outbound_entries = [], retrieve_scratch = [],
      mem_next_inbound = 4, mem_next_outbound = 1, generation = 0\<rparr>"
    unfolding assms by (simp add: mem_eval Let_def seqnum_max_def)
  show "mem_log m inbound = [(1, ''ab''), (3, ''cd'')]"
    unfolding m by (simp add: mem_log_def entries_for_def payload_def sub_span_def)
  have "mem_snapshot m inbound 3 3 [] [] = Some ([], [], True)"
    unfolding m by (subst mem_snapshot.simps) (simp add: entries_for_def)
  then show "mem_retrieve visitor True 3 3 inbound v m = Some (unexpected store_seqnum_gap, [], v, m)"
    by (simp add: mem_retrieve_def range_end_def Let_def)
qed

end
