(* ===== verification/Fixpp_LogFormat.thy ===== *)
theory Fixpp_LogFormat
  imports Fixpp_MessageStore
begin

text \<open>
  The log of the persistent store: the records of \<^verbatim>\<open>src/session/file_store.cpp\<close>, the file they
  are written to, and the scan that reads a log back when it is opened.

  The checksum of a record is \<^verbatim>\<open>crc32c::Extend\<close> of a library; it is the argument \<open>crc\<close>, of which
  only the range of its result is used.  The kernel's answers to the calls on a file are a list,
  consumed in order: \<open>Moved n\<close> is a read or write of at most \<open>n\<close> bytes, \<open>Eintr\<close> an interrupted call,
  \<open>Fails\<close> an error, and \<open>Killed\<close> the end of the process inside the call; when the list is exhausted
  every call succeeds in full.  A file has its bytes and the bytes of its last successful
  \<^verbatim>\<open>fdatasync\<close>.  The POSIX branches of the code are modelled, with the production values (off) of
  the fault-injection seams; structures are written as a little-endian machine lays them out.
\<close>

subsection \<open>Integers as bytes\<close>

fun le_bytes :: "nat \<Rightarrow> nat \<Rightarrow> byte list" where
  "le_bytes 0 n = []"
| "le_bytes (Suc k) n = char_of (n mod 256) # le_bytes k (n div 256)"

fun le_value :: "byte list \<Rightarrow> nat" where
  "le_value [] = 0"
| "le_value (c # cs) = byte_val c + 256 * le_value cs"

lemma length_le_bytes [simp]: "length (le_bytes k n) = k"
  by (induction k arbitrary: n) auto

lemma le_value_le_bytes: "le_value (le_bytes k n) = n mod 256 ^ k"
  by (induction k arbitrary: n) (simp_all add: mod_mult2_eq)

lemma le_value_id [simp]: "n < 256 ^ k \<Longrightarrow> le_value (le_bytes k n) = n"
  by (simp add: le_value_le_bytes)

subsection \<open>Files\<close>

datatype sys = Moved nat | Eintr | Fails | Killed

datatype outcome = Succeeded | Failed | Dead

record os_file =
  fl_bytes :: "byte list"
  fl_synced :: "byte list"

definition file_write :: "nat \<Rightarrow> byte list \<Rightarrow> os_file \<Rightarrow> os_file" where
  "file_write off bs f =
     f\<lparr>fl_bytes := take off (fl_bytes f) @ replicate (off - length (fl_bytes f)) (CHR 0x00) @ bs @ drop (off + length bs) (fl_bytes f)\<rparr>"

fun pwrite_all :: "sys list \<Rightarrow> byte list \<Rightarrow> nat \<Rightarrow> os_file \<Rightarrow> outcome \<times> sys list \<times> os_file" where
  "pwrite_all sc [] off f = (Succeeded, sc, f)"
| "pwrite_all [] (b # bs) off f = (Succeeded, [], file_write off (b # bs) f)"
| "pwrite_all (a # sc) (b # bs) off f =
     (case a of
        Eintr \<Rightarrow> pwrite_all sc (b # bs) off f
      | Fails \<Rightarrow> (Failed, sc, f)
      | Killed \<Rightarrow> (Dead, sc, f)
      | Moved n \<Rightarrow>
          let r = min n (length (b # bs)) in
          pwrite_all sc (drop r (b # bs)) (off + r) (file_write off (take r (b # bs)) f))"

fun pread_all :: "sys list \<Rightarrow> nat \<Rightarrow> nat \<Rightarrow> os_file \<Rightarrow> byte list option \<times> sys list" where
  "pread_all sc 0 off f = (Some [], sc)"
| "pread_all [] (Suc n) off f = (Some (sub_span (fl_bytes f) off (Suc n)), [])"
| "pread_all (a # sc) (Suc n) off f =
     (case a of
        Eintr \<Rightarrow> pread_all sc (Suc n) off f
      | Moved k \<Rightarrow>
          let got = sub_span (fl_bytes f) off (min k (Suc n)) in
          if got = [] then (Some [], sc)
          else (case pread_all sc (Suc n - length got) (off + length got) f of
                  (None, sc) \<Rightarrow> (None, sc)
                | (Some bs, sc) \<Rightarrow> (Some (got @ bs), sc))
      | _ \<Rightarrow> (None, sc))"

text \<open>A read whose length is compared with what was asked for.\<close>

definition read_exactly :: "sys list \<Rightarrow> nat \<Rightarrow> nat \<Rightarrow> os_file \<Rightarrow> byte list option \<times> sys list" where
  "read_exactly sc n off f =
     (case pread_all sc n off f of
        (Some bs, sc) \<Rightarrow> (if length bs = n then Some bs else None, sc)
      | (None, sc) \<Rightarrow> (None, sc))"

text \<open>Any other call: its answer alone.\<close>

definition sys_call :: "sys list \<Rightarrow> outcome \<times> sys list" where
  "sys_call sc = (case sc of [] \<Rightarrow> (Succeeded, []) | Fails # sc \<Rightarrow> (Failed, sc) | Killed # sc \<Rightarrow> (Dead, sc) | _ # sc \<Rightarrow> (Succeeded, sc))"

definition datasync :: "sys list \<Rightarrow> os_file \<Rightarrow> outcome \<times> sys list \<times> os_file" where
  "datasync sc f =
     (case sys_call sc of
        (Succeeded, sc) \<Rightarrow> (Succeeded, sc, f\<lparr>fl_synced := fl_bytes f\<rparr>)
      | (r, sc) \<Rightarrow> (r, sc, f))"

definition truncate_file :: "sys list \<Rightarrow> nat \<Rightarrow> os_file \<Rightarrow> outcome \<times> sys list \<times> os_file" where
  "truncate_file sc new_size f =
     (case sys_call sc of
        (Succeeded, sc) \<Rightarrow>
          (Succeeded, sc, f\<lparr>fl_bytes := take new_size (fl_bytes f) @ replicate (new_size - length (fl_bytes f)) (CHR 0x00)\<rparr>)
      | (r, sc) \<Rightarrow> (r, sc, f))"

text \<open>Writes one after the other, each at its offset, until one does not succeed.\<close>

fun run_writes :: "sys list \<Rightarrow> (nat \<times> byte list) list \<Rightarrow> os_file \<Rightarrow> outcome \<times> sys list \<times> os_file" where
  "run_writes sc [] f = (Succeeded, sc, f)"
| "run_writes sc ((off, bs) # ws) f =
     (case pwrite_all sc bs off f of
        (Succeeded, sc, f) \<Rightarrow> run_writes sc ws f
      | r \<Rightarrow> r)"

subsection \<open>Records\<close>

definition kSentinelMagic :: nat where "kSentinelMagic = 0x46495850535354"
definition kFormatVersion :: nat where "kFormatVersion = 1"
definition kHeaderSize :: nat where "kHeaderSize = 16"
definition kSentinelPayloadSize :: nat where "kSentinelPayloadSize = 32"
definition kCounterPayloadSize :: nat where "kCounterPayloadSize = 8"
definition kAlignment :: nat where "kAlignment = 8"

text \<open>\<^verbatim>\<open>RecordKind\<close>.\<close>

definition kind_frame :: nat where "kind_frame = 0"
definition kind_sentinel :: nat where "kind_sentinel = 1"
definition kind_counter :: nat where "kind_counter = 2"

record record_header =
  rh_kind :: nat
  rh_dir :: nat
  rh_reserved :: "byte list"
  rh_seq :: nat
  rh_len :: nat
  rh_crc32 :: nat

definition header_bytes :: "record_header \<Rightarrow> byte list" where
  "header_bytes h =
     le_bytes 1 (rh_kind h) @ le_bytes 1 (rh_dir h) @ rh_reserved h @ le_bytes 4 (rh_seq h) @ le_bytes 4 (rh_len h) @
     le_bytes 4 (rh_crc32 h)"

definition header_from :: "byte list \<Rightarrow> record_header" where
  "header_from bs =
     \<lparr>rh_kind = le_value (sub_span bs 0 1), rh_dir = le_value (sub_span bs 1 1), rh_reserved = sub_span bs 2 2,
      rh_seq = le_value (sub_span bs 4 4), rh_len = le_value (sub_span bs 8 4), rh_crc32 = le_value (sub_span bs 12 4)\<rparr>"

definition compute_record_crc32 :: "(nat \<Rightarrow> byte list \<Rightarrow> nat) \<Rightarrow> record_header \<Rightarrow> byte list \<Rightarrow> nat" where
  "compute_record_crc32 crc hdr payload = crc (crc 0 (take (kHeaderSize - 4) (header_bytes hdr))) payload"

definition make_header :: "(nat \<Rightarrow> byte list \<Rightarrow> nat) \<Rightarrow> nat \<Rightarrow> nat \<Rightarrow> nat \<Rightarrow> byte list \<Rightarrow> record_header" where
  "make_header crc kind dir seq payload =
     (let hdr = \<lparr>rh_kind = kind, rh_dir = dir, rh_reserved = [CHR 0x00, CHR 0x00], rh_seq = seq, rh_len = u32 (length payload),
                 rh_crc32 = 0\<rparr>
      in hdr\<lparr>rh_crc32 := compute_record_crc32 crc hdr payload\<rparr>)"

definition sentinel_payload :: "nat \<Rightarrow> byte list" where
  "sentinel_payload hash =
     le_bytes 8 kSentinelMagic @ le_bytes 1 kFormatVersion @ replicate 3 (CHR 0x00) @ le_bytes 4 hash @ replicate 16 (CHR 0x00)"

definition counter_payload :: "nat \<Rightarrow> nat \<Rightarrow> byte list" where
  "counter_payload ni no = le_bytes 4 ni @ le_bytes 4 no"

definition record_padding :: "nat \<Rightarrow> nat" where
  "record_padding payload_len =
     (let total = kHeaderSize + payload_len; aligned = (total + kAlignment - 1) div kAlignment * kAlignment in aligned - total)"

definition record_disk_size :: "nat \<Rightarrow> nat" where
  "record_disk_size payload_len = kHeaderSize + payload_len + record_padding payload_len"

definition dir_byte :: "direction_t \<Rightarrow> nat" where
  "dir_byte dir = (if dir = inbound then 0 else 1)"

subsection \<open>The identity of a session\<close>

definition fnv1a_32 :: "byte list \<Rightarrow> 32 word" where
  "fnv1a_32 s = fold (\<lambda>c h. xor h (word_of_nat (byte_val c)) * 16777619) s 2166136261"

text \<open>The string view of the literal \<^verbatim>\<open>"\x00"\<close> ends at its first byte: it is empty.\<close>

definition session_triple_hash :: "byte list \<Rightarrow> byte list \<Rightarrow> nat" where
  "session_triple_hash sender target = unat (xor (xor (fnv1a_32 sender) (fnv1a_32 [])) (fnv1a_32 target))"

lemma session_triple_hash_less: "session_triple_hash sender target < 2 ^ 32"
  using unsigned_less [of "xor (xor (fnv1a_32 sender) (fnv1a_32 [])) (fnv1a_32 target)"] by (simp add: session_triple_hash_def)

lemma session_triple_hash_commute: "session_triple_hash sender target = session_triple_hash target sender"
  by (simp add: session_triple_hash_def xor.commute xor.left_commute)

subsection \<open>Writing a fresh log\<close>

definition write_sentinel ::
    "(nat \<Rightarrow> byte list \<Rightarrow> nat) \<Rightarrow> nat \<Rightarrow> nat \<Rightarrow> sys list \<Rightarrow> os_file \<Rightarrow> outcome \<times> sys list \<times> os_file" where
  "write_sentinel crc hash off sc f =
     (let pl = sentinel_payload hash; pad = record_padding kSentinelPayloadSize in
      run_writes sc
        ([(off, header_bytes (make_header crc kind_sentinel 255 0 pl)), (off + kHeaderSize, pl)] @
         (if pad > 0 then [(off + kHeaderSize + kSentinelPayloadSize, replicate pad (CHR 0x00))] else [])) f)"

definition write_counter ::
    "(nat \<Rightarrow> byte list \<Rightarrow> nat) \<Rightarrow> nat \<Rightarrow> nat \<Rightarrow> nat \<Rightarrow> sys list \<Rightarrow> os_file \<Rightarrow> outcome \<times> sys list \<times> os_file" where
  "write_counter crc off ni no sc f =
     (let pl = counter_payload ni no in
      run_writes sc [(off, header_bytes (make_header crc kind_counter 255 0 pl)), (off + kHeaderSize, pl)] f)"

definition initialise_fresh ::
    "(nat \<Rightarrow> byte list \<Rightarrow> nat) \<Rightarrow> nat \<Rightarrow> nat \<Rightarrow> nat \<Rightarrow> sys list \<Rightarrow> os_file \<Rightarrow> outcome \<times> sys list \<times> os_file" where
  "initialise_fresh crc hash ni no sc f =
     (case write_sentinel crc hash 0 sc f of
        (Succeeded, sc, f) \<Rightarrow>
          (case write_counter crc (record_disk_size kSentinelPayloadSize) ni no sc f of
             (Succeeded, sc, f) \<Rightarrow> datasync sc f
           | r \<Rightarrow> r)
      | r \<Rightarrow> r)"

definition fresh_end :: nat where
  "fresh_end = record_disk_size kSentinelPayloadSize + record_disk_size kCounterPayloadSize"

subsection \<open>Opening a log\<close>

record index_entry =
  ie_seq :: nat
  ie_file_offset :: nat
  ie_len :: nat

record scan_state =
  sc_inbound :: "index_entry list"
  sc_outbound :: "index_entry list"
  sc_counters :: "(nat \<times> nat) option"

definition index_for :: "scan_state \<Rightarrow> direction_t \<Rightarrow> index_entry list" where
  "index_for st dir = (if dir = inbound then sc_inbound st else sc_outbound st)"

text \<open>The last record of a number wins.\<close>

definition index_frame :: "index_entry \<Rightarrow> index_entry list \<Rightarrow> index_entry list" where
  "index_frame ie idx = (if idx \<noteq> [] \<and> ie_seq (last idx) = ie_seq ie then butlast idx @ [ie] else idx @ [ie])"

definition set_index :: "direction_t \<Rightarrow> index_entry list \<Rightarrow> scan_state \<Rightarrow> scan_state" where
  "set_index dir idx st = (if dir = inbound then st\<lparr>sc_inbound := idx\<rparr> else st\<lparr>sc_outbound := idx\<rparr>)"

definition scan_record :: "record_header \<Rightarrow> nat \<Rightarrow> byte list \<Rightarrow> scan_state \<Rightarrow> scan_state option" where
  "scan_record hdr scan_pos payload st =
     (if rh_kind hdr = kind_frame then
        let ie = \<lparr>ie_seq = rh_seq hdr, ie_file_offset = scan_pos, ie_len = length payload\<rparr>;
            dir = (if rh_dir hdr = 0 then inbound else outbound); idx = index_for st dir in
        if idx \<noteq> [] \<and> ie_seq ie < ie_seq (last idx) then None
        else Some (set_index dir (index_frame ie idx) st)
      else if rh_kind hdr = kind_counter then
        (if length payload = kCounterPayloadSize
         then Some (st\<lparr>sc_counters := Some (le_value (sub_span payload 0 4), le_value (sub_span payload 4 4))\<rparr>)
         else Some st)
      else Some st)"

lemma record_disk_size_ge: "kHeaderSize + n \<le> record_disk_size n" "0 < record_disk_size n"
  by (simp_all add: record_disk_size_def kHeaderSize_def)

text \<open>The result is the end of the last good record (the two positions of the loop are equal
  whenever it is entered) and what was read, or \<open>None\<close> where the code returns false.\<close>

function scan_loop ::
    "(nat \<Rightarrow> byte list \<Rightarrow> nat) \<Rightarrow> nat \<Rightarrow> os_file \<Rightarrow> sys list \<Rightarrow> nat \<Rightarrow> scan_state \<Rightarrow> (nat \<times> scan_state) option \<times> sys list" where
  "scan_loop crc max_bytes f sc scan_pos st =
     (let fsize = length (fl_bytes f) in
      if scan_pos < fsize then
        if fsize - scan_pos < kHeaderSize then (Some (scan_pos, st), sc)
        else case read_exactly sc kHeaderSize scan_pos f of
          (None, sc) \<Rightarrow> (Some (scan_pos, st), sc)
        | (Some hb, sc) \<Rightarrow>
            let hdr = header_from hb; payload_len = rh_len hdr in
            if payload_len > max_bytes then
              (if scan_pos + kHeaderSize < fsize then None else Some (scan_pos, st), sc)
            else
              let disk_size = record_disk_size payload_len in
              if scan_pos + disk_size > fsize then (Some (scan_pos, st), sc)
              else case read_exactly sc payload_len (scan_pos + kHeaderSize) f of
                (None, sc) \<Rightarrow> (Some (scan_pos, st), sc)
              | (Some payload, sc) \<Rightarrow>
                  if rh_crc32 hdr \<noteq> compute_record_crc32 crc hdr payload then
                    (if scan_pos + disk_size < fsize then None else Some (scan_pos, st), sc)
                  else (case scan_record hdr scan_pos payload st of
                          None \<Rightarrow> (None, sc)
                        | Some st \<Rightarrow> scan_loop crc max_bytes f sc (scan_pos + disk_size) st)
      else (Some (scan_pos, st), sc))"
  by pat_completeness auto
termination
  by (relation "measure (\<lambda>(crc, max_bytes, f, sc, scan_pos, st). length (fl_bytes f) - scan_pos)")
     (simp_all add: record_disk_size_ge diff_less_mono2)

declare scan_loop.simps [simp del]

definition check_sentinel :: "(nat \<Rightarrow> byte list \<Rightarrow> nat) \<Rightarrow> nat \<Rightarrow> sys list \<Rightarrow> os_file \<Rightarrow> bool \<times> sys list" where
  "check_sentinel crc hash sc f =
     (case read_exactly sc kHeaderSize 0 f of
        (None, sc) \<Rightarrow> (False, sc)
      | (Some hb, sc) \<Rightarrow>
          let hdr = header_from hb in
          if rh_kind hdr \<noteq> kind_sentinel then (False, sc)
          else if rh_len hdr \<noteq> kSentinelPayloadSize then (False, sc)
          else case read_exactly sc kSentinelPayloadSize kHeaderSize f of
            (None, sc) \<Rightarrow> (False, sc)
          | (Some pl, sc) \<Rightarrow>
              (rh_crc32 hdr = compute_record_crc32 crc hdr pl \<and> le_value (sub_span pl 0 8) = kSentinelMagic \<and>
               le_value (sub_span pl 8 1) = kFormatVersion \<and> le_value (sub_span pl 12 4) = hash, sc))"

record recovered =
  rc_write_pos :: nat
  rc_inbound :: "index_entry list"
  rc_outbound :: "index_entry list"
  rc_next_inbound :: nat
  rc_next_outbound :: nat

definition inferred_next :: "index_entry list \<Rightarrow> nat" where
  "inferred_next idx = (let mx = (if idx = [] then 0 else ie_seq (last idx)) in if mx > 0 then u32 (mx + 1) else seqnum_min)"

definition recovered_of :: "nat \<Rightarrow> scan_state \<Rightarrow> recovered" where
  "recovered_of last_good_pos st =
     (case sc_counters st of
        Some (ni, no) \<Rightarrow>
          \<lparr>rc_write_pos = last_good_pos, rc_inbound = sc_inbound st, rc_outbound = sc_outbound st,
           rc_next_inbound = ni, rc_next_outbound = no\<rparr>
      | None \<Rightarrow>
          \<lparr>rc_write_pos = last_good_pos, rc_inbound = sc_inbound st, rc_outbound = sc_outbound st,
           rc_next_inbound = inferred_next (sc_inbound st), rc_next_outbound = inferred_next (sc_outbound st)\<rparr>)"

text \<open>The scan of an opened file: what was recovered (\<open>None\<close> is a refusal) and the file it leaves.\<close>

definition restart_scan ::
    "(nat \<Rightarrow> byte list \<Rightarrow> nat) \<Rightarrow> nat \<Rightarrow> nat \<Rightarrow> sys list \<Rightarrow> os_file \<Rightarrow> recovered option \<times> os_file" where
  "restart_scan crc hash max_bytes sc f =
     (case sys_call sc of
        (Succeeded, sc) \<Rightarrow>
          let fsize = length (fl_bytes f) in
          if fsize = 0 then
            (case initialise_fresh crc hash seqnum_min seqnum_min sc f of
               (Succeeded, sc, f) \<Rightarrow>
                 (Some \<lparr>rc_write_pos = fresh_end, rc_inbound = [], rc_outbound = [], rc_next_inbound = seqnum_min,
                        rc_next_outbound = seqnum_min\<rparr>, f)
             | (_, sc, f) \<Rightarrow> (None, f))
          else case check_sentinel crc hash sc f of
            (False, sc) \<Rightarrow> (None, f)
          | (True, sc) \<Rightarrow>
              (case scan_loop crc max_bytes f sc (record_disk_size kSentinelPayloadSize)
                      \<lparr>sc_inbound = [], sc_outbound = [], sc_counters = None\<rparr> of
                 (None, sc) \<Rightarrow> (None, f)
               | (Some (last_good_pos, st), sc) \<Rightarrow>
                   if last_good_pos < fsize then
                     (case truncate_file sc last_good_pos f of
                        (Succeeded, sc, f) \<Rightarrow>
                          (case datasync sc f of
                             (Succeeded, sc, f) \<Rightarrow> (Some (recovered_of last_good_pos st), f)
                           | (_, sc, f) \<Rightarrow> (None, f))
                      | (_, sc, f) \<Rightarrow> (None, f))
                   else (Some (recovered_of last_good_pos st), f))
      | (_, sc) \<Rightarrow> (None, f))"

subsection \<open>Logs as lists of records\<close>

datatype log_record = FrameRec direction_t nat "byte list" | CounterRec nat nat

fun rec_payload :: "log_record \<Rightarrow> byte list" where
  "rec_payload (FrameRec dir seq frame) = frame"
| "rec_payload (CounterRec ni no) = counter_payload ni no"

fun rec_header :: "(nat \<Rightarrow> byte list \<Rightarrow> nat) \<Rightarrow> log_record \<Rightarrow> record_header" where
  "rec_header crc (FrameRec dir seq frame) = make_header crc kind_frame (dir_byte dir) seq frame"
| "rec_header crc (CounterRec ni no) = make_header crc kind_counter 255 0 (counter_payload ni no)"

definition encode_record :: "(nat \<Rightarrow> byte list \<Rightarrow> nat) \<Rightarrow> log_record \<Rightarrow> byte list" where
  "encode_record crc r =
     header_bytes (rec_header crc r) @ rec_payload r @ replicate (record_padding (length (rec_payload r))) (CHR 0x00)"

abbreviation encode_records :: "(nat \<Rightarrow> byte list \<Rightarrow> nat) \<Rightarrow> log_record list \<Rightarrow> byte list" where
  "encode_records crc rs \<equiv> concat (map (encode_record crc) rs)"

definition encode_sentinel :: "(nat \<Rightarrow> byte list \<Rightarrow> nat) \<Rightarrow> nat \<Rightarrow> byte list" where
  "encode_sentinel crc hash = header_bytes (make_header crc kind_sentinel 255 0 (sentinel_payload hash)) @ sentinel_payload hash"

abbreviation crc_range :: "(nat \<Rightarrow> byte list \<Rightarrow> nat) \<Rightarrow> bool" where
  "crc_range crc \<equiv> (\<forall>c bs. crc c bs < 2 ^ 32)"

fun record_ok :: "nat \<Rightarrow> log_record \<Rightarrow> bool" where
  "record_ok max_bytes (FrameRec dir seq frame) \<longleftrightarrow> seq < 2 ^ 32 \<and> length frame < 2 ^ 32 \<and> length frame \<le> max_bytes"
| "record_ok max_bytes (CounterRec ni no) \<longleftrightarrow> ni < 2 ^ 32 \<and> no < 2 ^ 32 \<and> kCounterPayloadSize \<le> max_bytes"

lemma length_counter_payload [simp]: "length (counter_payload ni no) = kCounterPayloadSize"
  by (simp add: counter_payload_def kCounterPayloadSize_def)

lemma length_sentinel_payload [simp]: "length (sentinel_payload hash) = kSentinelPayloadSize"
  by (simp add: sentinel_payload_def kSentinelPayloadSize_def)

lemma rh_make_header [simp]:
  "rh_kind (make_header crc kind dir seq pl) = kind" "rh_dir (make_header crc kind dir seq pl) = dir"
  "rh_reserved (make_header crc kind dir seq pl) = [CHR 0x00, CHR 0x00]" "rh_seq (make_header crc kind dir seq pl) = seq"
  "rh_len (make_header crc kind dir seq pl) = u32 (length pl)"
  by (simp_all add: make_header_def Let_def)

lemma length_header_bytes [simp]: "length (header_bytes (make_header crc kind dir seq pl)) = kHeaderSize"
  by (simp add: header_bytes_def kHeaderSize_def)

lemma length_rec_header [simp]: "length (header_bytes (rec_header crc r)) = kHeaderSize"
  by (cases r) simp_all

lemma length_encode_record [simp]: "length (encode_record crc r) = record_disk_size (length (rec_payload r))"
  by (simp add: encode_record_def record_disk_size_def)

lemma length_encode_sentinel [simp]: "length (encode_sentinel crc hash) = record_disk_size kSentinelPayloadSize"
  by (simp add: encode_sentinel_def record_disk_size_def record_padding_def kSentinelPayloadSize_def kHeaderSize_def kAlignment_def)

text \<open>The checksum covers the twelve bytes before it, so storing it does not change it.\<close>

lemma crc_make_header: "compute_record_crc32 crc (make_header crc kind dir seq pl) pl = rh_crc32 (make_header crc kind dir seq pl)"
  by (simp add: make_header_def Let_def compute_record_crc32_def header_bytes_def kHeaderSize_def)

lemma header_from_make:
  assumes "crc_range crc" "kind < 256" "dir < 256" "seq < 2 ^ 32"
  shows "header_from (header_bytes (make_header crc kind dir seq pl)) = make_header crc kind dir seq pl"
proof -
  have c: "rh_crc32 (make_header crc kind dir seq pl) < 256 ^ 4"
    using assms(1) by (simp add: make_header_def Let_def compute_record_crc32_def)
  have l: "u32 (length pl) < 256 ^ 4" by (simp add: u32_def)
  have "header_from (header_bytes (make_header crc kind dir seq pl)) =
      \<lparr>rh_kind = kind, rh_dir = dir, rh_reserved = [CHR 0x00, CHR 0x00], rh_seq = seq, rh_len = u32 (length pl),
       rh_crc32 = rh_crc32 (make_header crc kind dir seq pl)\<rparr>"
    using assms c l by (simp add: header_from_def header_bytes_def sub_span_def le_value_le_bytes)
  then show ?thesis by (simp add: make_header_def Let_def)
qed

lemma rec_header_from:
  assumes "crc_range crc" "record_ok max_bytes r"
  shows "header_from (header_bytes (rec_header crc r)) = rec_header crc r"
    "compute_record_crc32 crc (rec_header crc r) (rec_payload r) = rh_crc32 (rec_header crc r)"
    "rh_len (rec_header crc r) = length (rec_payload r)" "length (rec_payload r) \<le> max_bytes"
  using assms
  by (cases r; simp add: header_from_make crc_make_header kind_frame_def kind_counter_def dir_byte_def kCounterPayloadSize_def)+

lemma read_exactly_ok [simp]: "off + n \<le> length (fl_bytes f) \<Longrightarrow> read_exactly [] n off f = (Some (sub_span (fl_bytes f) off n), [])"
  by (cases n) (simp_all add: read_exactly_def sub_span_def)

lemma sub_span_middle: "sub_span (xs @ ys @ zs) (length xs) (length ys) = ys" "length xs = n \<Longrightarrow> length ys = k \<Longrightarrow> sub_span (xs @ ys @ zs) n k = ys"
  by (simp_all add: sub_span_def)

text \<open>What a scan makes of a record, and of records.\<close>

fun index_record :: "nat \<Rightarrow> log_record \<Rightarrow> scan_state \<Rightarrow> scan_state option" where
  "index_record p0 (FrameRec dir seq frame) st =
     (let idx = index_for st dir in
      if idx \<noteq> [] \<and> seq < ie_seq (last idx) then None
      else Some (set_index dir (index_frame \<lparr>ie_seq = seq, ie_file_offset = p0, ie_len = length frame\<rparr> idx) st))"
| "index_record p0 (CounterRec ni no) st = Some (st\<lparr>sc_counters := Some (ni, no)\<rparr>)"

fun replay :: "nat \<Rightarrow> log_record list \<Rightarrow> scan_state \<Rightarrow> scan_state option" where
  "replay p0 [] st = Some st"
| "replay p0 (r # rs) st =
     (case index_record p0 r st of
        None \<Rightarrow> None
      | Some st \<Rightarrow> replay (p0 + record_disk_size (length (rec_payload r))) rs st)"

lemma replay_append:
  "replay p0 (rs @ rs') st =
     (case replay p0 rs st of None \<Rightarrow> None | Some st \<Rightarrow> replay (p0 + length (encode_records crc rs)) rs' st)"
  by (induction rs arbitrary: p0 st) (auto simp: add.assoc split: option.splits)

lemma scan_record_encoded:
  assumes "record_ok max_bytes r"
  shows "scan_record (rec_header crc r) p0 (rec_payload r) st = index_record p0 r st"
  using assms
proof (cases r)
  case (FrameRec dir seq frame)
  then show ?thesis by (cases dir) (simp_all add: scan_record_def dir_byte_def Let_def kind_frame_def)
next
  case (CounterRec ni no)
  then show ?thesis using assms
    by (simp add: scan_record_def kind_frame_def kind_counter_def counter_payload_def sub_span_def kCounterPayloadSize_def le_value_le_bytes)
qed

lemma scan_loop_record:
  assumes "crc_range crc" "record_ok max_bytes r" "fl_bytes f = pre @ encode_record crc r @ post" "index_record (length pre) r st = Some st'"
  shows "scan_loop crc max_bytes f [] (length pre) st =
    scan_loop crc max_bytes f [] (length pre + record_disk_size (length (rec_payload r))) st'"
proof -
  let ?pad = "replicate (record_padding (length (rec_payload r))) (CHR 0x00)"
  have b: "fl_bytes f = pre @ header_bytes (rec_header crc r) @ (rec_payload r @ ?pad @ post)"
    "fl_bytes f = (pre @ header_bytes (rec_header crc r)) @ rec_payload r @ (?pad @ post)"
    using assms(3) by (simp_all add: encode_record_def)
  have len: "length (fl_bytes f) = length pre + record_disk_size (length (rec_payload r)) + length post" using assms(3) by simp
  note ge = record_disk_size_ge [of "length (rec_payload r)"]
  have "sub_span (fl_bytes f) (length pre) kHeaderSize = header_bytes (rec_header crc r)"
    unfolding b(1) by (rule sub_span_middle(2)) simp_all
  moreover have "sub_span (fl_bytes f) (length pre + kHeaderSize) (length (rec_payload r)) = rec_payload r"
    unfolding b(2) by (rule sub_span_middle(2)) simp_all
  ultimately show ?thesis
    using len ge rec_header_from [OF assms(1,2)] scan_record_encoded [OF assms(2)] assms(4)
    by (subst scan_loop.simps) (simp add: Let_def)
qed

text \<open>A record that was cut short is where a scan stops.\<close>

lemma scan_loop_torn:
  assumes "crc_range crc" "record_ok max_bytes r" "fl_bytes f = pre @ take k (encode_record crc r)" "k < length (encode_record crc r)"
  shows "scan_loop crc max_bytes f [] (length pre) st = (Some (length pre, st), [])"
proof (cases "k < kHeaderSize")
  case True
  then show ?thesis using assms(3,4) by (subst scan_loop.simps) (simp add: Let_def)
next
  case False
  have "fl_bytes f = pre @ header_bytes (rec_header crc r) @ take (k - kHeaderSize) (rec_payload r @ replicate (record_padding (length (rec_payload r))) (CHR 0x00))"
    using assms(3) False by (simp add: encode_record_def)
  then have "sub_span (fl_bytes f) (length pre) kHeaderSize = header_bytes (rec_header crc r)"
    by (metis sub_span_middle(2) length_rec_header)
  then show ?thesis using assms(3,4) False rec_header_from [OF assms(1,2)]
    by (subst scan_loop.simps) (simp add: Let_def)
qed

lemma scan_loop_encoded:
  assumes "crc_range crc" "\<forall>r \<in> set rs. record_ok max_bytes r" "record_ok max_bytes r" "k < length (encode_record crc r)"
    and "fl_bytes f = pre @ encode_records crc rs @ take k (encode_record crc r)" "replay (length pre) rs st = Some st'"
  shows "scan_loop crc max_bytes f [] (length pre) st = (Some (length pre + length (encode_records crc rs), st'), [])"
  using assms(2,5,6)
proof (induction rs arbitrary: pre st)
  case Nil
  then show ?case using scan_loop_torn [OF assms(1,3) _ assms(4)] by simp
next
  case (Cons a rs)
  obtain st1 where 1: "index_record (length pre) a st = Some st1"
      "replay (length pre + record_disk_size (length (rec_payload a))) rs st1 = Some st'"
    using Cons.prems(3) by (auto split: option.splits)
  have "scan_loop crc max_bytes f [] (length pre) st = scan_loop crc max_bytes f [] (length (pre @ encode_record crc a)) st1"
    using scan_loop_record [OF assms(1) _ _ 1(1), of max_bytes f] Cons.prems(1,2) by simp
  also have "\<dots> = (Some (length (pre @ encode_record crc a) + length (encode_records crc rs), st'), [])"
    using Cons.prems(1,2) 1(2) by (intro Cons.IH) simp_all
  finally show ?case by simp
qed

subsection \<open>Opening what was written\<close>

abbreviation scan_start :: scan_state where
  "scan_start \<equiv> \<lparr>sc_inbound = [], sc_outbound = [], sc_counters = None\<rparr>"

abbreviation sentinel_end :: nat where
  "sentinel_end \<equiv> record_disk_size kSentinelPayloadSize"

lemma check_sentinel_encoded:
  assumes "crc_range crc" "hash < 2 ^ 32" "fl_bytes f = encode_sentinel crc hash @ rest"
  shows "check_sentinel crc hash [] f = (True, [])"
proof -
  let ?h = "make_header crc kind_sentinel 255 0 (sentinel_payload hash)"
  have len: "kHeaderSize + kSentinelPayloadSize \<le> length (fl_bytes f)" using assms(3) by (simp add: record_disk_size_def)
  have "sub_span (fl_bytes f) 0 kHeaderSize = header_bytes ?h" "sub_span (fl_bytes f) kHeaderSize kSentinelPayloadSize = sentinel_payload hash"
    using assms(3) by (simp_all add: encode_sentinel_def sub_span_def)
  moreover have "header_from (header_bytes ?h) = ?h" using assms(1) by (intro header_from_make) (simp_all add: kind_sentinel_def)
  moreover have "le_value (sub_span (sentinel_payload hash) 0 8) = kSentinelMagic" "le_value (sub_span (sentinel_payload hash) 8 1) = kFormatVersion"
      "le_value (sub_span (sentinel_payload hash) 12 4) = hash"
    using assms(2) by (simp_all add: sentinel_payload_def sub_span_def le_value_le_bytes kSentinelMagic_def kFormatVersion_def)
  ultimately show ?thesis using len by (simp add: check_sentinel_def Let_def crc_make_header kSentinelPayloadSize_def)
qed

text \<open>A log that was written and perhaps cut inside a last record is recovered up to that record.\<close>

lemma restart_encoded:
  assumes "crc_range crc" "hash < 2 ^ 32" "\<forall>r \<in> set rs. record_ok max_bytes r" "record_ok max_bytes r" "k < length (encode_record crc r)"
    and "fl_bytes f = encode_sentinel crc hash @ encode_records crc rs @ take k (encode_record crc r)"
    and "replay sentinel_end rs scan_start = Some st"
  shows "\<exists>f'. restart_scan crc hash max_bytes [] f =
      (Some (recovered_of (sentinel_end + length (encode_records crc rs)) st), f') \<and>
      fl_bytes f' = encode_sentinel crc hash @ encode_records crc rs \<and> (fl_synced f' = fl_bytes f' \<or> f' = f)"
proof -
  have "scan_loop crc max_bytes f [] sentinel_end scan_start = (Some (sentinel_end + length (encode_records crc rs), st), [])"
    using scan_loop_encoded [OF assms(1,3-6), of scan_start st] assms(7) by simp
  moreover have "length (fl_bytes f) \<noteq> 0" using assms(6) by (simp add: record_disk_size_ge)
  moreover have "length (fl_bytes f) = sentinel_end + length (encode_records crc rs) + min k (length (encode_record crc r))"
    using assms(6) by simp
  moreover have "0 < record_disk_size (length (rec_payload r))" by (rule record_disk_size_ge)
  ultimately show ?thesis using check_sentinel_encoded [OF assms(1,2,6)] assms(6)
    by (cases "k = 0") (auto simp: restart_scan_def sys_call_def Let_def truncate_file_def datasync_def)
qed

text \<open>A log that ends inside its sentinel is refused for good.\<close>

lemma torn_sentinel_refused:
  assumes "fl_bytes f = take k (encode_sentinel crc hash)" "0 < k" "k < sentinel_end"
  shows "restart_scan crc hash max_bytes [] f = (None, f)"
proof -
  have len: "length (fl_bytes f) = k" using assms(1,3) by simp
  have e: "sentinel_end = kHeaderSize + kSentinelPayloadSize"
    by (simp add: record_disk_size_def record_padding_def kSentinelPayloadSize_def kHeaderSize_def kAlignment_def)
  have short: "read_exactly [] n p0 f = (None, [])" if "k < p0 + n" "0 < n" for n p0
    using that len by (cases n) (auto simp: read_exactly_def sub_span_def)
  have "check_sentinel crc hash [] f = (False, [])"
  proof (cases "k < kHeaderSize")
    case True
    then show ?thesis using short [of 0 kHeaderSize] by (simp add: check_sentinel_def kHeaderSize_def)
  next
    case False
    then show ?thesis using short [of kHeaderSize kSentinelPayloadSize] assms(3) len e
      by (simp add: check_sentinel_def Let_def kSentinelPayloadSize_def)
  qed
  then show ?thesis using assms(2) len by (simp add: restart_scan_def sys_call_def Let_def)
qed

subsection \<open>Writing at the end of a file\<close>

lemma file_write_end: "length (fl_bytes f) = off \<Longrightarrow> file_write off bs f = f\<lparr>fl_bytes := fl_bytes f @ bs\<rparr>"
  by (simp add: file_write_def)

lemma pwrite_all_prefix:
  assumes "length (fl_bytes f) = off" "pwrite_all sc bs off f = (r, sc', f')"
  shows "\<exists>k \<le> length bs. f' = f\<lparr>fl_bytes := fl_bytes f @ take k bs\<rparr> \<and> (r = Succeeded \<longrightarrow> k = length bs)"
  using assms
proof (induction sc bs off f arbitrary: r sc' f' rule: pwrite_all.induct)
  case (3 a sc b bs off f)
  show ?case
  proof (cases a)
    case (Moved n)
    let ?m = "min n (length (b # bs))"
    let ?f = "file_write off (take ?m (b # bs)) f"
    have f: "?f = f\<lparr>fl_bytes := fl_bytes f @ take ?m (b # bs)\<rparr>" using 3(3) by (rule file_write_end)
    have "pwrite_all sc (drop ?m (b # bs)) (off + ?m) ?f = (r, sc', f')" using 3(4) Moved by (simp add: Let_def)
    from 3(1) [OF Moved refl _ this] 3(3) f obtain k where
      "k \<le> length (drop ?m (b # bs))" "f' = ?f\<lparr>fl_bytes := fl_bytes ?f @ take k (drop ?m (b # bs))\<rparr>"
      "r = Succeeded \<longrightarrow> k = length (drop ?m (b # bs))" by auto
    then show ?thesis using f by (intro exI [of _ "?m + k"]) (auto simp: take_add)
  next
    case Eintr
    then show ?thesis using 3(2) [OF Eintr 3(3)] 3(4) by simp
  qed (use 3 in \<open>auto intro!: exI [of _ 0]\<close>)
qed (auto simp: file_write_end intro: exI [of _ 0])

fun consecutive :: "nat \<Rightarrow> (nat \<times> byte list) list \<Rightarrow> bool" where
  "consecutive off [] = True"
| "consecutive off ((o1, bs) # ws) \<longleftrightarrow> o1 = off \<and> consecutive (off + length bs) ws"

lemma run_writes_prefix:
  assumes "length (fl_bytes f) = off" "consecutive off ws" "run_writes sc ws f = (r, sc', f')"
  shows "\<exists>k \<le> length (concat (map snd ws)). f' = f\<lparr>fl_bytes := fl_bytes f @ take k (concat (map snd ws))\<rparr> \<and>
    (r = Succeeded \<longrightarrow> k = length (concat (map snd ws)))"
  using assms
proof (induction ws arbitrary: f off sc)
  case (Cons w ws)
  obtain bs where w: "w = (off, bs)" using Cons.prems(2) by (cases w) auto
  obtain r1 sc1 f1 where 1: "pwrite_all sc bs off f = (r1, sc1, f1)" by (metis prod_cases3)
  obtain k where k: "k \<le> length bs" "f1 = f\<lparr>fl_bytes := fl_bytes f @ take k bs\<rparr>" "r1 = Succeeded \<longrightarrow> k = length bs"
    using pwrite_all_prefix [OF Cons.prems(1) 1] by auto
  show ?case
  proof (cases r1)
    case Succeeded
    then have "run_writes sc1 ws f1 = (r, sc', f')" using Cons.prems(3) w 1 by simp
    from Cons.IH [OF _ _ this, of "off + length bs"] Cons.prems(1,2) k Succeeded w obtain j where
      "j \<le> length (concat (map snd ws))" "f' = f1\<lparr>fl_bytes := fl_bytes f1 @ take j (concat (map snd ws))\<rparr>"
      "r = Succeeded \<longrightarrow> j = length (concat (map snd ws))" by auto
    then show ?thesis using k Succeeded w by (intro exI [of _ "length bs + j"]) auto
  qed (use Cons.prems(3) w 1 k in \<open>auto intro!: exI [of _ k]\<close>)
qed auto

text \<open>A prefix of some records is some records and a prefix of the next.\<close>

lemma take_encode_records:
  assumes "k < length (encode_records crc rs)"
  shows "\<exists>n j. n < length rs \<and> j < length (encode_record crc (rs ! n)) \<and>
    take k (encode_records crc rs) = encode_records crc (take n rs) @ take j (encode_record crc (rs ! n))"
  using assms
proof (induction rs arbitrary: k)
  case (Cons r rs)
  show ?case
  proof (cases "k < length (encode_record crc r)")
    case True
    then show ?thesis by (intro exI [of _ 0] exI [of _ k]) simp
  next
    case False
    then have "k - length (encode_record crc r) < length (encode_records crc rs)" using Cons.prems by simp
    from Cons.IH [OF this] obtain n j where "n < length rs" "j < length (encode_record crc (rs ! n))"
      "take (k - length (encode_record crc r)) (encode_records crc rs) = encode_records crc (take n rs) @ take j (encode_record crc (rs ! n))" by blast
    then show ?thesis using False by (intro exI [of _ "Suc n"] exI [of _ j]) simp
  qed
qed simp

end
