(* ===== verification/Fixpp_FileStore.thy ===== *)
theory Fixpp_FileStore
  imports Fixpp_LogFormat
begin

text \<open>
  The persistent store (\<^verbatim>\<open>src/session/file_store.cpp\<close>) and its factory
  (\<^verbatim>\<open>src/session/file_store_factory.cpp\<close>).

  An operation runs on the session's strand and hands its file calls to a job; it holds the
  writer mutex to its end.  Its environment is whether the mutex is granted and the answers of
  the kernel.  When the process ends inside a job the file stays as the calls before left it; the
  store is then one that refuses every operation, as after a failure it could not undo, and the
  result of the operation is not observed by anyone.  Scratch buffers are the values they hold;
  the failure of a rename to become durable (\<^verbatim>\<open>fsync\<close> of the directory) is an answer like another.
\<close>

datatype policy_kind = commit_per_message | commit_batched | commit_interval

record file_policy =
  fp_which :: policy_kind
  fp_batch_size :: nat

record file_config =
  fc_sender :: "byte list"
  fc_target :: "byte list"
  fc_policy :: file_policy
  fc_max_frame_bytes :: nat

record file_store =
  fs_cfg :: file_config
  fs_live :: os_file
  fs_tmp :: "os_file option"
  fs_valid :: bool
  fs_write_pos :: nat
  fs_next_inbound :: nat
  fs_next_outbound :: nat
  fs_open_ok :: bool
  fs_generation :: nat
  fs_inbound_index :: "index_entry list"
  fs_outbound_index :: "index_entry list"

record file_io =
  io_lk :: bool
  io_sys :: "sys list"

definition expected_hash :: "file_store \<Rightarrow> nat" where
  "expected_hash s = session_triple_hash (fc_sender (fs_cfg s)) (fc_target (fs_cfg s))"

definition fs_index :: "file_store \<Rightarrow> direction_t \<Rightarrow> index_entry list" where
  "fs_index s dir = (if dir = inbound then fs_inbound_index s else fs_outbound_index s)"

definition fs_next :: "file_store \<Rightarrow> direction_t \<Rightarrow> nat" where
  "fs_next s dir = (if dir = inbound then fs_next_inbound s else fs_next_outbound s)"

subsection \<open>Jobs\<close>

datatype offload_write_result = write_ok | write_failed | write_failed_unrestored | write_dead

definition restore_committed_end :: "sys list \<Rightarrow> nat \<Rightarrow> os_file \<Rightarrow> offload_write_result \<times> os_file" where
  "restore_committed_end sc committed f =
     (case truncate_file sc committed f of
        (Succeeded, sc, f) \<Rightarrow>
          (case datasync sc f of
             (Succeeded, _, f) \<Rightarrow> (write_failed, f)
           | (Failed, _, f) \<Rightarrow> (write_failed_unrestored, f)
           | (Dead, _, f) \<Rightarrow> (write_dead, f))
      | (Failed, _, f) \<Rightarrow> (write_failed_unrestored, f)
      | (Dead, _, f) \<Rightarrow> (write_dead, f))"

definition write_job :: "sys list \<Rightarrow> (nat \<times> byte list) list \<Rightarrow> bool \<Rightarrow> nat \<Rightarrow> os_file \<Rightarrow> offload_write_result \<times> os_file" where
  "write_job sc ws do_flush committed f =
     (case run_writes sc ws f of
        (Succeeded, sc, f) \<Rightarrow>
          if do_flush then
            (case datasync sc f of
               (Succeeded, _, f) \<Rightarrow> (write_ok, f)
             | (Failed, sc, f) \<Rightarrow> restore_committed_end sc committed f
             | (Dead, _, f) \<Rightarrow> (write_dead, f))
          else (write_ok, f)
      | (Failed, sc, f) \<Rightarrow> restore_committed_end sc committed f
      | (Dead, _, f) \<Rightarrow> (write_dead, f))"

definition counter_writes :: "(nat \<Rightarrow> byte list \<Rightarrow> nat) \<Rightarrow> nat \<Rightarrow> nat \<Rightarrow> nat \<Rightarrow> (nat \<times> byte list) list" where
  "counter_writes crc counter_off ni no =
     (let pl = counter_payload ni no in
      [(counter_off, header_bytes (make_header crc kind_counter 255 0 pl)), (counter_off + kHeaderSize, pl)])"

definition store_writes ::
    "(nat \<Rightarrow> byte list \<Rightarrow> nat) \<Rightarrow> nat \<Rightarrow> direction_t \<Rightarrow> nat \<Rightarrow> byte list \<Rightarrow> nat \<Rightarrow> nat \<Rightarrow> (nat \<times> byte list) list" where
  "store_writes crc frame_off dir seq frame ni no =
     (let pad = record_padding (length frame) in
      [(frame_off, header_bytes (make_header crc kind_frame (dir_byte dir) seq frame))] @
      (if frame \<noteq> [] then [(frame_off + kHeaderSize, frame)] else []) @
      (if pad > 0 then [(frame_off + kHeaderSize + length frame, replicate pad (CHR 0x00))] else []) @
      counter_writes crc (frame_off + record_disk_size (length frame)) ni no)"

definition flush_due :: "file_store \<Rightarrow> bool" where
  "flush_due s =
     (case fp_which (fc_policy (fs_cfg s)) of
        commit_per_message \<Rightarrow> True
      | commit_batched \<Rightarrow>
          let total_after = length (fs_inbound_index s) + length (fs_outbound_index s) + 1;
              bs = fp_batch_size (fc_policy (fs_cfg s))
          in bs > 0 \<and> total_after mod bs = 0
      | commit_interval \<Rightarrow> False)"

text \<open>The store after a job that did not succeed.\<close>

definition after_failure :: "offload_write_result \<Rightarrow> os_file \<Rightarrow> file_store \<Rightarrow> file_store" where
  "after_failure r f s =
     (case r of
        write_failed_unrestored \<Rightarrow> s\<lparr>fs_live := f, fs_open_ok := False\<rparr>
      | write_dead \<Rightarrow> s\<lparr>fs_live := f, fs_open_ok := False, fs_valid := False\<rparr>
      | _ \<Rightarrow> s\<lparr>fs_live := f\<rparr>)"

subsection \<open>Operations\<close>

definition index_store :: "direction_t \<Rightarrow> index_entry \<Rightarrow> file_store \<Rightarrow> file_store" where
  "index_store dir ie s =
     (if dir = inbound then s\<lparr>fs_inbound_index := index_frame ie (fs_inbound_index s)\<rparr>
      else s\<lparr>fs_outbound_index := index_frame ie (fs_outbound_index s)\<rparr>)"

definition fs_store ::
    "(nat \<Rightarrow> byte list \<Rightarrow> nat) \<Rightarrow> file_io \<Rightarrow> nat \<Rightarrow> byte list \<Rightarrow> direction_t \<Rightarrow> file_store \<Rightarrow> unit expected_t \<times> file_store" where
  "fs_store crc io seq frame dir s =
     (if \<not> fs_open_ok s then (unexpected store_io_failure, s)
      else if \<not> io_lk io then (unexpected store_cancelled, s)
      else if seq \<noteq> fs_next s dir then (unexpected store_seqnum_out_of_order, s)
      else if length frame > fc_max_frame_bytes (fs_cfg s) then (unexpected store_io_failure, s)
      else
        let frame_off = fs_write_pos s; counter_off = frame_off + record_disk_size (length frame);
            ni = (if dir = inbound then u32 (fs_next_inbound s + 1) else fs_next_inbound s);
            no = (if dir = outbound then u32 (fs_next_outbound s + 1) else fs_next_outbound s)
        in case write_job (io_sys io) (store_writes crc frame_off dir seq frame ni no) (flush_due s) frame_off (fs_live s) of
             (write_ok, f) \<Rightarrow>
               (ok (), (index_store dir \<lparr>ie_seq = seq, ie_file_offset = frame_off, ie_len = u32 (length frame)\<rparr> s)
                  \<lparr>fs_live := f, fs_next_inbound := ni, fs_next_outbound := no,
                   fs_write_pos := counter_off + record_disk_size kCounterPayloadSize\<rparr>)
           | (r, f) \<Rightarrow> (unexpected store_io_failure, after_failure r f s))"

definition fs_next_seqnum ::
    "(nat \<Rightarrow> byte list \<Rightarrow> nat) \<Rightarrow> file_io \<Rightarrow> direction_t \<Rightarrow> bool \<Rightarrow> file_store \<Rightarrow> nat expected_t \<times> file_store" where
  "fs_next_seqnum crc io dir increment s =
     (if \<not> fs_open_ok s then (unexpected store_io_failure, s)
      else if \<not> io_lk io then (unexpected store_cancelled, s)
      else
        let current = fs_next s dir in
        if increment then
          if current = seqnum_max then (unexpected store_seqnum_overflow, s)
          else
            let s = (if dir = inbound then s\<lparr>fs_next_inbound := u32 (current + 1)\<rparr>
                     else s\<lparr>fs_next_outbound := u32 (current + 1)\<rparr>);
                counter_off = fs_write_pos s
            in case write_job (io_sys io) (counter_writes crc counter_off (fs_next_inbound s) (fs_next_outbound s)) True
                      counter_off (fs_live s) of
                 (write_ok, f) \<Rightarrow>
                   (ok current, s\<lparr>fs_live := f, fs_write_pos := fs_write_pos s + record_disk_size kCounterPayloadSize\<rparr>)
               | (r, f) \<Rightarrow> (unexpected store_io_failure, after_failure r f s)
        else (ok current, s))"

datatype reset_outcome = reset_done | reset_failed_before | reset_failed_after | reset_dead

text \<open>The removal of the temporary log, whose result the code ignores.\<close>

definition unlink_tmp :: "sys list \<Rightarrow> os_file option \<Rightarrow> os_file option" where
  "unlink_tmp sc tmp = (case sys_call sc of (Succeeded, _) \<Rightarrow> None | _ \<Rightarrow> tmp)"

text \<open>The calls after the rename: the directory is opened and synchronised, the live log opened and locked.\<close>

fun after_rename :: "nat \<Rightarrow> sys list \<Rightarrow> reset_outcome" where
  "after_rename 0 sc = reset_done"
| "after_rename (Suc n) sc =
     (case sys_call sc of
        (Succeeded, sc) \<Rightarrow> after_rename n sc
      | (Failed, _) \<Rightarrow> reset_failed_after
      | (Dead, _) \<Rightarrow> reset_dead)"

definition reset_job ::
    "(nat \<Rightarrow> byte list \<Rightarrow> nat) \<Rightarrow> nat \<Rightarrow> nat \<Rightarrow> nat \<Rightarrow> sys list \<Rightarrow> os_file \<Rightarrow> os_file option \<Rightarrow> reset_outcome \<times> os_file \<times> os_file option" where
  "reset_job crc hash next_in next_out sc live tmp =
     (case sys_call sc of
        (Dead, _) \<Rightarrow> (reset_dead, live, tmp)
      | (Failed, _) \<Rightarrow> (reset_failed_before, live, tmp)
      | (Succeeded, sc) \<Rightarrow>
          (case initialise_fresh crc hash next_in next_out sc \<lparr>fl_bytes = [], fl_synced = []\<rparr> of
             (Dead, _, f) \<Rightarrow> (reset_dead, live, Some f)
           | (Failed, sc, f) \<Rightarrow> (reset_failed_before, live, unlink_tmp sc (Some f))
           | (Succeeded, sc, f) \<Rightarrow>
               (case sys_call sc of
                  (Dead, _) \<Rightarrow> (reset_dead, live, Some f)
                | (Failed, sc) \<Rightarrow> (reset_failed_before, live, unlink_tmp sc (Some f))
                | (Succeeded, sc) \<Rightarrow> (after_rename 4 sc, f, None))))"

definition reset_store_to ::
    "(nat \<Rightarrow> byte list \<Rightarrow> nat) \<Rightarrow> file_io \<Rightarrow> nat \<Rightarrow> nat \<Rightarrow> file_store \<Rightarrow> unit expected_t \<times> file_store" where
  "reset_store_to crc io next_in next_out s =
     (if \<not> fs_open_ok s then (unexpected store_io_failure, s)
      else if \<not> io_lk io then (unexpected store_cancelled, s)
      else case reset_job crc (expected_hash s) next_in next_out (io_sys io) (fs_live s) (fs_tmp s) of
        (outcome, live, tmp) \<Rightarrow>
          let s = s\<lparr>fs_live := live, fs_tmp := tmp\<rparr> in
          case outcome of
            reset_failed_before \<Rightarrow> (unexpected store_io_failure, s)
          | reset_done \<Rightarrow>
              (ok (), s\<lparr>fs_generation := u64 (fs_generation s + 1), fs_inbound_index := [], fs_outbound_index := [],
                        fs_write_pos := fresh_end, fs_next_inbound := next_in, fs_next_outbound := next_out\<rparr>)
          | _ \<Rightarrow> (unexpected store_io_failure, s\<lparr>fs_valid := False, fs_open_ok := False\<rparr>))"

definition fs_reset :: "(nat \<Rightarrow> byte list \<Rightarrow> nat) \<Rightarrow> file_io \<Rightarrow> file_store \<Rightarrow> unit expected_t \<times> file_store" where
  "fs_reset crc io s = reset_store_to crc io seqnum_min seqnum_min s"

definition fs_reset_to :: "(nat \<Rightarrow> byte list \<Rightarrow> nat) \<Rightarrow> file_io \<Rightarrow> nat \<Rightarrow> nat \<Rightarrow> file_store \<Rightarrow> unit expected_t \<times> file_store" where
  "fs_reset_to crc io next_in next_out s =
     (if \<not> reset_to_targets_valid next_in next_out then (unexpected session_invalid_argument, s)
      else reset_store_to crc io next_in next_out s)"

definition flush_for_session_close :: "file_io \<Rightarrow> file_store \<Rightarrow> unit expected_t \<times> file_store" where
  "flush_for_session_close io s =
     (if \<not> fs_open_ok s \<and> \<not> fs_valid s then (ok (), s)
      else case datasync (io_sys io) (fs_live s) of
        (r, _, f) \<Rightarrow>
          (if r = Succeeded \<and> fs_open_ok s then ok () else unexpected store_io_failure,
           s\<lparr>fs_live := f, fs_open_ok := (fs_open_ok s \<and> r \<noteq> Dead), fs_valid := (fs_valid s \<and> r \<noteq> Dead)\<rparr>))"

subsection \<open>Retrieval\<close>

datatype file_op =
    FsStore file_io nat "byte list" direction_t
  | FsNext file_io direction_t bool
  | FsReset file_io
  | FsResetTo file_io nat nat
  | FsFlush file_io

fun fs_apply :: "(nat \<Rightarrow> byte list \<Rightarrow> nat) \<Rightarrow> file_op \<Rightarrow> file_store \<Rightarrow> file_store" where
  "fs_apply crc (FsStore io seq frame dir) s = snd (fs_store crc io seq frame dir s)"
| "fs_apply crc (FsNext io dir increment) s = snd (fs_next_seqnum crc io dir increment s)"
| "fs_apply crc (FsReset io) s = snd (fs_reset crc io s)"
| "fs_apply crc (FsResetTo io next_in next_out) s = snd (fs_reset_to crc io next_in next_out s)"
| "fs_apply crc (FsFlush io) s = snd (flush_for_session_close io s)"

text \<open>The copy of the index under the mutex; its counter is a 32-bit register.\<close>

partial_function (option) fs_snapshot ::
    "index_entry list \<Rightarrow> nat \<Rightarrow> nat \<Rightarrow> index_entry list \<Rightarrow> (index_entry list \<times> bool) option" where
  "fs_snapshot idx s tail_end snap =
     (if s \<le> tail_end then
        if idx = [] \<or> s < ie_seq (hd idx) then Some (snap, True)
        else
          let i = s - ie_seq (hd idx) in
          if i \<ge> length idx \<or> ie_seq (idx ! i) \<noteq> s then Some (snap, True)
          else fs_snapshot idx (u32 (s + 1)) tail_end (snap @ [idx ! i])
      else Some (snap, False))"

text \<open>The walk carries the answers to its reads beside the store.\<close>

definition read_frame_payload :: "index_entry \<Rightarrow> file_store \<times> sys list \<Rightarrow> byte list option \<times> file_store \<times> sys list" where
  "read_frame_payload ie st =
     (case st of (s, sc) \<Rightarrow>
        if \<not> fs_valid s then (None, s, sc)
        else case read_exactly sc (ie_len ie) (ie_file_offset ie + kHeaderSize) (fs_live s) of (r, sc) \<Rightarrow> (r, s, sc))"

definition fs_retrieve ::
    "(nat \<Rightarrow> byte list \<Rightarrow> nat) \<Rightarrow> ('v, file_op) retrieve_visitor \<Rightarrow> file_io \<Rightarrow> nat \<Rightarrow> nat \<Rightarrow> direction_t \<Rightarrow> 'v \<Rightarrow> file_store \<Rightarrow>
     (unit expected_t \<times> (nat \<times> byte list) list \<times> 'v \<times> file_store) option" where
  "fs_retrieve crc visitor io first fin dir v s =
     (if \<not> fs_open_ok s then Some (unexpected store_io_failure, [], v, s)
      else if first = 0 then Some (unexpected store_seqnum_invalid, [], v, s)
      else if fin \<noteq> 0 \<and> fin < first then Some (unexpected store_invalid_range, [], v, s)
      else if \<not> io_lk io then Some (unexpected store_cancelled, [], v, s)
      else
        let g0 = fs_generation s; tail_end = range_end (fs_next s dir) fin in
        if first > tail_end \<or> tail_end < seqnum_min then Some (ok (), [], v, s)
        else case fs_snapshot (fs_index s dir) first tail_end [] of
          None \<Rightarrow> None
        | Some (snap, gap_hit) \<Rightarrow>
            (case visit_walk visitor (\<lambda>(s, sc). fs_generation s) (\<lambda>ops (s, sc). (fold (fs_apply crc) ops s, sc))
                    read_frame_payload ie_seq g0 snap v (s, io_sys io) [] of
               (Some r, seen, v, s, sc) \<Rightarrow> Some (r, seen, v, s)
             | (None, seen, v, s, sc) \<Rightarrow> Some (if gap_hit then unexpected store_seqnum_gap else ok (), seen, v, s)))"

subsection \<open>Opening\<close>

text \<open>The result of opening: the store, or the files it leaves when it is refused.\<close>

definition open_log ::
    "(nat \<Rightarrow> byte list \<Rightarrow> nat) \<Rightarrow> file_config \<Rightarrow> sys list \<Rightarrow> os_file \<Rightarrow> os_file option \<Rightarrow> file_store option \<times> os_file \<times> os_file option" where
  "open_log crc cfg sc live tmp =
     (case sys_call sc of
        (Succeeded, sc) \<Rightarrow>
          (case sys_call sc of
             (Succeeded, sc) \<Rightarrow>
               (case restart_scan crc (session_triple_hash (fc_sender cfg) (fc_target cfg)) (fc_max_frame_bytes cfg) sc live of
                  (Some rc, live) \<Rightarrow>
                    (Some \<lparr>fs_cfg = cfg, fs_live = live, fs_tmp = None, fs_valid = True, fs_write_pos = rc_write_pos rc,
                           fs_next_inbound = rc_next_inbound rc, fs_next_outbound = rc_next_outbound rc, fs_open_ok = True,
                           fs_generation = 0, fs_inbound_index = rc_inbound rc, fs_outbound_index = rc_outbound rc\<rparr>, live, None)
                | (None, live) \<Rightarrow> (None, live, None))
           | _ \<Rightarrow> (None, live, tmp))
      | _ \<Rightarrow> (None, live, tmp))"

definition has_control :: "byte list \<Rightarrow> bool" where
  "has_control compid \<longleftrightarrow> (\<exists>c \<in> set compid. byte_val c < 0x20 \<or> byte_val c = 0x7F)"

text \<open>\<open>name_max\<close> is what \<^verbatim>\<open>pathconf\<close> answers for the directory, \<open>None\<close> when it fails.\<close>

definition validate_compid_filesystem_safety :: "byte list \<Rightarrow> nat option \<Rightarrow> byte list \<Rightarrow> error option" where
  "validate_compid_filesystem_safety compid name_max other_compid =
     (if compid = [] then Some store_factory_failed
      else if CHR 0x00 \<in> set compid then Some store_factory_failed
      else if CHR ''/'' \<in> set compid then Some store_factory_failed
      else if compid = ''.'' \<or> compid = ''..'' then Some store_factory_failed
      else if has_control compid then Some store_factory_failed
      else
        let composed_len = length compid + 2 + length other_compid + 4 in
        if composed_len > (case name_max of None \<Rightarrow> 255 | Some n \<Rightarrow> n) then Some store_factory_failed
        else None)"

definition log_filename :: "byte list \<Rightarrow> byte list \<Rightarrow> byte list" where
  "log_filename sender target = sender @ ''__'' @ target @ ''.log''"

text \<open>The factory, on a directory whose entry of that name is \<open>live\<close> (and \<open>tmp\<close> beside it); the
  executors are given or not.\<close>

definition file_factory_make ::
    "(nat \<Rightarrow> byte list \<Rightarrow> nat) \<Rightarrow> file_config \<Rightarrow> byte list \<Rightarrow> byte list \<Rightarrow> nat option \<Rightarrow> bool \<Rightarrow> sys list \<Rightarrow> os_file \<Rightarrow> os_file option \<Rightarrow>
     file_store expected_t" where
  "file_factory_make crc cfg sender target name_max has_executor sc live tmp =
     (if fc_max_frame_bytes cfg > default_max_frame_bytes then unexpected store_factory_failed
      else if fp_which (fc_policy cfg) = commit_interval then unexpected store_factory_failed
      else case validate_compid_filesystem_safety sender name_max target of
        Some e \<Rightarrow> unexpected e
      | None \<Rightarrow>
          (case validate_compid_filesystem_safety target name_max sender of
             Some e \<Rightarrow> unexpected e
           | None \<Rightarrow>
               if \<not> has_executor then unexpected store_factory_failed
               else (case open_log crc (cfg\<lparr>fc_sender := sender, fc_target := target\<rparr>) sc live tmp of
                       (Some s, _) \<Rightarrow> ok s
                     | (None, _) \<Rightarrow> unexpected store_factory_failed)))"

subsection \<open>What records stand for\<close>

type_synonym logs = "direction_t \<Rightarrow> (nat \<times> byte list) list"

fun rec_step :: "log_record \<Rightarrow> logs \<Rightarrow> logs" where
  "rec_step (FrameRec dir seq frame) l = l(dir := log_put seq frame (l dir))"
| "rec_step (CounterRec ni no) l = l"

abbreviation logs_of :: "log_record list \<Rightarrow> logs" where
  "logs_of rs \<equiv> fold rec_step rs (\<lambda>_. [])"

fun count_step :: "log_record \<Rightarrow> (nat \<times> nat) option \<Rightarrow> (nat \<times> nat) option" where
  "count_step (FrameRec dir seq frame) n = n"
| "count_step (CounterRec ni no) n = Some (ni, no)"

abbreviation counters_of :: "log_record list \<Rightarrow> (nat \<times> nat) option" where
  "counters_of rs \<equiv> fold count_step rs None"

text \<open>The frames an index points to.\<close>

definition frame_at :: "os_file \<Rightarrow> index_entry \<Rightarrow> nat \<times> byte list" where
  "frame_at f ie = (ie_seq ie, sub_span (fl_bytes f) (ie_file_offset ie + kHeaderSize) (ie_len ie))"

definition fs_log :: "file_store \<Rightarrow> logs" where
  "fs_log s dir = map (frame_at (fs_live s)) (fs_index s dir)"

lemma map_index_frame: "map g (index_frame ie idx) = log_put (ie_seq ie) frame (map g idx)"
  if "g ie = (ie_seq ie, frame)" "\<forall>x. fst (g x) = ie_seq x"
  using that by (cases idx rule: rev_cases) (auto simp: index_frame_def log_put_def)

lemma fst_frame_at [simp]: "fst (frame_at f ie) = ie_seq ie"
  by (simp add: frame_at_def)

lemma index_for_set_index [simp]: "index_for (set_index dir idx st) = (index_for st)(dir := idx)"
proof
  fix d show "index_for (set_index dir idx st) d = ((index_for st)(dir := idx)) d"
    by (cases d; cases dir) (simp_all add: index_for_def set_index_def)
qed

lemma sc_counters_set_index [simp]: "sc_counters (set_index dir idx st) = sc_counters st"
  by (simp add: set_index_def)

lemma index_for_counters [simp]: "index_for (st\<lparr>sc_counters := c\<rparr>) = index_for st"
  by (simp add: index_for_def fun_eq_iff)

definition entry_within :: "nat \<Rightarrow> index_entry \<Rightarrow> bool" where
  "entry_within n ie \<longleftrightarrow> ie_file_offset ie + kHeaderSize + ie_len ie \<le> n"

lemma replay_logs:
  assumes "replay sentinel_end rs scan_start = Some st" "fl_bytes f = encode_sentinel crc hash @ encode_records crc rs @ rest"
  shows "map (frame_at f) (index_for st dir) = logs_of rs dir" "sc_counters st = counters_of rs"
    "\<forall>ie \<in> set (index_for st dir). entry_within (sentinel_end + length (encode_records crc rs)) ie"
  using assms
proof (induction rs arbitrary: st rest dir rule: rev_induct)
  case Nil
  { case 1 then show ?case by (auto simp: index_for_def) }
  { case 2 then show ?case by auto }
  { case 3 then show ?case by (auto simp: index_for_def) }
next
  case (snoc r rs)
  let ?p = "sentinel_end + length (encode_records crc rs)"
  have *: "\<exists>st1. replay sentinel_end rs scan_start = Some st1 \<and> index_record ?p r st1 = Some st"
    if "replay sentinel_end (rs @ [r]) scan_start = Some st" for st
    using that by (auto simp: replay_append [where crc = crc] split: option.splits)
  have all: "map (frame_at f) (index_for st dir) = logs_of (rs @ [r]) dir \<and> sc_counters st = counters_of (rs @ [r]) \<and>
      (\<forall>ie \<in> set (index_for st dir). entry_within (sentinel_end + length (encode_records crc (rs @ [r]))) ie)"
    if rp: "replay sentinel_end (rs @ [r]) scan_start = Some st"
      and b: "fl_bytes f = encode_sentinel crc hash @ encode_records crc (rs @ [r]) @ rest" for st rest dir
  proof -
    obtain st1 where st1: "replay sentinel_end rs scan_start = Some st1" "index_record ?p r st1 = Some st" using * [OF rp] by auto
    have b': "fl_bytes f = encode_sentinel crc hash @ encode_records crc rs @ (encode_record crc r @ rest)" using b by simp
    note IH = snoc.IH [OF st1(1) b']
    have mono: "entry_within ?p ie \<Longrightarrow> entry_within (sentinel_end + length (encode_records crc (rs @ [r]))) ie" for ie
      by (simp add: entry_within_def)
    show ?thesis
    proof (cases r)
      case (FrameRec d seq frame)
      let ?ie = "\<lparr>ie_seq = seq, ie_file_offset = ?p, ie_len = length frame\<rparr>"
      have st: "index_for st = (index_for st1)(d := index_frame ?ie (index_for st1 d))" "sc_counters st = sc_counters st1"
        using st1(2) FrameRec by (auto simp: Let_def split: if_splits)
      have "fl_bytes f = (encode_sentinel crc hash @ encode_records crc rs @ header_bytes (rec_header crc r)) @ frame @
          (replicate (record_padding (length frame)) (CHR 0x00) @ rest)"
        using b' FrameRec by (simp add: encode_record_def)
      then have "sub_span (fl_bytes f) (?p + kHeaderSize) (length frame) = frame"
        by (metis (no_types, lifting) sub_span_middle(2) length_append length_encode_sentinel length_rec_header add.assoc)
      then have "frame_at f ?ie = (ie_seq ?ie, frame)" by (simp add: frame_at_def)
      then have "map (frame_at f) (index_frame ?ie (index_for st1 d)) = log_put seq frame (logs_of rs d)"
        using IH(1) by (subst map_index_frame [where frame = frame]) simp_all
      moreover have "entry_within (sentinel_end + length (encode_records crc (rs @ [r]))) ?ie"
        using record_disk_size_ge(1) [of "length frame"] FrameRec by (simp add: entry_within_def)
      moreover have "set (index_frame ?ie (index_for st1 d)) \<subseteq> insert ?ie (set (index_for st1 d))"
        by (auto simp: index_frame_def dest: in_set_butlastD)
      ultimately show ?thesis using FrameRec st IH mono by (auto simp: fun_eq_iff)
    next
      case (CounterRec ni no)
      then show ?thesis using st1(2) IH mono by auto
    qed
  qed
  { case 1 from all [OF 1] show ?case by (rule conjunct1) }
  { case 2 from all [OF 2, of inbound] show ?case by (elim conjE) }
  { case 3 from all [OF 3, of dir] show ?case by (elim conjE) }
qed

text \<open>Whether records can be replayed depends on their numbers alone.\<close>

lemma replay_snoc:
  assumes "replay sentinel_end rs scan_start = Some st" "logs_of rs = l"
  shows "replay sentinel_end (rs @ [CounterRec ni no]) scan_start \<noteq> None"
    "(l dir \<noteq> [] \<Longrightarrow> fst (last (l dir)) \<le> seq) \<Longrightarrow> replay sentinel_end (rs @ [FrameRec dir seq frame]) scan_start \<noteq> None"
proof -
  let ?crc = "\<lambda>c bs. 0 :: nat" and ?f = "\<lparr>fl_bytes = encode_sentinel (\<lambda>c bs. 0) 0 @ encode_records (\<lambda>c bs. 0) rs, fl_synced = []\<rparr>"
  have m: "map (frame_at ?f) (index_for st dir) = l dir"
    using replay_logs(1) [OF assms(1), of ?f ?crc 0 "[]"] assms(2) by simp
  show "replay sentinel_end (rs @ [CounterRec ni no]) scan_start \<noteq> None"
    using assms(1) by (simp add: replay_append [where crc = ?crc])
  assume "l dir \<noteq> [] \<Longrightarrow> fst (last (l dir)) \<le> seq"
  then have "index_for st dir \<noteq> [] \<Longrightarrow> ie_seq (last (index_for st dir)) \<le> seq"
    unfolding m [symmetric] by (simp add: last_map)
  then show "replay sentinel_end (rs @ [FrameRec dir seq frame]) scan_start \<noteq> None"
    using assms(1) by (auto simp: replay_append [where crc = ?crc] Let_def)
qed

subsection \<open>Jobs at the end of a log\<close>

lemma write_job_prefix:
  assumes "length (fl_bytes f) = committed" "consecutive committed ws" "write_job sc ws fl committed f = (r, f')"
  shows "r = write_ok \<Longrightarrow> fl_bytes f' = fl_bytes f @ concat (map snd ws) \<and> (fl \<longrightarrow> fl_synced f' = fl_bytes f')"
    and "r = write_failed \<Longrightarrow> fl_bytes f' = fl_bytes f \<and> fl_synced f' = fl_bytes f'"
    and "\<exists>k \<le> length (concat (map snd ws)). fl_bytes f' = fl_bytes f @ take k (concat (map snd ws))"
proof -
  obtain r1 sc1 f1 where 1: "run_writes sc ws f = (r1, sc1, f1)" by (metis prod_cases3)
  obtain k where k: "k \<le> length (concat (map snd ws))" "f1 = f\<lparr>fl_bytes := fl_bytes f @ take k (concat (map snd ws))\<rparr>"
      "r1 = Succeeded \<longrightarrow> k = length (concat (map snd ws))"
    using run_writes_prefix [OF assms(1,2) 1] by auto
  have rs: "(r = write_failed \<longrightarrow> fl_bytes f' = fl_bytes f \<and> fl_synced f' = fl_bytes f') \<and> r \<noteq> write_ok \<and>
      (fl_bytes f' = fl_bytes f \<or> fl_bytes f' = fl_bytes f1)"
    if "restore_committed_end sc2 committed f1 = (r, f')" for sc2
    using that assms(1) k(1,2) unfolding restore_committed_end_def truncate_file_def datasync_def
    by (auto split: prod.splits outcome.splits)
  have "(r = write_ok \<longrightarrow> fl_bytes f' = fl_bytes f1 \<and> r1 = Succeeded \<and> (fl \<longrightarrow> fl_synced f' = fl_bytes f')) \<and>
      (r = write_failed \<longrightarrow> fl_bytes f' = fl_bytes f \<and> fl_synced f' = fl_bytes f') \<and>
      (fl_bytes f' = fl_bytes f \<or> fl_bytes f' = fl_bytes f1)"
    using assms(3) 1 rs unfolding write_job_def datasync_def
    by (auto split: prod.splits outcome.splits if_splits)
  then show "r = write_ok \<Longrightarrow> fl_bytes f' = fl_bytes f @ concat (map snd ws) \<and> (fl \<longrightarrow> fl_synced f' = fl_bytes f')"
    "r = write_failed \<Longrightarrow> fl_bytes f' = fl_bytes f \<and> fl_synced f' = fl_bytes f'"
    "\<exists>k \<le> length (concat (map snd ws)). fl_bytes f' = fl_bytes f @ take k (concat (map snd ws))"
    using k by (auto intro: exI [of _ 0] exI [of _ k])
qed

lemma counter_padding: "record_padding kCounterPayloadSize = 0"
  by (simp add: record_padding_def kCounterPayloadSize_def kHeaderSize_def kAlignment_def)

lemma counter_writes_encode:
  "concat (map snd (counter_writes crc off ni no)) = encode_records crc [CounterRec ni no]" "consecutive off (counter_writes crc off ni no)"
  by (simp_all add: counter_writes_def Let_def encode_record_def counter_padding)

lemma store_writes_encode:
  "concat (map snd (store_writes crc off dir seq frame ni no)) = encode_records crc [FrameRec dir seq frame, CounterRec ni no]"
  "consecutive off (store_writes crc off dir seq frame ni no)"
  using counter_writes_encode [where off = "off + record_disk_size (length frame)"]
  by (auto simp: store_writes_def Let_def encode_record_def record_disk_size_def add.assoc)

subsection \<open>What a file holds\<close>

definition cfg_ok :: "file_config \<Rightarrow> bool" where
  "cfg_ok cfg \<longleftrightarrow> kCounterPayloadSize \<le> fc_max_frame_bytes cfg \<and> fc_max_frame_bytes cfg < 2 ^ 32"

definition log_bytes :: "(nat \<Rightarrow> byte list \<Rightarrow> nat) \<Rightarrow> file_config \<Rightarrow> log_record list \<Rightarrow> byte list" where
  "log_bytes crc cfg rs = encode_sentinel crc (session_triple_hash (fc_sender cfg) (fc_target cfg)) @ encode_records crc rs"

fun rec_ok :: "file_config \<Rightarrow> log_record \<Rightarrow> bool" where
  "rec_ok cfg (FrameRec dir seq frame) \<longleftrightarrow> record_ok (fc_max_frame_bytes cfg) (FrameRec dir seq frame) \<and> 1 \<le> seq"
| "rec_ok cfg (CounterRec ni no) \<longleftrightarrow> record_ok (fc_max_frame_bytes cfg) (CounterRec ni no) \<and> 1 \<le> ni \<and> 1 \<le> no"

lemma rec_ok_record: "rec_ok cfg r \<Longrightarrow> record_ok (fc_max_frame_bytes cfg) r"
  by (cases r) auto

text \<open>Records that can be replayed, the last counters among them \<open>n\<close>.\<close>

definition recs_ok :: "file_config \<Rightarrow> log_record list \<Rightarrow> nat \<times> nat \<Rightarrow> bool" where
  "recs_ok cfg rs n \<longleftrightarrow>
     (\<forall>r \<in> set rs. rec_ok cfg r) \<and> replay sentinel_end rs scan_start \<noteq> None \<and> counters_of rs = Some n"

text \<open>A file of records, perhaps with a torn last one.\<close>

definition recoverable :: "(nat \<Rightarrow> byte list \<Rightarrow> nat) \<Rightarrow> file_config \<Rightarrow> os_file \<Rightarrow> log_record list \<Rightarrow> nat \<times> nat \<Rightarrow> bool" where
  "recoverable crc cfg f rs n \<longleftrightarrow> recs_ok cfg rs n \<and>
     (\<exists>r k. record_ok (fc_max_frame_bytes cfg) r \<and> k < length (encode_record crc r) \<and>
        fl_bytes f = log_bytes crc cfg rs @ take k (encode_record crc r))"

text \<open>The next numbers are not behind the records.\<close>

definition in_order :: "log_record list \<Rightarrow> (direction_t \<Rightarrow> nat) \<Rightarrow> bool" where
  "in_order rs nx \<longleftrightarrow>
     (\<forall>d. 1 \<le> nx d \<and> nx d \<le> seqnum_max \<and> (\<forall>e \<in> set (logs_of rs d). 1 \<le> fst e) \<and>
          (logs_of rs d \<noteq> [] \<longrightarrow> fst (last (logs_of rs d)) \<le> nx d))"

text \<open>What an opened store keeps in memory beside it.\<close>

definition mirrors :: "(nat \<Rightarrow> byte list \<Rightarrow> nat) \<Rightarrow> log_record list \<Rightarrow> file_store \<Rightarrow> bool" where
  "mirrors crc rs s \<longleftrightarrow>
     fs_valid s \<and> fl_bytes (fs_live s) = log_bytes crc (fs_cfg s) rs \<and> fs_write_pos s = length (fl_bytes (fs_live s)) \<and>
     (\<exists>st. replay sentinel_end rs scan_start = Some st \<and> fs_index s = index_for st) \<and>
     in_order rs (fs_next s)"

definition holds :: "(nat \<Rightarrow> byte list \<Rightarrow> nat) \<Rightarrow> file_store \<Rightarrow> log_record list \<Rightarrow> nat \<times> nat \<Rightarrow> bool" where
  "holds crc s rs n \<longleftrightarrow> recoverable crc (fs_cfg s) (fs_live s) rs n \<and> (fs_open_ok s \<longrightarrow> mirrors crc rs s)"

definition fs_inv :: "(nat \<Rightarrow> byte list \<Rightarrow> nat) \<Rightarrow> file_store \<Rightarrow> bool" where
  "fs_inv crc s \<longleftrightarrow> crc_range crc \<and> cfg_ok (fs_cfg s) \<and> (\<exists>rs n. holds crc s rs n)"

text \<open>What an observer sees of a store, and of the store that the next process opens.\<close>

definition seen_of :: "file_store \<Rightarrow> logs \<times> nat \<times> nat" where
  "seen_of s = (fs_log s, fs_next_inbound s, fs_next_outbound s)"

definition reopened :: "(nat \<Rightarrow> byte list \<Rightarrow> nat) \<Rightarrow> file_store \<Rightarrow> file_store option" where
  "reopened crc s = fst (open_log crc (fs_cfg s) [] (fs_live s) (fs_tmp s))"

lemma mirrors_log: "mirrors crc rs s \<Longrightarrow> fs_log s = logs_of rs"
proof
  fix d
  assume m: "mirrors crc rs s"
  then obtain st where st: "replay sentinel_end rs scan_start = Some st" "fs_index s = index_for st" by (auto simp: mirrors_def)
  from m have b: "fl_bytes (fs_live s) = encode_sentinel crc (session_triple_hash (fc_sender (fs_cfg s)) (fc_target (fs_cfg s))) @ encode_records crc rs @ []"
    by (simp add: mirrors_def log_bytes_def)
  show "fs_log s d = logs_of rs d" using replay_logs(1) [OF st(1) b] st(2) by (simp add: fs_log_def)
qed

lemma counter_record_ok: "cfg_ok cfg \<Longrightarrow> ni < 2 ^ 32 \<Longrightarrow> no < 2 ^ 32 \<Longrightarrow> record_ok (fc_max_frame_bytes cfg) (CounterRec ni no)"
  by (simp add: cfg_ok_def)

lemma recoverable_plain:
  assumes "cfg_ok cfg" "recs_ok cfg rs n" "fl_bytes f = log_bytes crc cfg rs"
  shows "recoverable crc cfg f rs n"
  unfolding recoverable_def
  by (rule conjI [OF assms(2)], intro exI [of _ "CounterRec 0 0"] exI [of _ 0])
    (use assms counter_record_ok [OF assms(1), of 0 0] record_disk_size_ge in \<open>simp add: record_disk_size_def kHeaderSize_def\<close>)

text \<open>Reopening recovers the records, and with the numbers in order the store is whole again.\<close>

lemma reopened_recovers:
  assumes "crc_range crc" "recoverable crc (fs_cfg s) (fs_live s) rs (ni, no)"
  obtains s' where "reopened crc s = Some s'" "seen_of s' = (logs_of rs, ni, no)" "fs_open_ok s'" "fs_cfg s' = fs_cfg s"
    "fl_bytes (fs_live s') = log_bytes crc (fs_cfg s) rs"
    "in_order rs (fs_next s') \<longrightarrow> mirrors crc rs s'"
proof -
  let ?h = "session_triple_hash (fc_sender (fs_cfg s)) (fc_target (fs_cfg s))"
  obtain r k st where r: "record_ok (fc_max_frame_bytes (fs_cfg s)) r" "k < length (encode_record crc r)"
    "fl_bytes (fs_live s) = encode_sentinel crc ?h @ encode_records crc rs @ take k (encode_record crc r)"
    and rs: "\<forall>r \<in> set rs. record_ok (fc_max_frame_bytes (fs_cfg s)) r" "replay sentinel_end rs scan_start = Some st" "counters_of rs = Some (ni, no)"
    using assms(2) by (auto simp: recoverable_def recs_ok_def log_bytes_def rec_ok_record)
  obtain f' where f': "restart_scan crc ?h (fc_max_frame_bytes (fs_cfg s)) [] (fs_live s) =
      (Some (recovered_of (sentinel_end + length (encode_records crc rs)) st), f')"
      "fl_bytes f' = encode_sentinel crc ?h @ encode_records crc rs @ []"
    using restart_encoded [OF assms(1) session_triple_hash_less rs(1) r rs(2)] by auto
  define s' where "s' = the (reopened crc s)"
  note lg = replay_logs [OF rs(2) f'(2)]
  have s': "reopened crc s = Some s'" "fs_live s' = f'" "fs_index s' = index_for st" "fs_open_ok s'" "fs_cfg s' = fs_cfg s" "fs_valid s'"
    "fs_next_inbound s' = ni" "fs_next_outbound s' = no" "fs_write_pos s' = sentinel_end + length (encode_records crc rs)"
    unfolding s'_def reopened_def open_log_def using f'(1) lg(2) rs(3)
    by (auto simp: sys_call_def recovered_of_def fs_index_def index_for_def fun_eq_iff)
  show thesis
  proof (rule that [OF s'(1) _ s'(4,5)])
    show "seen_of s' = (logs_of rs, ni, no)" using s' lg(1) by (auto simp: seen_of_def fs_log_def)
    show b: "fl_bytes (fs_live s') = log_bytes crc (fs_cfg s) rs" using s' f'(2) by (simp add: log_bytes_def)
    have "length (log_bytes crc (fs_cfg s) rs) = sentinel_end + length (encode_records crc rs)" by (simp add: log_bytes_def)
    then show "in_order rs (fs_next s') \<longrightarrow> mirrors crc rs s'"
      unfolding mirrors_def using s' b rs(2) by simp
  qed
qed

lemma recs_ok_numbers:
  assumes "recs_ok cfg rs (ni, no)"
  shows "1 \<le> ni" "ni \<le> seqnum_max" "1 \<le> no" "no \<le> seqnum_max" "\<forall>e \<in> set (logs_of rs d). 1 \<le> fst e"
proof -
  have ok: "\<forall>r \<in> set rs. rec_ok cfg r" "counters_of rs = Some (ni, no)" using assms by (auto simp: recs_ok_def)
  then have "CounterRec ni no \<in> set rs"
  proof (induction rs rule: rev_induct)
    case (snoc r rs) then show ?case by (cases r) auto
  qed simp
  then have "rec_ok cfg (CounterRec ni no)" using ok(1) by blast
  then show "1 \<le> ni" "ni \<le> seqnum_max" "1 \<le> no" "no \<le> seqnum_max" by (auto simp: seqnum_max_def)
  show "\<forall>e \<in> set (logs_of rs d). 1 \<le> fst e" using ok(1)
  proof (induction rs rule: rev_induct)
    case (snoc r rs) then show ?case by (cases r) (auto simp: log_put_def dest: in_set_butlastD)
  qed simp
qed

subsection \<open>Records written at the end\<close>

lemma replay_prefix: "replay p0 (rs @ rs') st \<noteq> None \<Longrightarrow> replay p0 rs st \<noteq> None"
  by (auto simp: replay_append [where crc = "\<lambda>c bs. 0"] split: option.splits)

lemma counters_of_append: "counters_of rs \<noteq> None \<Longrightarrow> counters_of (rs @ rs') \<noteq> None"
proof (induction rs' rule: rev_induct)
  case (snoc r rs')
  then show ?case by (cases r) auto
qed simp

text \<open>A prefix of new records is recoverable up to one of them.\<close>

lemma recoverable_prefix:
  assumes "cfg_ok cfg" "recs_ok cfg rs n" "\<forall>r \<in> set new. rec_ok cfg r" "replay sentinel_end (rs @ new) scan_start \<noteq> None"
    and "fl_bytes f = log_bytes crc cfg rs @ take k (encode_records crc new)"
  shows "\<exists>i n'. i \<le> length new \<and> recoverable crc cfg f (rs @ take i new) n'"
proof -
  have ok: "\<exists>n'. recs_ok cfg (rs @ take i new) n'" for i
  proof -
    have "rs @ new = (rs @ take i new) @ drop i new" by simp
    then have "replay sentinel_end (rs @ take i new) scan_start \<noteq> None" using assms(4) replay_prefix by metis
    moreover have "counters_of (rs @ take i new) \<noteq> None" using assms(2) by (intro counters_of_append) (simp add: recs_ok_def)
    ultimately show ?thesis using assms(2,3) by (auto simp: recs_ok_def dest: in_set_takeD)
  qed
  show ?thesis
  proof (cases "k < length (encode_records crc new)")
    case True
    from take_encode_records [OF this] obtain i j where i: "i < length new" "j < length (encode_record crc (new ! i))"
      "take k (encode_records crc new) = encode_records crc (take i new) @ take j (encode_record crc (new ! i))" by blast
    obtain n' where n': "recs_ok cfg (rs @ take i new) n'" using ok by blast
    have "recoverable crc cfg f (rs @ take i new) n'"
      unfolding recoverable_def using n' i assms(3,5)
      by (auto simp: log_bytes_def rec_ok_record intro!: exI [of _ "new ! i"] exI [of _ j])
    then show ?thesis using i(1) less_imp_le by blast
  next
    case False
    obtain n' where n': "recs_ok cfg (rs @ new) n'" using ok [of "length new"] by auto
    have "fl_bytes f = log_bytes crc cfg (rs @ new)" using False assms(5) by (simp add: log_bytes_def)
    from recoverable_plain [OF assms(1) n' this] show ?thesis by (intro exI [of _ "length new"] exI [of _ n']) simp
  qed
qed

text \<open>One job: it writes the new records, or leaves the old ones, or ends with some of the new ones.\<close>

lemma write_job_records:
  assumes "cfg_ok cfg" "recs_ok cfg rs n" "\<forall>r \<in> set new. rec_ok cfg r" "replay sentinel_end (rs @ new) scan_start \<noteq> None"
    and f: "fl_bytes f = log_bytes crc cfg rs" and c: "committed = length (fl_bytes f)"
    and w: "concat (map snd ws) = encode_records crc new" "consecutive committed ws" and j: "write_job sc ws fl committed f = (r, f')"
  shows "r = write_ok \<Longrightarrow> fl_bytes f' = log_bytes crc cfg (rs @ new) \<and> (fl \<longrightarrow> fl_synced f' = fl_bytes f')"
    and "r = write_failed \<Longrightarrow> fl_bytes f' = log_bytes crc cfg rs \<and> fl_synced f' = fl_bytes f'"
    and "\<exists>i n'. i \<le> length new \<and> recoverable crc cfg f' (rs @ take i new) n'"
proof -
  note p = write_job_prefix [OF c [symmetric] w(2) j]
  show "r = write_ok \<Longrightarrow> fl_bytes f' = log_bytes crc cfg (rs @ new) \<and> (fl \<longrightarrow> fl_synced f' = fl_bytes f')"
    "r = write_failed \<Longrightarrow> fl_bytes f' = log_bytes crc cfg rs \<and> fl_synced f' = fl_bytes f'"
    using p(1,2) f w(1) by (auto simp: log_bytes_def)
  obtain k where "fl_bytes f' = log_bytes crc cfg rs @ take k (encode_records crc new)" using p(3) f w(1) by auto
  from recoverable_prefix [OF assms(1-4) this] show "\<exists>i n'. i \<le> length new \<and> recoverable crc cfg f' (rs @ take i new) n'" .
qed

subsection \<open>Storing\<close>

text \<open>The counters a store writes behind a frame.\<close>

definition next_after :: "file_store \<Rightarrow> direction_t \<Rightarrow> nat \<times> nat" where
  "next_after s dir =
     (if dir = inbound then (fs_next_inbound s + 1, fs_next_outbound s) else (fs_next_inbound s, fs_next_outbound s + 1))"

lemma fs_next_simps [simp]: "fs_next s inbound = fs_next_inbound s" "fs_next s outbound = fs_next_outbound s"
  by (simp_all add: fs_next_def)

lemma fs_next_cong: "fs_next_inbound s' = fs_next_inbound s \<Longrightarrow> fs_next_outbound s' = fs_next_outbound s \<Longrightarrow> fs_next s' = fs_next s"
  by (simp add: fs_next_def fun_eq_iff)

lemma fs_index_cong: "fs_inbound_index s' = fs_inbound_index s \<Longrightarrow> fs_outbound_index s' = fs_outbound_index s \<Longrightarrow> fs_index s' = fs_index s"
  by (simp add: fs_index_def fun_eq_iff)

lemma fs_index_index_store: "fs_index (index_store dir ie s) = (fs_index s)(dir := index_frame ie (fs_index s dir))"
proof
  fix d show "fs_index (index_store dir ie s) d = ((fs_index s)(dir := index_frame ie (fs_index s dir))) d"
    by (cases d; cases dir) (simp_all add: fs_index_def index_store_def)
qed

lemma index_store_simps [simp]:
  "fs_cfg (index_store dir ie s) = fs_cfg s" "fs_live (index_store dir ie s) = fs_live s" "fs_tmp (index_store dir ie s) = fs_tmp s"
  "fs_valid (index_store dir ie s) = fs_valid s" "fs_open_ok (index_store dir ie s) = fs_open_ok s"
  "fs_generation (index_store dir ie s) = fs_generation s"
  by (simp_all add: index_store_def)

text \<open>A job that failed and was undone leaves a store that holds what it held; one that was not leaves
  a store that refuses.\<close>

lemma after_failure_holds:
  assumes "cfg_ok (fs_cfg s)" "recs_ok (fs_cfg s) rs n" "mirrors crc rs s" "r \<noteq> write_ok"
    and "r = write_failed \<Longrightarrow> fl_bytes f = log_bytes crc (fs_cfg s) rs"
    and "recoverable crc (fs_cfg s) f rs' n'"
  shows "fs_open_ok (after_failure r f s) \<Longrightarrow> fs_open_ok s \<Longrightarrow> holds crc (after_failure r f s) rs n"
    and "\<not> fs_open_ok (after_failure r f s) \<Longrightarrow> holds crc (after_failure r f s) rs' n'"
proof -
  have eq: "fs_next (s\<lparr>fs_live := f\<rparr>) = fs_next s" "fs_index (s\<lparr>fs_live := f\<rparr>) = fs_index s"
    by (auto simp: fs_next_def fs_index_def fun_eq_iff)
  show "fs_open_ok (after_failure r f s) \<Longrightarrow> fs_open_ok s \<Longrightarrow> holds crc (after_failure r f s) rs n"
    using assms(1-5) recoverable_plain [OF assms(1,2)] eq
    by (cases r) (auto simp: after_failure_def holds_def mirrors_def)
  show "\<not> fs_open_ok (after_failure r f s) \<Longrightarrow> holds crc (after_failure r f s) rs' n'"
    using assms(6) by (cases r) (auto simp: after_failure_def holds_def)
qed

lemma in_order_frame:
  assumes "in_order rs nx" "seq = nx dir" "seq \<noteq> seqnum_max" "\<forall>d. nx' d = (if d = dir then seq + 1 else nx d)"
  shows "in_order (rs @ [FrameRec dir seq frame, CounterRec ni no]) nx'"
proof -
  have d: "1 \<le> nx d" "nx d \<le> seqnum_max" "\<forall>e \<in> set (logs_of rs d). 1 \<le> fst e" "logs_of rs d \<noteq> [] \<longrightarrow> fst (last (logs_of rs d)) \<le> nx d" for d
    using assms(1) by (auto simp: in_order_def)
  have "seq + 1 \<le> seqnum_max" using d(2) [of dir] assms(2,3) by linarith
  moreover have "set (log_put seq frame l) \<subseteq> insert (seq, frame) (set l)" "last (log_put seq frame l) = (seq, frame)" for l :: "(nat \<times> byte list) list"
    by (auto simp: log_put_def dest: in_set_butlastD)
  moreover from this(1) [of "logs_of rs dir"] have "\<forall>e \<in> set (log_put seq frame (logs_of rs dir)). 1 \<le> fst e"
    using d(1,3) [of dir] assms(2) by auto
  ultimately show ?thesis unfolding in_order_def using assms(4) d by auto
qed

text \<open>A store that was granted its mutex and got past its checks, on every outcome of its job.\<close>

abbreviation frame_recs :: "file_store \<Rightarrow> direction_t \<Rightarrow> nat \<Rightarrow> byte list \<Rightarrow> log_record list" where
  "frame_recs s dir seq frame \<equiv> [FrameRec dir seq frame, CounterRec (fst (next_after s dir)) (snd (next_after s dir))]"

lemma next_after_less:
  assumes "in_order rs (fs_next s)" "fs_next s dir \<noteq> seqnum_max"
  shows "fst (next_after s dir) < 2 ^ 32" "snd (next_after s dir) < 2 ^ 32" "1 \<le> fst (next_after s dir)" "1 \<le> snd (next_after s dir)"
    "next_after s dir = (if dir = inbound then u32 (fs_next_inbound s + 1) else fs_next_inbound s,
       if dir = outbound then u32 (fs_next_outbound s + 1) else fs_next_outbound s)"
proof -
  have "\<forall>d. fs_next s d \<le> seqnum_max" using assms(1) by (auto simp: in_order_def)
  from this [rule_format, of inbound] this [rule_format, of outbound]
  have "fs_next_inbound s < 2 ^ 32" "fs_next_outbound s < 2 ^ 32" "fs_next s dir + 1 < 2 ^ 32"
    using assms(2) \<open>\<forall>d. fs_next s d \<le> seqnum_max\<close> [rule_format, of dir] by (auto simp: seqnum_max_def)
  moreover have "1 \<le> fs_next s d" for d using assms(1) by (simp add: in_order_def)
  from this [of inbound] this [of outbound] have "1 \<le> fs_next_inbound s" "1 \<le> fs_next_outbound s" by simp_all
  ultimately show "fst (next_after s dir) < 2 ^ 32" "snd (next_after s dir) < 2 ^ 32" "1 \<le> fst (next_after s dir)" "1 \<le> snd (next_after s dir)"
    "next_after s dir = (if dir = inbound then u32 (fs_next_inbound s + 1) else fs_next_inbound s,
       if dir = outbound then u32 (fs_next_outbound s + 1) else fs_next_outbound s)"
    by (cases dir; auto simp: next_after_def u32_id)+
qed

lemma frame_recs_ok:
  assumes "cfg_ok (fs_cfg s)" "recs_ok (fs_cfg s) rs n" "in_order rs (fs_next s)" "seq = fs_next s dir" "seq \<noteq> seqnum_max"
    and "length frame \<le> fc_max_frame_bytes (fs_cfg s)"
  shows "\<forall>r \<in> set (frame_recs s dir seq frame). rec_ok (fs_cfg s) r"
    "replay sentinel_end (rs @ frame_recs s dir seq frame) scan_start \<noteq> None"
    "recs_ok (fs_cfg s) (rs @ frame_recs s dir seq frame) (next_after s dir)"
proof -
  have "seq < 2 ^ 32" "1 \<le> seq" using spec [OF assms(3) [unfolded in_order_def], of dir] assms(4) by (simp_all add: seqnum_max_def)
  then show 1: "\<forall>r \<in> set (frame_recs s dir seq frame). rec_ok (fs_cfg s) r"
    using assms(1,6) next_after_less [OF assms(3)] assms(4,5) by (auto simp: cfg_ok_def)
  obtain st where st: "replay sentinel_end rs scan_start = Some st" using assms(2) by (auto simp: recs_ok_def)
  have "replay sentinel_end (rs @ [FrameRec dir seq frame]) scan_start \<noteq> None"
    using assms(3,4) by (intro replay_snoc(2) [OF st refl]) (auto simp: in_order_def)
  then obtain st1 where "replay sentinel_end (rs @ [FrameRec dir seq frame]) scan_start = Some st1" by auto
  from replay_snoc(1) [OF this refl] show 2: "replay sentinel_end (rs @ frame_recs s dir seq frame) scan_start \<noteq> None" by simp
  show "recs_ok (fs_cfg s) (rs @ frame_recs s dir seq frame) (next_after s dir)"
    using 1 2 assms(2) by (auto simp: recs_ok_def)
qed

text \<open>The checks of a store, and its job.\<close>

lemma fs_store_unfold:
  assumes "in_order rs (fs_next s)" "fs_open_ok s" "seq \<noteq> seqnum_max" "fs_store crc io seq frame dir s = (res, s')"
  obtains (refused) e where "res = unexpected e" "s' = s"
  | (job) r f where "seq = fs_next s dir" "length frame \<le> fc_max_frame_bytes (fs_cfg s)"
      "write_job (io_sys io) (store_writes crc (fs_write_pos s) dir seq frame (fst (next_after s dir)) (snd (next_after s dir)))
         (flush_due s) (fs_write_pos s) (fs_live s) = (r, f)"
      "res = (if r = write_ok then ok () else unexpected store_io_failure)"
      "s' = (if r = write_ok then
               (index_store dir \<lparr>ie_seq = seq, ie_file_offset = fs_write_pos s, ie_len = u32 (length frame)\<rparr> s)
                  \<lparr>fs_live := f, fs_next_inbound := fst (next_after s dir), fs_next_outbound := snd (next_after s dir),
                   fs_write_pos := fs_write_pos s + record_disk_size (length frame) + record_disk_size kCounterPayloadSize\<rparr>
             else after_failure r f s)"
proof (cases "io_lk io \<and> seq = fs_next s dir \<and> length frame \<le> fc_max_frame_bytes (fs_cfg s)")
  case True
  note n = next_after_less(5) [OF assms(1), of dir]
  obtain r f where j: "write_job (io_sys io) (store_writes crc (fs_write_pos s) dir seq frame (fst (next_after s dir)) (snd (next_after s dir)))
         (flush_due s) (fs_write_pos s) (fs_live s) = (r, f)" by fastforce
  show thesis
  proof (rule job [OF _ _ j])
    show "seq = fs_next s dir" "length frame \<le> fc_max_frame_bytes (fs_cfg s)" using True by auto
    show "res = (if r = write_ok then ok () else unexpected store_io_failure)"
      "s' = (if r = write_ok then
               (index_store dir \<lparr>ie_seq = seq, ie_file_offset = fs_write_pos s, ie_len = u32 (length frame)\<rparr> s)
                  \<lparr>fs_live := f, fs_next_inbound := fst (next_after s dir), fs_next_outbound := snd (next_after s dir),
                   fs_write_pos := fs_write_pos s + record_disk_size (length frame) + record_disk_size kCounterPayloadSize\<rparr>
             else after_failure r f s)"
      using assms(2-4) True j n unfolding fs_store_def Let_def by (cases r; auto)+
  qed
next
  case False
  then show thesis using assms(2,4) refused by (auto simp: fs_store_def split: if_splits)
qed

text \<open>A store on every outcome of its job: done; undone; or with the store lost and some of the
  records on the disk.\<close>

lemma stored_mirrors:
  assumes "mirrors crc rs s" "seq = fs_next s dir" "seq \<noteq> seqnum_max" "length frame < 2 ^ 32"
    and s': "s' = (index_store dir \<lparr>ie_seq = seq, ie_file_offset = fs_write_pos s, ie_len = u32 (length frame)\<rparr> s)
                  \<lparr>fs_live := f, fs_next_inbound := fst (next_after s dir), fs_next_outbound := snd (next_after s dir),
                   fs_write_pos := fs_write_pos s + record_disk_size (length frame) + record_disk_size kCounterPayloadSize\<rparr>"
    and f: "fl_bytes f = log_bytes crc (fs_cfg s) (rs @ frame_recs s dir seq frame)"
  shows "mirrors crc (rs @ frame_recs s dir seq frame) s'" "fs_next s' = (fs_next s)(dir := seq + 1)"
proof -
  let ?ie = "\<lparr>ie_seq = seq, ie_file_offset = fs_write_pos s, ie_len = length frame\<rparr>"
  from assms(1) obtain st where m: "fs_valid s" "fl_bytes (fs_live s) = log_bytes crc (fs_cfg s) rs" "fs_write_pos s = length (log_bytes crc (fs_cfg s) rs)"
    "replay sentinel_end rs scan_start = Some st" "fs_index s = index_for st" "in_order rs (fs_next s)" by (auto simp: mirrors_def)
  show nx: "fs_next s' = (fs_next s)(dir := seq + 1)"
  proof
    fix d show "fs_next s' d = ((fs_next s)(dir := seq + 1)) d"
      using assms(2) by (cases d; cases dir) (simp_all add: s' next_after_def)
  qed
  have ix: "fs_index s' = (index_for st)(dir := index_frame ?ie (index_for st dir))"
  proof -
    have "fs_index s' = fs_index (index_store dir ?ie s)" using assms(4) by (intro fs_index_cong) (simp_all add: s' u32_id)
    then show ?thesis using m(5) by (simp add: fs_index_index_store)
  qed
  have wp: "fs_write_pos s = sentinel_end + length (encode_records crc rs)" using m(3) by (simp add: log_bytes_def)
  have "\<exists>st1. replay sentinel_end (rs @ [FrameRec dir seq frame]) scan_start = Some st1"
    using replay_snoc(2) [OF m(4) refl, of dir seq frame] m(6) assms(2) by (auto simp: in_order_def)
  then obtain st1 where st1: "index_record (fs_write_pos s) (FrameRec dir seq frame) st = Some st1"
    using m(4) wp by (auto simp: replay_append [where crc = crc] split: option.splits)
  then have "index_for st1 = fs_index s'" unfolding ix by (auto simp: Let_def split: if_splits)
  then have "\<exists>st'. replay sentinel_end (rs @ frame_recs s dir seq frame) scan_start = Some st' \<and> fs_index s' = index_for st'"
    using st1 m(4) wp by (auto simp: replay_append [where crc = crc])
  moreover have "in_order (rs @ frame_recs s dir seq frame) (fs_next s')"
    using nx by (intro in_order_frame [OF m(6) assms(2,3)]) simp
  moreover have "fs_write_pos s' = length (fl_bytes f)" unfolding f using m(3) by (simp add: s' log_bytes_def)
  ultimately show "mirrors crc (rs @ frame_recs s dir seq frame) s'" using m(1) f unfolding mirrors_def by (simp add: s')
qed

lemma fs_store_step:
  assumes inv: "crc_range crc" "cfg_ok (fs_cfg s)" "holds crc s rs n" and op: "fs_open_ok s" and seq: "seq \<noteq> seqnum_max"
    and st: "fs_store crc io seq frame dir s = (res, s')"
  obtains (stored) "res = ok ()" "seq = fs_next s dir" "fs_open_ok s'" "holds crc s' (rs @ frame_recs s dir seq frame) (next_after s dir)"
      "fs_next s' = (fs_next s)(dir := seq + 1)"
  | (undone) e where "res = unexpected e" "fs_open_ok s'" "holds crc s' rs n" "fs_next s' = fs_next s"
  | (lost) e i n' where "res = unexpected e" "\<not> fs_open_ok s'" "seq = fs_next s dir" "i \<le> 2" "holds crc s' (rs @ take i (frame_recs s dir seq frame)) n'"
proof -
  have m: "mirrors crc rs s" "recs_ok (fs_cfg s) rs n" using inv(3) op by (auto simp: holds_def recoverable_def)
  then have ord: "in_order rs (fs_next s)" by (simp add: mirrors_def)
  show thesis using ord op seq st
  proof (cases rule: fs_store_unfold)
    case (refused e)
    then show thesis using undone inv(3) op by simp
  next
    case (job r f)
    note fr = frame_recs_ok [OF inv(2) m(2) ord job(1) seq job(2)]
    have b: "fl_bytes (fs_live s) = log_bytes crc (fs_cfg s) rs" "fs_write_pos s = length (fl_bytes (fs_live s))" using m(1) by (auto simp: mirrors_def)
    note wj = write_job_records [OF inv(2) m(2) fr(1,2) b store_writes_encode job(3)]
    show thesis
    proof (cases "r = write_ok")
      case True
      have len: "length frame < 2 ^ 32" using job(2) inv(2) by (simp add: cfg_ok_def)
      have f: "fl_bytes f = log_bytes crc (fs_cfg s) (rs @ frame_recs s dir seq frame)" using wj(1) True by simp
      note sm = stored_mirrors [OF m(1) job(1) seq len job(5) [unfolded if_P [OF True]] f]
      have "fs_cfg s' = fs_cfg s" "fs_live s' = f" "fs_open_ok s'" using job(5) True op by simp_all
      then show thesis using True job(1,4) sm recoverable_plain [OF inv(2) fr(3) f] by (intro stored) (simp_all add: holds_def)
    next
      case False
      obtain i n' where i: "i \<le> 2" "recoverable crc (fs_cfg s) f (rs @ take i (frame_recs s dir seq frame)) n'" using wj(3) by (auto simp: numeral_2_eq_2)
      note af = after_failure_holds [OF inv(2) m(2) m(1) False conjunct1 [OF wj(2)] i(2)]
      have s': "s' = after_failure r f s" "res = unexpected store_io_failure" using job(4,5) False by auto
      have "fs_next s' = fs_next s" unfolding s'(1) by (cases r) (auto simp: after_failure_def fs_next_def fun_eq_iff)
      then show thesis using s' af op i(1) undone lost job(1) by (cases "fs_open_ok s'") auto
    qed
  qed
qed

subsection \<open>Counting\<close>

lemma in_order_bump:
  assumes "in_order rs nx" "nx dir \<noteq> seqnum_max"
  shows "in_order rs (nx(dir := nx dir + 1))"
proof -
  have d: "1 \<le> nx d" "nx d \<le> seqnum_max" "\<forall>e \<in> set (logs_of rs d). 1 \<le> fst e" "logs_of rs d \<noteq> [] \<longrightarrow> fst (last (logs_of rs d)) \<le> nx d" for d
    using assms(1) by (auto simp: in_order_def)
  have "nx dir + 1 \<le> seqnum_max" using d(2) [of dir] assms(2) by linarith
  then show ?thesis unfolding in_order_def using d by (auto simp: le_Suc_eq)
qed

text \<open>The store with the number of a direction passed, before and after its record is written.\<close>

abbreviation bumped :: "file_store \<Rightarrow> direction_t \<Rightarrow> file_store" where
  "bumped s dir \<equiv> s\<lparr>fs_next_inbound := fst (next_after s dir), fs_next_outbound := snd (next_after s dir)\<rparr>"

abbreviation counter_rec :: "file_store \<Rightarrow> direction_t \<Rightarrow> log_record" where
  "counter_rec s dir \<equiv> CounterRec (fst (next_after s dir)) (snd (next_after s dir))"

lemma fs_next_bumped: "fs_next (bumped s dir) = (fs_next s)(dir := fs_next s dir + 1)"
proof
  fix d show "fs_next (bumped s dir) d = ((fs_next s)(dir := fs_next s dir + 1)) d" by (cases d; cases dir) (simp_all add: next_after_def)
qed

lemma bumped_mirrors:
  assumes "mirrors crc rs s" "fs_next s dir \<noteq> seqnum_max"
  shows "mirrors crc rs (bumped s dir)"
    and "fl_bytes f = log_bytes crc (fs_cfg s) (rs @ [counter_rec s dir]) \<Longrightarrow>
      s' = (bumped s dir)\<lparr>fs_live := f, fs_write_pos := fs_write_pos s + record_disk_size kCounterPayloadSize\<rparr> \<Longrightarrow>
      mirrors crc (rs @ [counter_rec s dir]) s' \<and> fs_next s' = (fs_next s)(dir := fs_next s dir + 1)"
proof -
  have ord: "in_order rs (fs_next (bumped s dir))"
    unfolding fs_next_bumped using assms by (intro in_order_bump) (auto simp: mirrors_def)
  have "fs_index (bumped s dir) = fs_index s" by (rule fs_index_cong) simp_all
  then show "mirrors crc rs (bumped s dir)" using assms(1) ord by (simp add: mirrors_def)
  assume f: "fl_bytes f = log_bytes crc (fs_cfg s) (rs @ [counter_rec s dir])"
    and s': "s' = (bumped s dir)\<lparr>fs_live := f, fs_write_pos := fs_write_pos s + record_disk_size kCounterPayloadSize\<rparr>"
  obtain st1 where st1: "replay sentinel_end rs scan_start = Some st1" "fs_index s = index_for st1" using assms(1) by (auto simp: mirrors_def)
  have sel: "fs_cfg s' = fs_cfg s" "fs_live s' = f" "fs_valid s' = fs_valid s"
    "fs_write_pos s' = fs_write_pos s + record_disk_size kCounterPayloadSize" by (simp_all add: s')
  have ix: "fs_index s' = fs_index s" by (simp add: s' fs_index_def fun_eq_iff)
  have nx: "fs_next s' = fs_next (bumped s dir)" by (simp add: s' fs_next_def fun_eq_iff)
  have "in_order (rs @ [counter_rec s dir]) (fs_next s')" using ord unfolding nx by (simp add: in_order_def)
  moreover have "\<exists>st. replay sentinel_end (rs @ [counter_rec s dir]) scan_start = Some st \<and> fs_index s' = index_for st"
    using st1 ix by (simp add: replay_append [where crc = crc])
  moreover have "length (fl_bytes f) = fs_write_pos s + record_disk_size kCounterPayloadSize"
    using assms(1) unfolding f by (simp add: mirrors_def log_bytes_def)
  ultimately show "mirrors crc (rs @ [counter_rec s dir]) s' \<and> fs_next s' = (fs_next s)(dir := fs_next s dir + 1)"
    using assms(1) f nx fs_next_bumped [of s dir] unfolding mirrors_def sel by simp
qed

lemma fs_next_unfold:
  assumes "in_order rs (fs_next s)" "fs_open_ok s" "fs_next_seqnum crc io dir increment s = (res, s')"
  obtains (peeked) "res = ok (fs_next s dir)" "\<not> increment" "s' = s"
  | (refused) e where "res = unexpected e" "s' = s"
  | (job) r f where "increment" "fs_next s dir \<noteq> seqnum_max"
      "write_job (io_sys io) (counter_writes crc (fs_write_pos s) (fst (next_after s dir)) (snd (next_after s dir)))
         True (fs_write_pos s) (fs_live s) = (r, f)"
      "res = (if r = write_ok then ok (fs_next s dir) else unexpected store_io_failure)"
      "s' = (if r = write_ok then (bumped s dir)\<lparr>fs_live := f, fs_write_pos := fs_write_pos s + record_disk_size kCounterPayloadSize\<rparr>
             else after_failure r f (bumped s dir))"
proof (cases "io_lk io \<and> increment \<and> fs_next s dir \<noteq> seqnum_max")
  case True
  have na: "next_after s dir = (if dir = inbound then u32 (fs_next_inbound s + 1) else fs_next_inbound s,
     if dir = outbound then u32 (fs_next_outbound s + 1) else fs_next_outbound s)" using True by (intro next_after_less(5) [OF assms(1)]) simp
  obtain r f where j: "write_job (io_sys io) (counter_writes crc (fs_write_pos s) (fst (next_after s dir)) (snd (next_after s dir)))
       True (fs_write_pos s) (fs_live s) = (r, f)" by fastforce
  have s1: "(if dir = inbound then s\<lparr>fs_next_inbound := u32 (fs_next s dir + 1)\<rparr> else s\<lparr>fs_next_outbound := u32 (fs_next s dir + 1)\<rparr>) = bumped s dir"
    unfolding na by (cases dir) (cases s, simp)+
  show thesis
    by (rule job [OF _ _ j])
      (use assms(2,3) True j in \<open>unfold fs_next_seqnum_def Let_def s1; cases r; simp\<close>)+
next
  case False
  then have "res = ok (fs_next s dir) \<and> \<not> increment \<and> s' = s \<or> (\<exists>e. res = unexpected e \<and> s' = s)"
    using assms(2,3) by (cases "io_lk io"; cases increment) (auto simp: fs_next_seqnum_def)
  then show thesis using peeked refused by blast
qed

lemma fs_next_step:
  assumes inv: "crc_range crc" "cfg_ok (fs_cfg s)" "holds crc s rs n" and op: "fs_open_ok s"
    and st: "fs_next_seqnum crc io dir increment s = (res, s')"
  obtains (peeked) "res = ok (fs_next s dir)" "\<not> increment" "s' = s"
  | (counted) "res = ok (fs_next s dir)" "increment" "fs_next s dir \<noteq> seqnum_max" "fs_open_ok s'"
      "holds crc s' (rs @ [counter_rec s dir]) (next_after s dir)"
      "fs_next s' = (fs_next s)(dir := fs_next s dir + 1)"
  | (undone) e where "res = unexpected e" "fs_open_ok s'" "holds crc s' rs n" "fs_next s' = fs_next s \<or> fs_next s' = (fs_next s)(dir := fs_next s dir + 1)"
  | (lost) e i n' where "res = unexpected e" "\<not> fs_open_ok s'" "i \<le> 1"
      "holds crc s' (rs @ take i [counter_rec s dir]) n'"
proof -
  have m: "mirrors crc rs s" "recs_ok (fs_cfg s) rs n" using inv(3) op by (auto simp: holds_def recoverable_def)
  then have ord: "in_order rs (fs_next s)" by (simp add: mirrors_def)
  show thesis using ord op st
  proof (cases rule: fs_next_unfold)
    case peeked
    then show thesis by (rule that(1))
  next
    case (refused e)
    then show thesis using undone inv(3) op by simp
  next
    case (job r f)
    note less = next_after_less [OF ord job(2)]
    obtain st1 where st1: "replay sentinel_end rs scan_start = Some st1" using m(1) by (auto simp: mirrors_def)
    have cok: "\<forall>r \<in> set [counter_rec s dir]. rec_ok (fs_cfg s) r" using counter_record_ok [OF inv(2) less(1,2)] less(3,4) by simp
    have rp: "replay sentinel_end (rs @ [counter_rec s dir]) scan_start \<noteq> None" by (rule replay_snoc(1) [OF st1 refl])
    have rok: "recs_ok (fs_cfg s) (rs @ [counter_rec s dir]) (next_after s dir)" using cok rp m(2) by (auto simp: recs_ok_def)
    have b: "fl_bytes (fs_live s) = log_bytes crc (fs_cfg s) rs" "fs_write_pos s = length (fl_bytes (fs_live s))" using m(1) by (auto simp: mirrors_def)
    note wj = write_job_records [OF inv(2) m(2) cok rp b counter_writes_encode job(3)]
    show thesis
    proof (cases "r = write_ok")
      case True
      have f: "fl_bytes f = log_bytes crc (fs_cfg s) (rs @ [counter_rec s dir])" using wj(1) True by simp
      have s': "fs_cfg s' = fs_cfg s" "fs_live s' = f" "fs_open_ok s'" using job(5) True op by simp_all
      then show thesis using True job bumped_mirrors(2) [OF m(1) job(2) f job(5) [unfolded if_P [OF True]]] recoverable_plain [OF inv(2) rok f]
        by (intro counted) (simp_all add: holds_def)
    next
      case False
      obtain i n' where i: "i \<le> 1" "recoverable crc (fs_cfg s) f (rs @ take i [counter_rec s dir]) n'" using wj(3) by auto
      have cfg: "fs_cfg (bumped s dir) = fs_cfg s" "fs_open_ok (bumped s dir) = fs_open_ok s" by simp_all
      note af = after_failure_holds [where s = "bumped s dir", unfolded cfg, OF inv(2) m(2) bumped_mirrors(1) [OF m(1) job(2)] False conjunct1 [OF wj(2)] i(2)]
      have s': "s' = after_failure r f (bumped s dir)" "res = unexpected store_io_failure" using job(4,5) False by simp_all
      have "fs_next s' = fs_next (bumped s dir)" unfolding s'(1) by (cases r) (auto simp: after_failure_def fs_next_def fun_eq_iff)
      then show thesis using s' af op i(1) undone [OF s'(2)] lost [OF s'(2)] fs_next_bumped [of s dir] by (cases "fs_open_ok s'") auto
    qed
  qed
qed

subsection \<open>Resetting and flushing\<close>

definition fresh_log :: "(nat \<Rightarrow> byte list \<Rightarrow> nat) \<Rightarrow> file_config \<Rightarrow> nat \<Rightarrow> nat \<Rightarrow> os_file \<Rightarrow> bool" where
  "fresh_log crc cfg ni no f \<longleftrightarrow> fl_bytes f = log_bytes crc cfg [CounterRec ni no] \<and> fl_synced f = fl_bytes f"

lemma initialise_fresh_log:
  assumes "initialise_fresh crc (session_triple_hash (fc_sender cfg) (fc_target cfg)) ni no sc f = (Succeeded, sc', f')" "fl_bytes f = []"
  shows "fresh_log crc cfg ni no f'"
proof -
  let ?h = "session_triple_hash (fc_sender cfg) (fc_target cfg)"
  obtain sc1 f1 sc2 f2 where w: "write_sentinel crc ?h 0 sc f = (Succeeded, sc1, f1)"
    "write_counter crc sentinel_end ni no sc1 f1 = (Succeeded, sc2, f2)" "datasync sc2 f2 = (Succeeded, sc', f')"
    using assms(1) by (auto simp: initialise_fresh_def split: prod.splits outcome.splits)
  have pad: "record_padding kSentinelPayloadSize = 0" by (simp add: record_padding_def kSentinelPayloadSize_def kHeaderSize_def kAlignment_def)
  have f1: "fl_bytes f1 = encode_sentinel crc ?h"
    using run_writes_prefix [OF _ _ w(1) [unfolded write_sentinel_def Let_def]] assms(2)
    by (auto simp: pad encode_sentinel_def)
  have "fl_bytes f2 = fl_bytes f1 @ encode_records crc [CounterRec ni no]"
    using run_writes_prefix [OF _ counter_writes_encode(2), of f1 sentinel_end sc1 crc ni no Succeeded sc2 f2] w(2) f1
    unfolding counter_writes_encode(1) by (auto simp: write_counter_def counter_writes_def Let_def)
  then show ?thesis using w(3) f1 by (auto simp: fresh_log_def log_bytes_def datasync_def split: prod.splits outcome.splits)
qed

lemma reset_job_cases:
  assumes "reset_job crc (session_triple_hash (fc_sender cfg) (fc_target cfg)) ni no sc live tmp = (r, live', tmp')"
  shows "r = reset_failed_before \<Longrightarrow> live' = live" "r = reset_done \<Longrightarrow> fresh_log crc cfg ni no live'" "live' = live \<or> fresh_log crc cfg ni no live'"
proof -
  have ar: "after_rename n sc \<noteq> reset_failed_before" for n sc
    by (induction n sc rule: after_rename.induct) (auto split: prod.splits outcome.splits)
  have "(r \<noteq> reset_done \<and> live' = live) \<or> (r \<noteq> reset_failed_before \<and> fresh_log crc cfg ni no live')"
    using assms ar [of 4] initialise_fresh_log [of crc cfg ni no _ "\<lparr>fl_bytes = [], fl_synced = []\<rparr>"]
    unfolding reset_job_def by (fastforce split: prod.splits outcome.splits)
  then show "r = reset_failed_before \<Longrightarrow> live' = live" "r = reset_done \<Longrightarrow> fresh_log crc cfg ni no live'" "live' = live \<or> fresh_log crc cfg ni no live'"
    by auto
qed

lemma fresh_recoverable:
  assumes "cfg_ok cfg" "1 \<le> ni" "ni \<le> seqnum_max" "1 \<le> no" "no \<le> seqnum_max" "fresh_log crc cfg ni no f"
  shows "recoverable crc cfg f [CounterRec ni no] (ni, no)"
proof (rule recoverable_plain [OF assms(1)])
  have "record_ok (fc_max_frame_bytes cfg) (CounterRec ni no)" using assms by (intro counter_record_ok) (auto simp: seqnum_max_def)
  then show "recs_ok cfg [CounterRec ni no] (ni, no)" using assms(2,4) by (simp add: recs_ok_def)
qed (use assms(6) in \<open>simp add: fresh_log_def\<close>)

lemma fresh_mirrors:
  assumes "fresh_log crc (fs_cfg s) ni no (fs_live s)" "fs_valid s" "fs_write_pos s = fresh_end" "fs_inbound_index s = []" "fs_outbound_index s = []"
    and "fs_next_inbound s = ni" "fs_next_outbound s = no" "1 \<le> ni" "ni \<le> seqnum_max" "1 \<le> no" "no \<le> seqnum_max"
  shows "mirrors crc [CounterRec ni no] s"
proof -
  have "in_order [CounterRec ni no] (fs_next s)" using assms(6-11) by (auto simp: in_order_def fs_next_def)
  moreover have "fs_index s = index_for (scan_start\<lparr>sc_counters := Some (ni, no)\<rparr>)" using assms(4,5) by (simp add: fs_index_def index_for_def fun_eq_iff)
  moreover have "fs_write_pos s = length (log_bytes crc (fs_cfg s) [CounterRec ni no])"
    using assms(3) by (simp add: fresh_end_def log_bytes_def)
  ultimately show ?thesis using assms(1,2) by (auto simp: mirrors_def fresh_log_def)
qed

lemma reset_step:
  assumes inv: "crc_range crc" "cfg_ok (fs_cfg s)" "holds crc s rs n" and op: "fs_open_ok s"
    and nx: "1 \<le> ni" "ni \<le> seqnum_max" "1 \<le> no" "no \<le> seqnum_max" and st: "reset_store_to crc io ni no s = (res, s')"
  obtains (reset) "res = ok ()" "fs_open_ok s'" "holds crc s' [CounterRec ni no] (ni, no)" "fs_next_inbound s' = ni" "fs_next_outbound s' = no"
      "fs_generation s' = u64 (fs_generation s + 1)" "fl_synced (fs_live s') = fl_bytes (fs_live s')"
  | (undone) e where "res = unexpected e" "fs_open_ok s'" "holds crc s' rs n" "fs_next s' = fs_next s" "fs_live s' = fs_live s"
  | (lost) e where "res = unexpected e" "\<not> fs_open_ok s'" "holds crc s' rs n \<or> holds crc s' [CounterRec ni no] (ni, no)"
proof (cases "io_lk io")
  case False
  then show thesis using st op inv(3) undone by (auto simp: reset_store_to_def)
next
  case True
  have m: "mirrors crc rs s" "recoverable crc (fs_cfg s) (fs_live s) rs n" using inv(3) op by (auto simp: holds_def)
  obtain r live' tmp' where j: "reset_job crc (expected_hash s) ni no (io_sys io) (fs_live s) (fs_tmp s) = (r, live', tmp')" by (metis prod_cases3)
  note c = reset_job_cases [OF j [unfolded expected_hash_def]]
  show thesis
  proof (cases r)
    case reset_done
    then have s': "res = ok ()" "s' = s\<lparr>fs_live := live', fs_tmp := tmp', fs_generation := u64 (fs_generation s + 1), fs_inbound_index := [],
         fs_outbound_index := [], fs_write_pos := fresh_end, fs_next_inbound := ni, fs_next_outbound := no\<rparr>"
      using st op True j by (auto simp: reset_store_to_def Let_def)
    have f: "fresh_log crc (fs_cfg s) ni no live'" using c(2) reset_done by simp
    have "mirrors crc [CounterRec ni no] s'" using f nx m(1) by (intro fresh_mirrors) (simp_all add: s'(2) mirrors_def)
    moreover have "recoverable crc (fs_cfg s') (fs_live s') [CounterRec ni no] (ni, no)"
      using fresh_recoverable [OF inv(2) nx f] by (simp add: s'(2))
    ultimately show thesis using s' op f by (intro reset) (simp_all add: holds_def fresh_log_def)
  next
    case reset_failed_before
    have s': "res = unexpected store_io_failure" "s' = s\<lparr>fs_live := live', fs_tmp := tmp'\<rparr>" using st op True j reset_failed_before by (auto simp: reset_store_to_def Let_def)
    have same: "fs_index s' = fs_index s" "fs_next s' = fs_next s" by (auto simp: s'(2) fs_index_def fs_next_def fun_eq_iff)
    have "mirrors crc rs s'" using m(1) c(1) reset_failed_before same by (simp add: mirrors_def s'(2))
    then show thesis using s' op c(1) reset_failed_before m(2) same by (intro undone) (simp_all add: holds_def)
  qed (use st op True j c(3) m(2) fresh_recoverable [OF inv(2) nx, of crc] lost in \<open>auto simp: reset_store_to_def Let_def holds_def\<close>)
qed

lemma flush_step:
  assumes "holds crc s rs n" "flush_for_session_close io s = (res, s')"
  shows "holds crc s' rs n" "fs_next s' = fs_next s" "fl_bytes (fs_live s') = fl_bytes (fs_live s)" "fs_open_ok s' \<Longrightarrow> fs_open_ok s"
    "res = ok () \<Longrightarrow> fs_open_ok s \<Longrightarrow> fl_synced (fs_live s') = fl_bytes (fs_live s')"
proof -
  obtain r sc f where d: "datasync (io_sys io) (fs_live s) = (r, sc, f)" by (metis prod_cases3)
  have f: "fl_bytes f = fl_bytes (fs_live s)" "r = Succeeded \<Longrightarrow> fl_synced f = fl_bytes f" using d by (auto simp: datasync_def split: prod.splits outcome.splits)
  let ?s = "s\<lparr>fs_live := f, fs_open_ok := (fs_open_ok s \<and> r \<noteq> Dead), fs_valid := (fs_valid s \<and> r \<noteq> Dead)\<rparr>"
  have c: "s' = s \<and> \<not> fs_open_ok s \<or> s' = ?s \<and> res = (if r = Succeeded \<and> fs_open_ok s then ok () else unexpected store_io_failure)"
    using assms(2) d by (auto simp: flush_for_session_close_def split: if_splits)
  have same: "fs_index ?s = fs_index s" "fs_next ?s = fs_next s" by (auto simp: fs_index_def fs_next_def fun_eq_iff)
  have "recoverable crc (fs_cfg s) f rs n" using assms(1) f(1) by (simp add: holds_def recoverable_def)
  then have "holds crc ?s rs n" using assms(1) f(1) same by (auto simp: holds_def mirrors_def)
  then show "holds crc s' rs n" "fs_next s' = fs_next s" "fl_bytes (fs_live s') = fl_bytes (fs_live s)" "fs_open_ok s' \<Longrightarrow> fs_open_ok s"
    "res = ok () \<Longrightarrow> fs_open_ok s \<Longrightarrow> fl_synced (fs_live s') = fl_bytes (fs_live s')"
    using c assms(1) f same by (auto split: if_splits)
qed

subsection \<open>The contract of a store\<close>

lemma write_job_shape: "fs_cfg (after_failure r f s) = fs_cfg s"
  by (cases r) (simp_all add: after_failure_def)

lemma fs_cfg_apply [simp]: "fs_cfg (fs_apply crc op s) = fs_cfg s"
proof (cases op)
  case (FsStore io seq frame dir)
  then show ?thesis by (auto simp: fs_store_def Let_def write_job_shape split: prod.splits offload_write_result.splits)
next
  case (FsNext io dir inc)
  then show ?thesis by (auto simp: fs_next_seqnum_def Let_def write_job_shape split: prod.splits offload_write_result.splits)
qed (auto simp: fs_reset_def fs_reset_to_def reset_store_to_def flush_for_session_close_def Let_def split: prod.splits reset_outcome.splits)

lemmas fs_cfg_ops [simp] = fs_cfg_apply [of _ "FsStore io seq frame dir", simplified] fs_cfg_apply [of _ "FsNext io dir inc", simplified]
  fs_cfg_apply [of _ "FsReset io", simplified] fs_cfg_apply [of _ "FsResetTo io ni no", simplified] for io seq frame dir inc ni no

lemma closed_refuses:
  assumes "\<not> fs_open_ok s"
  shows "fs_store crc io seq frame dir s = (unexpected store_io_failure, s)"
    "fs_next_seqnum crc io dir inc s = (unexpected store_io_failure, s)" "fs_reset crc io s = (unexpected store_io_failure, s)"
    "reset_store_to crc io ni no s = (unexpected store_io_failure, s)"
  using assms by (simp_all add: fs_store_def fs_next_seqnum_def fs_reset_def reset_store_to_def)

lemma holds_log: "holds crc s rs n \<Longrightarrow> fs_open_ok s \<Longrightarrow> fs_log s = logs_of rs"
  using mirrors_log by (auto simp: holds_def)

lemma seqnum_min_bounds: "1 \<le> seqnum_min" "seqnum_min \<le> seqnum_max"
  by (simp_all add: seqnum_min_def seqnum_max_def)

lemma fs_invI: "fs_inv crc s \<Longrightarrow> fs_cfg s' = fs_cfg s \<Longrightarrow> holds crc s' rs n \<Longrightarrow> fs_inv crc s'"
  unfolding fs_inv_def by metis

lemma fs_inv_store:
  assumes "fs_inv crc s" "seq \<noteq> seqnum_max"
  shows "fs_inv crc (snd (fs_store crc io seq frame dir s))"
proof (cases "fs_open_ok s")
  case True
  from assms(1) obtain rs n where h: "crc_range crc" "cfg_ok (fs_cfg s)" "holds crc s rs n" by (auto simp: fs_inv_def)
  obtain r s' where st: "fs_store crc io seq frame dir s = (r, s')" by fastforce
  then have "fs_cfg s' = fs_cfg s" using fs_cfg_ops(1) by (metis snd_conv)
  then show ?thesis using fs_invI [OF assms(1)] st by (cases rule: fs_store_step [OF h True assms(2) st]) auto
qed (use assms closed_refuses in simp)

lemma fs_inv_next:
  assumes "fs_inv crc s"
  shows "fs_inv crc (snd (fs_next_seqnum crc io dir inc s))"
proof (cases "fs_open_ok s")
  case True
  from assms(1) obtain rs n where h: "crc_range crc" "cfg_ok (fs_cfg s)" "holds crc s rs n" by (auto simp: fs_inv_def)
  obtain r s' where st: "fs_next_seqnum crc io dir inc s = (r, s')" by fastforce
  then have "fs_cfg s' = fs_cfg s" using fs_cfg_ops(2) by (metis snd_conv)
  then show ?thesis using fs_invI [OF assms(1)] st assms by (cases rule: fs_next_step [OF h True st]) auto
qed (use assms closed_refuses in simp)

lemma fs_inv_reset_store:
  assumes "fs_inv crc s" "1 \<le> ni" "ni \<le> seqnum_max" "1 \<le> no" "no \<le> seqnum_max"
  shows "fs_inv crc (snd (reset_store_to crc io ni no s))"
proof (cases "fs_open_ok s")
  case True
  from assms(1) obtain rs n where h: "crc_range crc" "cfg_ok (fs_cfg s)" "holds crc s rs n" by (auto simp: fs_inv_def)
  obtain r s' where st: "reset_store_to crc io ni no s = (r, s')" by fastforce
  then have "fs_cfg s' = fs_cfg s" by (auto simp: reset_store_to_def Let_def split: if_splits prod.splits reset_outcome.splits)
  then show ?thesis using fs_invI [OF assms(1)] st by (cases rule: reset_step [OF h True assms(2-5) st]) (metis snd_conv)+
qed (use assms closed_refuses in simp)

lemma failed_store_keeps:
  assumes wp: "fs_open_ok s \<longrightarrow> fs_write_pos s = length (fl_bytes (fs_live s))"
    and st: "fs_store crc io seq frame dir s = (unexpected e, s')" "fs_open_ok s'"
  shows "fs_log s' = fs_log s \<and> fs_next s' = fs_next s"
proof -
  have wf: "fl_bytes f = fl_bytes (fs_live s)" if "fs_open_ok s"
      "write_job sc (store_writes crc (fs_write_pos s) dir seq frame ni no) fl (fs_write_pos s) (fs_live s) = (write_failed, f)" for sc ni no fl f
    using write_job_prefix(2) [OF _ store_writes_encode(2) that(2)] wp that(1) by simp
  have "s' = s \<or> (\<exists>f. s' = s\<lparr>fs_live := f\<rparr> \<and> fl_bytes f = fl_bytes (fs_live s))"
    using st wf by (auto simp: fs_store_def Let_def after_failure_def split: if_splits prod.splits offload_write_result.splits)
  then show ?thesis by (auto simp: fs_log_def fs_index_def fs_next_def frame_at_def fun_eq_iff)
qed

interpretation fs: message_store "fs_inv crc" fs_open_ok fs_log fs_next "fs_store crc" "fs_next_seqnum crc" "fs_reset crc" for crc
proof unfold_locales
  fix s io seq frame dir u s'
  assume s: "fs_inv crc s" "seq \<noteq> seqnum_max" and st: "fs_store crc io seq frame dir s = (ok u, s')"
  from s(1) obtain rs n where h: "crc_range crc" "cfg_ok (fs_cfg s)" "holds crc s rs n" by (auto simp: fs_inv_def)
  have op: "fs_open_ok s" using st closed_refuses by fastforce
  show "fs_open_ok s' \<and> seq = fs_next s dir \<and> fs_log s' = (fs_log s)(dir := log_put seq frame (fs_log s dir)) \<and>
      fs_next s' = (fs_next s)(dir := seq + 1)"
    by (cases rule: fs_store_step [OF h op s(2) st]) (use holds_log h(3) op in \<open>auto simp: fun_eq_iff\<close>)
next
  fix s io seq frame dir e s'
  assume s: "fs_inv crc s" and st: "fs_store crc io seq frame dir s = (unexpected e, s')" and op': "fs_open_ok s'"
  then have "fs_open_ok s \<longrightarrow> fs_write_pos s = length (fl_bytes (fs_live s))" by (auto simp: fs_inv_def holds_def mirrors_def)
  from failed_store_keeps [OF this st op'] show "fs_log s' = fs_log s \<and> fs_next s' = fs_next s"
    using closed_refuses(1) st op' by (cases "fs_open_ok s") auto
next
  fix s io dir inc m s'
  assume s: "fs_inv crc s" and st: "fs_next_seqnum crc io dir inc s = (ok m, s')"
  from s(1) obtain rs n where h: "crc_range crc" "cfg_ok (fs_cfg s)" "holds crc s rs n" by (auto simp: fs_inv_def)
  have op: "fs_open_ok s" using st closed_refuses by fastforce
  show "fs_open_ok s' \<and> m = fs_next s dir \<and> fs_log s' = fs_log s \<and>
      fs_next s' = (if inc then (fs_next s)(dir := m + 1) else fs_next s) \<and> (inc \<longrightarrow> m \<noteq> seqnum_max)"
    by (cases rule: fs_next_step [OF h op st]) (use holds_log h(3) op in \<open>auto simp: fun_eq_iff\<close>)
next
  fix s io dir inc e s'
  assume s: "fs_inv crc s" and st: "fs_next_seqnum crc io dir inc s = (unexpected e, s')" and op': "fs_open_ok s'"
  from s(1) obtain rs n where h: "crc_range crc" "cfg_ok (fs_cfg s)" "holds crc s rs n" by (auto simp: fs_inv_def)
  have op: "fs_open_ok s" using st op' closed_refuses(2) [of s crc io dir inc] by auto
  show "fs_log s' = fs_log s"
    by (cases rule: fs_next_step [OF h op st]) (use holds_log h(3) op op' in auto)
next
  fix s io u s'
  assume s: "fs_inv crc s" and st: "fs_reset crc io s = (ok u, s')"
  from s(1) obtain rs n where h: "crc_range crc" "cfg_ok (fs_cfg s)" "holds crc s rs n" by (auto simp: fs_inv_def)
  have op: "fs_open_ok s" using st closed_refuses by fastforce
  show "fs_open_ok s' \<and> fs_log s' = (\<lambda>_. []) \<and> fs_next s' = (\<lambda>_. seqnum_min)"
    by (cases rule: reset_step [OF h op seqnum_min_bounds seqnum_min_bounds st [unfolded fs_reset_def]])
      (use holds_log in \<open>auto simp: fun_eq_iff fs_next_def\<close>)
next
  fix s io e s'
  assume s: "fs_inv crc s" and st: "fs_reset crc io s = (unexpected e, s')" and op': "fs_open_ok s'"
  from s(1) obtain rs n where h: "crc_range crc" "cfg_ok (fs_cfg s)" "holds crc s rs n" by (auto simp: fs_inv_def)
  have op: "fs_open_ok s" using st op' closed_refuses(3) [of s crc io] by auto
  show "fs_log s' = fs_log s \<and> fs_next s' = fs_next s"
    by (cases rule: reset_step [OF h op seqnum_min_bounds seqnum_min_bounds st [unfolded fs_reset_def]])
      (use holds_log h(3) op op' in auto)
qed (simp_all add: fs_inv_store fs_inv_next closed_refuses fs_inv_reset_store [OF _ seqnum_min_bounds seqnum_min_bounds] fs_reset_def)

end
