(* ===== verification/Fixpp_FileSafety.thy ===== *)
theory Fixpp_FileSafety
  imports Fixpp_FileStore
begin

text \<open>
  What the persistent store promises across the end of a process and the loss of power, and what a
  retrieval shows while others write.  Two reasons keep a log from being resumed with its own
  numbers, and are premises here: the largest number is never stored (\<open>op_ok\<close>), and the numbers that
  a restart recovers are not behind the frames (\<open>resumable\<close>).  The second can fail after a failed
  increment: the number in memory has moved and the one on the disk has not, so that a frame stored
  next and cut off before its counter is ahead of the recovered counter.
\<close>

subsection \<open>Histories\<close>

text \<open>Operations with the arguments their types and callers allow.\<close>

fun op_ok :: "file_op \<Rightarrow> bool" where
  "op_ok (FsStore io seq frame dir) \<longleftrightarrow> seq \<noteq> seqnum_max"
| "op_ok _ \<longleftrightarrow> True"

definition resumable :: "file_store \<Rightarrow> bool" where
  "resumable s \<longleftrightarrow> (\<forall>dir. fs_log s dir = [] \<or> fst (last (fs_log s dir)) \<le> fs_next s dir)"

text \<open>A store is opened on an empty file, runs operations whatever the kernel answers to each of their
  calls, and is opened again by the next process.\<close>

inductive fs_reachable :: "(nat \<Rightarrow> byte list \<Rightarrow> nat) \<Rightarrow> file_config \<Rightarrow> file_store \<Rightarrow> bool" for crc cfg where
  created: "open_log crc cfg sc \<lparr>fl_bytes = [], fl_synced = []\<rparr> tmp = (Some s, live, tmp') \<Longrightarrow> fs_reachable crc cfg s"
| operated: "fs_reachable crc cfg s \<Longrightarrow> op_ok op \<Longrightarrow> fs_reachable crc cfg (fs_apply crc op s)"
| restarted: "fs_reachable crc cfg s \<Longrightarrow> reopened crc s = Some s' \<Longrightarrow> resumable s' \<Longrightarrow> fs_reachable crc cfg s'"

lemma fs_inv_created:
  assumes "open_log crc cfg sc \<lparr>fl_bytes = [], fl_synced = []\<rparr> tmp = (Some s, live, tmp')" "crc_range crc" "cfg_ok cfg"
  shows "fs_inv crc s" "fs_cfg s = cfg" "fl_synced (fs_live s) = fl_bytes (fs_live s)"
proof -
  obtain sc1 sc2 f where f: "initialise_fresh crc (session_triple_hash (fc_sender cfg) (fc_target cfg)) seqnum_min seqnum_min sc1
      \<lparr>fl_bytes = [], fl_synced = []\<rparr> = (Succeeded, sc2, f)"
    and s: "s = \<lparr>fs_cfg = cfg, fs_live = f, fs_tmp = None, fs_valid = True, fs_write_pos = fresh_end,
       fs_next_inbound = seqnum_min, fs_next_outbound = seqnum_min, fs_open_ok = True,
       fs_generation = 0, fs_inbound_index = [], fs_outbound_index = []\<rparr>"
    using assms(1) by (auto simp: open_log_def restart_scan_def Let_def split: prod.splits outcome.splits option.splits)
  have fr: "fresh_log crc cfg seqnum_min seqnum_min f" by (rule initialise_fresh_log [OF f]) simp
  have "mirrors crc [CounterRec seqnum_min seqnum_min] s" by (rule fresh_mirrors) (use fr seqnum_min_bounds in \<open>simp_all add: s\<close>)
  moreover have "recoverable crc cfg f [CounterRec seqnum_min seqnum_min] (seqnum_min, seqnum_min)"
    by (rule fresh_recoverable [OF assms(3) seqnum_min_bounds seqnum_min_bounds fr])
  ultimately have "holds crc s [CounterRec seqnum_min seqnum_min] (seqnum_min, seqnum_min)" by (simp add: holds_def s)
  then show "fs_inv crc s" unfolding fs_inv_def using assms(2,3) s by (metis file_store.select_convs(1))
  show "fs_cfg s = cfg" "fl_synced (fs_live s) = fl_bytes (fs_live s)" using fr by (simp_all add: s fresh_log_def)
qed

lemma fs_inv_apply:
  assumes "fs_inv crc s" "op_ok op"
  shows "fs_inv crc (fs_apply crc op s)"
proof (cases op)
  case (FsStore io seq frame dir)
  then show ?thesis using assms fs_inv_store by simp
next
  case (FsNext io dir inc)
  then show ?thesis using assms fs_inv_next by simp
next
  case (FsReset io)
  then show ?thesis using fs_inv_reset_store [OF assms(1) seqnum_min_bounds seqnum_min_bounds] by (simp add: fs_reset_def)
next
  case (FsResetTo io ni no)
  then show ?thesis using assms(1) fs_inv_reset_store [OF assms(1), of ni no io]
    by (auto simp: fs_reset_to_def reset_to_targets_valid_def seqnum_min_def seqnum_max_def)
next
  case (FsFlush io)
  obtain rs n where h: "holds crc s rs n" using assms(1) by (auto simp: fs_inv_def)
  obtain r s' where f: "flush_for_session_close io s = (r, s')" by fastforce
  show ?thesis using flush_step(1) [OF h f] fs_cfg_apply [of crc "FsFlush io" s] FsFlush f fs_invI [OF assms(1)] by auto
qed

lemma fs_inv_reopened:
  assumes "fs_inv crc s" "reopened crc s = Some s'" "resumable s'"
  shows "fs_inv crc s'" "fs_cfg s' = fs_cfg s"
proof -
  obtain rs ni no where h: "crc_range crc" "cfg_ok (fs_cfg s)" "recoverable crc (fs_cfg s) (fs_live s) rs (ni, no)"
    using assms(1) by (auto simp: fs_inv_def holds_def)
  obtain s1 where s1: "reopened crc s = Some s1" "seen_of s1 = (logs_of rs, ni, no)" "fs_cfg s1 = fs_cfg s"
      "fl_bytes (fs_live s1) = log_bytes crc (fs_cfg s) rs" "in_order rs (fs_next s1) \<longrightarrow> mirrors crc rs s1"
    by (rule reopened_recovers [OF h(1,3)])
  have "s1 = s'" using s1(1) assms(2) by simp
  note r = s1(2-5) [unfolded this]
  have ok: "recs_ok (fs_cfg s) rs (ni, no)" using h(3) by (simp add: recoverable_def)
  note num = recs_ok_numbers [OF ok]
  have "in_order rs (fs_next s')" unfolding in_order_def
  proof
    fix d
    have "fs_next s' d = (if d = inbound then ni else no)" "fs_log s' d = logs_of rs d" using r(1) by (simp_all add: fs_next_def seen_of_def)
    then show "1 \<le> fs_next s' d \<and> fs_next s' d \<le> seqnum_max \<and> (\<forall>e \<in> set (logs_of rs d). 1 \<le> fst e) \<and>
        (logs_of rs d \<noteq> [] \<longrightarrow> fst (last (logs_of rs d)) \<le> fs_next s' d)"
      using num assms(3) unfolding resumable_def by (metis (full_types))
  qed
  then have "holds crc s' rs (ni, no)" using r recoverable_plain [OF h(2) ok r(3)] by (simp add: holds_def)
  then show "fs_inv crc s'" "fs_cfg s' = fs_cfg s" using fs_invI [OF assms(1)] r(2) by auto
qed

lemma fs_reachable_inv:
  assumes "fs_reachable crc cfg s" "crc_range crc" "cfg_ok cfg"
  shows "fs_inv crc s \<and> fs_cfg s = cfg"
  using assms(1)
proof induction
  case (created sc tmp s live tmp')
  from fs_inv_created [OF this assms(2,3)] show ?case by simp
next
  case (operated s op)
  then show ?case using fs_inv_apply by simp
next
  case (restarted s s')
  from fs_inv_reopened [OF _ restarted.hyps(2,3)] restarted.IH show ?case by simp
qed

subsection \<open>What survives\<close>

definition durable :: "(nat \<Rightarrow> byte list \<Rightarrow> nat) \<Rightarrow> file_store \<Rightarrow> (logs \<times> nat \<times> nat) option" where
  "durable crc s = map_option seen_of (reopened crc s)"

fun fs_acked :: "(nat \<Rightarrow> byte list \<Rightarrow> nat) \<Rightarrow> file_op \<Rightarrow> file_store \<Rightarrow> bool" where
  "fs_acked crc (FsStore io seq frame dir) s \<longleftrightarrow> \<not> isl (fst (fs_store crc io seq frame dir s))"
| "fs_acked crc (FsNext io dir inc) s \<longleftrightarrow> inc \<and> \<not> isl (fst (fs_next_seqnum crc io dir inc s))"
| "fs_acked crc (FsReset io) s \<longleftrightarrow> \<not> isl (fst (fs_reset crc io s))"
| "fs_acked crc (FsResetTo io ni no) s \<longleftrightarrow> \<not> isl (fst (fs_reset_to crc io ni no s))"
| "fs_acked crc (FsFlush io) s \<longleftrightarrow> False"

text \<open>What an operation is to make of a log \<open>l\<close>: the steps the disk may show, in order.\<close>

fun intended :: "file_op \<Rightarrow> file_store \<Rightarrow> logs \<times> nat \<times> nat \<Rightarrow> (logs \<times> nat \<times> nat) list" where
  "intended (FsStore io seq frame dir) s (l, n) =
     [(l, n), (l(dir := log_put seq frame (l dir)), n), (l(dir := log_put seq frame (l dir)), next_after s dir)]"
| "intended (FsNext io dir inc) s (l, n) = [(l, n), (l, next_after s dir)]"
| "intended (FsReset io) s (l, n) = [(l, n), (\<lambda>_. [], seqnum_min, seqnum_min)]"
| "intended (FsResetTo io ni no) s (l, n) = [(l, n), (\<lambda>_. [], ni, no)]"
| "intended (FsFlush io) s (l, n) = [(l, n)]"

lemma durable_holds: "crc_range crc \<Longrightarrow> holds crc s rs n \<Longrightarrow> durable crc s = Some (logs_of rs, n)"
  unfolding durable_def holds_def using reopened_recovers [of crc s rs "fst n" "snd n"] by (metis option.simps(9) prod.collapse)

lemma holds_counters: "holds crc s rs n \<Longrightarrow> counters_of rs = Some n"
  by (simp add: holds_def recoverable_def recs_ok_def)

text \<open>What is left after an operation: all of it when it was acknowledged, none of it when it was not and
  the store can go on, else a beginning of it.\<close>

definition survives :: "bool \<Rightarrow> (logs \<times> nat \<times> nat) list \<Rightarrow> file_store \<Rightarrow> logs \<times> nat \<times> nat \<Rightarrow> bool" where
  "survives acked states s' d' \<longleftrightarrow>
     (if acked then fs_open_ok s' \<and> d' = last states \<and> seen_of s' = d'
      else if fs_open_ok s' then d' = hd states
      else d' \<in> set states)"

lemma hd_intended [simp]: "hd (intended op s d) = d"
  by (cases op; cases d) simp_all

lemma survives_store:
  assumes "crc_range crc" "cfg_ok (fs_cfg s)" "holds crc s rs n" "fs_open_ok s" "seq \<noteq> seqnum_max"
    and st: "fs_store crc io seq frame dir s = (res, s')"
  shows "\<exists>d'. durable crc s' = Some d' \<and> survives (\<not> isl res) (intended (FsStore io seq frame dir) s (logs_of rs, n)) s' d'"
  using assms(1-5) st
proof (cases rule: fs_store_step)
  case stored
  have "(fs_next_inbound s', fs_next_outbound s') = next_after s dir"
    using fun_cong [OF stored(5), of inbound] fun_cong [OF stored(5), of outbound] stored(2) by (cases dir) (auto simp: next_after_def)
  then show ?thesis using stored durable_holds [OF assms(1) stored(4)] holds_log [OF stored(4,3)]
    by (auto simp: survives_def seen_of_def)
next
  case (undone e)
  then show ?thesis using durable_holds [OF assms(1) undone(3)] by (simp add: survives_def)
next
  case (lost e i n')
  have "i = 0 \<or> i = 1 \<or> i = 2" using lost(4) by linarith
  then show ?thesis using lost(1,2) durable_holds [OF assms(1) lost(5)] holds_counters [OF lost(5)] holds_counters [OF assms(3)]
    by (elim disjE) (simp_all add: survives_def prod_eq_iff)
qed

lemma survives_next:
  assumes "crc_range crc" "cfg_ok (fs_cfg s)" "holds crc s rs n" "fs_open_ok s"
    and st: "fs_next_seqnum crc io dir inc s = (res, s')"
  shows "\<exists>d'. durable crc s' = Some d' \<and> survives (inc \<and> \<not> isl res) (intended (FsNext io dir inc) s (logs_of rs, n)) s' d'"
  using assms(1-4) st
proof (cases rule: fs_next_step)
  case peeked
  then show ?thesis using durable_holds [OF assms(1,3)] assms(4) by (simp add: survives_def)
next
  case counted
  have "(fs_next_inbound s', fs_next_outbound s') = next_after s dir"
    using fun_cong [OF counted(6), of inbound] fun_cong [OF counted(6), of outbound] by (cases dir) (auto simp: next_after_def)
  then show ?thesis using counted durable_holds [OF assms(1) counted(5)] holds_log [OF counted(5,4)]
    by (auto simp: survives_def seen_of_def)
next
  case (undone e)
  then show ?thesis using durable_holds [OF assms(1) undone(3)] by (simp add: survives_def)
next
  case (lost e i n')
  have "take i [counter_rec s dir] \<in> {[], [counter_rec s dir]}" using lost(3) by (cases i) auto
  then show ?thesis using lost durable_holds [OF assms(1) lost(4)] holds_counters [OF lost(4)] holds_counters [OF assms(3)]
    by (auto simp: survives_def)
qed

lemma survives_reset:
  assumes "crc_range crc" "cfg_ok (fs_cfg s)" "holds crc s rs n" "fs_open_ok s" "1 \<le> ni" "ni \<le> seqnum_max" "1 \<le> no" "no \<le> seqnum_max"
    and st: "reset_store_to crc io ni no s = (res, s')"
  shows "\<exists>d'. durable crc s' = Some d' \<and> survives (\<not> isl res) [(logs_of rs, n), (\<lambda>_. [], ni, no)] s' d'"
  using assms(1-8) st
proof (cases rule: reset_step)
  case reset
  then show ?thesis using durable_holds [OF assms(1) reset(3)] holds_log [OF reset(3,2)] by (auto simp: survives_def seen_of_def)
next
  case (undone e)
  then show ?thesis using durable_holds [OF assms(1) undone(3)] by (simp add: survives_def)
next
  case (lost e)
  then show ?thesis using durable_holds [OF assms(1), of s'] by (cases n) (auto simp: survives_def)
qed

lemma durable_step:
  assumes inv: "fs_inv crc s" and "op_ok op"
  shows "\<exists>d d'. durable crc s = Some d \<and> durable crc (fs_apply crc op s) = Some d' \<and>
    survives (fs_acked crc op s) (intended op s d) (fs_apply crc op s) d'"
proof -
  obtain rs n where h: "crc_range crc" "cfg_ok (fs_cfg s)" "holds crc s rs n" using inv by (auto simp: fs_inv_def)
  note d = durable_holds [OF h(1,3)]
  have "\<exists>d'. durable crc (fs_apply crc op s) = Some d' \<and> survives (fs_acked crc op s) (intended op s (logs_of rs, n)) (fs_apply crc op s) d'"
  proof (cases "(\<exists>io. op = FsFlush io) \<or> fs_open_ok s")
    case False
    then show ?thesis using d by (cases op; cases n) (auto simp: closed_refuses fs_reset_to_def survives_def)
  next
    case True
    then consider (flush) io where "op = FsFlush io" | (store) io seq frame dir where "op = FsStore io seq frame dir" "fs_open_ok s"
      | (nxt) io dir inc where "op = FsNext io dir inc" "fs_open_ok s" | (reset) io where "op = FsReset io" "fs_open_ok s"
      | (reset_to) io ni no where "op = FsResetTo io ni no" "fs_open_ok s"
      by (cases op) auto
    then show ?thesis
    proof cases
      case flush
      obtain r s' where f: "flush_for_session_close io s = (r, s')" by fastforce
      show ?thesis using durable_holds [OF h(1) flush_step(1) [OF h(3) f]] flush f by (simp add: survives_def)
    next
      case store
      then show ?thesis using survives_store [OF h store(2) _ prod.collapse [symmetric], of seq io frame dir] assms(2) by simp
    next
      case nxt
      then show ?thesis using survives_next [OF h nxt(2) prod.collapse [symmetric], of io dir inc] by simp
    next
      case reset
      then show ?thesis using survives_reset [OF h reset(2) seqnum_min_bounds seqnum_min_bounds, of io] by (cases "fs_reset crc io s") (simp add: fs_reset_def)
    next
      case reset_to
      show ?thesis
      proof (cases "reset_to_targets_valid ni no")
        case True
        then have b: "1 \<le> ni" "ni \<le> seqnum_max" "1 \<le> no" "no \<le> seqnum_max" by (auto simp: reset_to_targets_valid_def seqnum_min_def seqnum_max_def)
        show ?thesis using survives_reset [OF h reset_to(2) b, of io] reset_to True
          by (cases "reset_store_to crc io ni no s") (simp add: fs_reset_to_def)
      qed (use reset_to d in \<open>simp add: fs_reset_to_def survives_def\<close>)
    qed
  qed
  then show ?thesis using d by blast
qed

subsection \<open>Losing power\<close>

text \<open>The file as the device has it.\<close>

definition power_loss :: "file_store \<Rightarrow> file_store" where
  "power_loss s = s\<lparr>fs_live := \<lparr>fl_bytes = fl_synced (fs_live s), fl_synced = fl_synced (fs_live s)\<rparr>\<rparr>"

fun forced :: "file_op \<Rightarrow> file_store \<Rightarrow> bool" where
  "forced (FsStore io seq frame dir) s \<longleftrightarrow> flush_due s"
| "forced _ s \<longleftrightarrow> True"

lemma durable_power_loss:
  assumes "fs_inv crc s" "fl_synced (fs_live s) = fl_bytes (fs_live s)"
  shows "durable crc (power_loss s) = durable crc s"
proof -
  obtain rs n where h: "crc_range crc" "holds crc s rs n" using assms(1) by (auto simp: fs_inv_def)
  have i: "fs_index (power_loss s) = fs_index s" by (rule fs_index_cong) (simp_all add: power_loss_def)
  have nx: "fs_next (power_loss s) = fs_next s" by (rule fs_next_cong) (simp_all add: power_loss_def)
  have sel: "fs_cfg (power_loss s) = fs_cfg s" "fl_bytes (fs_live (power_loss s)) = fl_bytes (fs_live s)" "fs_valid (power_loss s) = fs_valid s"
    "fs_write_pos (power_loss s) = fs_write_pos s" "fs_open_ok (power_loss s) = fs_open_ok s"
    using assms(2) by (simp_all add: power_loss_def)
  have "holds crc (power_loss s) rs n" using h(2) unfolding holds_def recoverable_def mirrors_def sel i nx by simp
  then show ?thesis using durable_holds [OF h(1)] h(2) by metis
qed

lemma acked_synced:
  assumes "fs_inv crc s" "op_ok op" "fs_acked crc op s" "forced op s"
  shows "fl_synced (fs_live (fs_apply crc op s)) = fl_bytes (fs_live (fs_apply crc op s))"
proof -
  obtain rs n where h: "crc_range crc" "cfg_ok (fs_cfg s)" "holds crc s rs n" using assms(1) by (auto simp: fs_inv_def)
  have op: "fs_open_ok s"
  proof (rule ccontr)
    assume "\<not> fs_open_ok s"
    then show False using assms(3) by (cases op) (auto simp: closed_refuses fs_reset_to_def split: if_splits)
  qed
  then have m: "in_order rs (fs_next s)" "fs_write_pos s = length (fl_bytes (fs_live s))" using h(3) by (auto simp: holds_def mirrors_def)
  show ?thesis
  proof (cases op)
    case (FsStore io seq frame dir)
    obtain res s' where st: "fs_store crc io seq frame dir s = (res, s')" by fastforce
    have seq: "seq \<noteq> seqnum_max" using assms(2) FsStore by simp
    from m(1) op seq st show ?thesis
    proof (cases rule: fs_store_unfold)
      case (refused e)
      then show ?thesis using assms(3) FsStore st by simp
    next
      case (job r f)
      then have "r = write_ok" using assms(3) FsStore st by (simp split: if_splits)
      moreover from this have "fl_synced f = fl_bytes f"
        using write_job_prefix(1) [OF m(2) [symmetric] store_writes_encode(2) job(3)] assms(4) FsStore by simp
      ultimately show ?thesis using job(5) FsStore st by simp
    qed
  next
    case (FsNext io dir inc)
    obtain res s' where st: "fs_next_seqnum crc io dir inc s = (res, s')" by fastforce
    from m(1) op st show ?thesis
    proof (cases rule: fs_next_unfold)
      case (job r f)
      then have "r = write_ok" using assms(3) FsNext st by (simp split: if_splits)
      moreover from this have "fl_synced f = fl_bytes f"
        using write_job_prefix(1) [OF m(2) [symmetric] counter_writes_encode(2) job(3)] by simp
      ultimately show ?thesis using job(5) FsNext st by simp
    qed (use assms(3) FsNext st in simp_all)
  next
    case (FsReset io)
    obtain res s' where st: "reset_store_to crc io seqnum_min seqnum_min s = (res, s')" by fastforce
    from h op seqnum_min_bounds seqnum_min_bounds st show ?thesis
      by (cases rule: reset_step) (use assms(3) FsReset st in \<open>simp_all add: fs_reset_def\<close>)
  next
    case (FsResetTo io ni no)
    then have v: "reset_to_targets_valid ni no" using assms(3) by (auto simp: fs_reset_to_def split: if_splits)
    then have b: "1 \<le> ni" "ni \<le> seqnum_max" "1 \<le> no" "no \<le> seqnum_max" by (auto simp: reset_to_targets_valid_def seqnum_min_def seqnum_max_def)
    obtain res s' where st: "reset_store_to crc io ni no s = (res, s')" by fastforce
    from h op b st show ?thesis
      by (cases rule: reset_step) (use assms(3) FsResetTo st v in \<open>simp_all add: fs_reset_to_def\<close>)
  qed (use assms(3) in simp)
qed



subsection \<open>Retrieving while others write\<close>

definition wp_inv :: "file_store \<Rightarrow> bool" where
  "wp_inv s \<longleftrightarrow> (fs_open_ok s \<longrightarrow> fs_write_pos s = length (fl_bytes (fs_live s)))"

definition fs_keeps :: "file_store \<Rightarrow> file_store \<Rightarrow> bool" where
  "fs_keeps s s' \<longleftrightarrow> (fs_valid s' \<longrightarrow> fs_valid s \<and> (\<exists>t. fl_bytes (fs_live s') = fl_bytes (fs_live s) @ t))"

lemma fs_keeps_refl: "fs_keeps s s"
  by (simp add: fs_keeps_def)

lemma fs_keeps_trans: "fs_keeps s s' \<Longrightarrow> fs_keeps s' s'' \<Longrightarrow> fs_keeps s s''"
  unfolding fs_keeps_def by (metis append.assoc)

text \<open>A job at the end of the log extends it or restores it.\<close>

lemma job_epoch:
  assumes "wp_inv s" "fs_open_ok s" "consecutive (fs_write_pos s) ws" "write_job sc ws fl (fs_write_pos s) (fs_live s) = (r, f)"
    and "fs_live s1 = fs_live s" "fs_valid s1 = fs_valid s" "fs_write_pos s1 = fs_write_pos s" "fs_generation s1 = fs_generation s" "fs_open_ok s1"
  shows "r \<noteq> write_ok \<Longrightarrow> s' = after_failure r f s1 \<Longrightarrow> wp_inv s' \<and> fs_keeps s s' \<and> fs_generation s' = fs_generation s"
    and "r = write_ok \<Longrightarrow> length (concat (map snd ws)) = n \<Longrightarrow> fs_live s' = f \<Longrightarrow> fs_valid s' = fs_valid s \<Longrightarrow> fs_write_pos s' = fs_write_pos s + n \<Longrightarrow>
      fs_generation s' = fs_generation s \<Longrightarrow> wp_inv s' \<and> fs_keeps s s' \<and> fs_generation s' = fs_generation s"
proof -
  have len: "length (fl_bytes (fs_live s)) = fs_write_pos s" using assms(1,2) by (simp add: wp_inv_def)
  note p = write_job_prefix [OF len assms(3,4)]
  show "r \<noteq> write_ok \<Longrightarrow> s' = after_failure r f s1 \<Longrightarrow> wp_inv s' \<and> fs_keeps s s' \<and> fs_generation s' = fs_generation s"
    using p(2,3) len assms(5-) by (cases r) (auto simp: after_failure_def wp_inv_def fs_keeps_def)
  show "r = write_ok \<Longrightarrow> length (concat (map snd ws)) = n \<Longrightarrow> fs_live s' = f \<Longrightarrow> fs_valid s' = fs_valid s \<Longrightarrow> fs_write_pos s' = fs_write_pos s + n \<Longrightarrow>
      fs_generation s' = fs_generation s \<Longrightarrow> wp_inv s' \<and> fs_keeps s s' \<and> fs_generation s' = fs_generation s"
    using p(1) len by (simp add: wp_inv_def fs_keeps_def)
qed

lemma store_epoch:
  assumes "wp_inv s" "fs_store crc io seq frame dir s = (res, s')"
  shows "wp_inv s' \<and> fs_keeps s s' \<and> fs_generation s' = fs_generation s"
proof (cases "s' = s")
  case False
  let ?ni = "if dir = inbound then u32 (fs_next_inbound s + 1) else fs_next_inbound s"
  let ?no = "if dir = outbound then u32 (fs_next_outbound s + 1) else fs_next_outbound s"
  let ?ws = "store_writes crc (fs_write_pos s) dir seq frame ?ni ?no"
  have g: "fs_open_ok s" "io_lk io" "seq = fs_next s dir" "\<not> length frame > fc_max_frame_bytes (fs_cfg s)"
    using assms(2) False by (auto simp: fs_store_def split: if_splits)
  obtain r f where j: "write_job (io_sys io) ?ws (flush_due s) (fs_write_pos s) (fs_live s) = (r, f)" by fastforce
  note e = job_epoch [OF assms(1) g(1) store_writes_encode(2) j, where ?s1.0 = s and s' = s', OF refl refl refl refl g(1)]
  have len: "length (concat (map snd ?ws)) = record_disk_size (length frame) + record_disk_size kCounterPayloadSize"
    unfolding store_writes_encode(1) by simp
  show ?thesis
  proof (cases "r = write_ok")
    case True
    then have "s' = (index_store dir \<lparr>ie_seq = seq, ie_file_offset = fs_write_pos s, ie_len = u32 (length frame)\<rparr> s)
        \<lparr>fs_live := f, fs_next_inbound := ?ni, fs_next_outbound := ?no,
         fs_write_pos := fs_write_pos s + record_disk_size (length frame) + record_disk_size kCounterPayloadSize\<rparr>"
      using assms(2) g j unfolding fs_store_def Let_def by simp
    then show ?thesis using e(2) [OF True len] by simp
  next
    case False
    then have "s' = after_failure r f s" using assms(2) g j unfolding fs_store_def Let_def by (cases r) simp_all
    then show ?thesis using e(1) [OF False] by simp
  qed
qed (use assms(1) fs_keeps_refl in simp)

lemma next_epoch:
  assumes "wp_inv s" "fs_next_seqnum crc io dir inc s = (res, s')"
  shows "wp_inv s' \<and> fs_keeps s s' \<and> fs_generation s' = fs_generation s"
proof (cases "s' = s")
  case False
  let ?s = "if dir = inbound then s\<lparr>fs_next_inbound := u32 (fs_next s dir + 1)\<rparr> else s\<lparr>fs_next_outbound := u32 (fs_next s dir + 1)\<rparr>"
  let ?ws = "counter_writes crc (fs_write_pos s) (fs_next_inbound ?s) (fs_next_outbound ?s)"
  have g: "fs_open_ok s" "io_lk io" "inc" "fs_next s dir \<noteq> seqnum_max"
    using assms(2) False by (auto simp: fs_next_seqnum_def Let_def split: if_splits)
  have sel: "fs_live ?s = fs_live s" "fs_valid ?s = fs_valid s" "fs_write_pos ?s = fs_write_pos s" "fs_generation ?s = fs_generation s" "fs_open_ok ?s"
    using g(1) by simp_all
  obtain r f where j: "write_job (io_sys io) ?ws True (fs_write_pos s) (fs_live s) = (r, f)" by fastforce
  note e = job_epoch [OF assms(1) g(1) counter_writes_encode(2) j, where ?s1.0 = ?s and s' = s', OF sel]
  have len: "length (concat (map snd ?ws)) = record_disk_size kCounterPayloadSize" unfolding counter_writes_encode(1) by simp
  have "s' = (if r = write_ok then ?s\<lparr>fs_live := f, fs_write_pos := fs_write_pos s + record_disk_size kCounterPayloadSize\<rparr> else after_failure r f ?s)"
    using assms(2) g j unfolding fs_next_seqnum_def Let_def sel by (cases r) simp_all
  then show ?thesis using e(1) e(2) [OF _ len] by (cases "r = write_ok") simp_all
qed (use assms(1) fs_keeps_refl in simp)

lemma reset_epoch:
  assumes "wp_inv s" "reset_store_to crc io ni no s = (res, s')"
  shows "wp_inv s' \<and> (fs_keeps s s' \<and> fs_generation s' = fs_generation s \<or> fs_generation s' = u64 (fs_generation s + 1))"
proof (cases "fs_open_ok s \<and> io_lk io")
  case True
  obtain r live' tmp' where j: "reset_job crc (expected_hash s) ni no (io_sys io) (fs_live s) (fs_tmp s) = (r, live', tmp')" by (metis prod_cases3)
  note c = reset_job_cases [OF j [unfolded expected_hash_def]]
  have "r = reset_done \<Longrightarrow> length (fl_bytes live') = fresh_end" using c(2) by (simp add: fresh_log_def log_bytes_def fresh_end_def)
  then show ?thesis using assms True j c(1) by (cases r) (auto simp: reset_store_to_def Let_def wp_inv_def fs_keeps_def)
qed (use assms fs_keeps_refl in \<open>auto simp: reset_store_to_def split: if_splits\<close>)

lemma fs_apply_epoch:
  assumes "wp_inv s"
  shows "wp_inv (fs_apply crc op s)"
    "fs_keeps s (fs_apply crc op s) \<and> fs_generation (fs_apply crc op s) = fs_generation s \<or> fs_generation (fs_apply crc op s) = u64 (fs_generation s + 1)"
proof -
  have "wp_inv (fs_apply crc op s) \<and> (fs_keeps s (fs_apply crc op s) \<and> fs_generation (fs_apply crc op s) = fs_generation s \<or>
      fs_generation (fs_apply crc op s) = u64 (fs_generation s + 1))"
  proof (cases op)
    case (FsStore io seq frame dir)
    then show ?thesis using store_epoch [OF assms prod.collapse [symmetric], of crc io seq frame dir] by simp
  next
    case (FsNext io dir inc)
    then show ?thesis using next_epoch [OF assms prod.collapse [symmetric], of crc io dir inc] by simp
  next
    case (FsReset io)
    then show ?thesis using reset_epoch [OF assms prod.collapse [symmetric], of crc io seqnum_min seqnum_min] by (simp add: fs_reset_def)
  next
    case (FsResetTo io ni no)
    then show ?thesis using reset_epoch [OF assms prod.collapse [symmetric], of crc io ni no] assms fs_keeps_refl by (simp add: fs_reset_to_def)
  next
    case (FsFlush io)
    then show ?thesis using assms by (auto simp: flush_for_session_close_def datasync_def wp_inv_def fs_keeps_def split: prod.splits outcome.splits)
  qed
  then show "wp_inv (fs_apply crc op s)"
    "fs_keeps s (fs_apply crc op s) \<and> fs_generation (fs_apply crc op s) = fs_generation s \<or> fs_generation (fs_apply crc op s) = u64 (fs_generation s + 1)"
    by auto
qed

text \<open>A read that succeeds returns what the file has there.\<close>

lemma pread_all_prefix: "pread_all sc n off f = (Some bs, sc') \<Longrightarrow> bs = take (length bs) (drop off (fl_bytes f)) \<and> length bs \<le> n"
proof (induction sc n off f arbitrary: bs sc' rule: pread_all.induct)
  case (3 a sc n off f)
  show ?case
  proof (cases a)
    case (Moved k)
    let ?got = "sub_span (fl_bytes f) off (min k (Suc n))"
    show ?thesis
    proof (cases "?got = []")
      case True
      then show ?thesis using "3.prems" Moved by (simp add: Let_def)
    next
      case False
      obtain bs1 where b: "pread_all sc (Suc n - length ?got) (off + length ?got) f = (Some bs1, sc')" "bs = ?got @ bs1"
        using "3.prems" Moved False by (auto simp: Let_def split: prod.splits option.splits)
      have IH: "bs1 = take (length bs1) (drop (off + length ?got) (fl_bytes f)) \<and> length bs1 \<le> Suc n - length ?got"
        using "3.IH"(1) [OF Moved refl False b(1)] .
      have g: "?got = take (length ?got) (drop off (fl_bytes f))" "length ?got \<le> Suc n" by (simp_all add: sub_span_def min_def)
      have "take (length ?got + length bs1) (drop off (fl_bytes f)) = ?got @ bs1"
        unfolding take_add drop_drop using g(1) IH by (metis add.commute)
      moreover have "length ?got + length bs1 \<le> Suc n" using IH g(2) by linarith
      ultimately show ?thesis using b(2) by simp
    qed
  qed (use 3 in auto)
qed (auto simp: sub_span_def min_def)

lemma read_exactly_sub_span: "read_exactly sc n off f = (Some bs, sc') \<Longrightarrow> bs = sub_span (fl_bytes f) off n"
  using pread_all_prefix [of sc n off f] by (auto simp: read_exactly_def sub_span_def split: prod.splits option.splits if_splits)

text \<open>The walk of a retrieval sees the store beside the answers to its reads.\<close>

definition walk_apply :: "(nat \<Rightarrow> byte list \<Rightarrow> nat) \<Rightarrow> file_op \<Rightarrow> file_store \<times> sys list \<Rightarrow> file_store \<times> sys list" where
  "walk_apply crc op st = (fs_apply crc op (fst st), snd st)"

definition walk_keeps :: "file_store \<times> sys list \<Rightarrow> file_store \<times> sys list \<Rightarrow> bool" where
  "walk_keeps st st' \<longleftrightarrow> fs_keeps (fst st) (fst st') \<and> (snd st = [] \<longrightarrow> snd st' = [])"

abbreviation walk_gen :: "file_store \<times> sys list \<Rightarrow> nat" where
  "walk_gen st \<equiv> fs_generation (fst st)"

lemma fold_walk_apply: "fold (walk_apply crc) ops st = (fold (fs_apply crc) ops (fst st), snd st)"
  by (induction ops arbitrary: st) (simp_all add: walk_apply_def)

lemma read_frame_payload_store: "fst (snd (read_frame_payload ie st)) = fst st" "snd st = [] \<Longrightarrow> snd (snd (read_frame_payload ie st)) = []"
proof -
  have "snd (pread_all [] n off f) = []" for n off f by (cases n) simp_all
  then have "snd (read_exactly [] n off f) = []" for n off f
    by (auto simp: read_exactly_def split: prod.splits option.splits) (metis snd_conv)+
  then show "fst (snd (read_frame_payload ie st)) = fst st" "snd st = [] \<Longrightarrow> snd (snd (read_frame_payload ie st)) = []"
    by (auto simp: read_frame_payload_def split: prod.splits) (metis snd_conv)
qed

lemma read_frame_payload_shown:
  assumes "walk_keeps st0 st" "entry_within (length (fl_bytes (fs_live (fst st0)))) ie"
  shows "fst (read_frame_payload ie st) = Some frame \<Longrightarrow> frame = snd (frame_at (fs_live (fst st0)) ie)"
    and "fst (read_frame_payload ie st) = None \<Longrightarrow> \<not> fs_valid (fst st) \<or> snd st \<noteq> []"
proof -
  let ?n = "ie_len ie" and ?off = "ie_file_offset ie + kHeaderSize"
  have b: "fs_valid (fst st) \<Longrightarrow> \<exists>t. fl_bytes (fs_live (fst st)) = fl_bytes (fs_live (fst st0)) @ t"
    using assms(1) by (auto simp: walk_keeps_def fs_keeps_def)
  have w: "?off + ?n \<le> length (fl_bytes (fs_live (fst st0)))" using assms(2) by (simp add: entry_within_def)
  show "frame = snd (frame_at (fs_live (fst st0)) ie)" if r: "fst (read_frame_payload ie st) = Some frame"
  proof -
    have v: "fs_valid (fst st)" "frame = sub_span (fl_bytes (fs_live (fst st))) ?off ?n"
      using r read_exactly_sub_span [of "snd st" ?n ?off "fs_live (fst st)" frame]
      by (auto simp: read_frame_payload_def split: prod.splits if_splits)
    then show ?thesis using b w by (auto simp: frame_at_def sub_span_def)
  qed
  show "\<not> fs_valid (fst st) \<or> snd st \<noteq> []" if r: "fst (read_frame_payload ie st) = None"
  proof (rule ccontr)
    assume "\<not> (\<not> fs_valid (fst st) \<or> snd st \<noteq> [])"
    moreover from this have "?off + ?n \<le> length (fl_bytes (fs_live (fst st)))" using b w by auto
    ultimately show False using r by (cases st) (simp add: read_frame_payload_def)
  qed
qed

interpretation fs_walk: snapshot_walk "\<lambda>st. wp_inv (fst st)" walk_gen "walk_apply crc" walk_keeps
    "\<lambda>st ie. entry_within (length (fl_bytes (fs_live (fst st)))) ie" read_frame_payload ie_seq
    "\<lambda>st ie. snd (frame_at (fs_live (fst st)) ie)" for crc
proof unfold_locales
  fix s :: "file_store \<times> sys list" and op assume "wp_inv (fst s)"
  from fs_apply_epoch(2) [OF this, of crc op]
  show "walk_keeps s (walk_apply crc op s) \<and> walk_gen (walk_apply crc op s) = walk_gen s \<or> walk_gen (walk_apply crc op s) = u64 (walk_gen s + 1)"
    by (auto simp: walk_apply_def walk_keeps_def)
next
  fix s s' s'' assume "walk_keeps s s'" "walk_keeps s' s''"
  then show "walk_keeps s s''" using fs_keeps_trans by (auto simp: walk_keeps_def)
next
  fix s0 s ie frame
  assume "walk_keeps s0 s" "entry_within (length (fl_bytes (fs_live (fst s0)))) ie" "fst (read_frame_payload ie s) = Some frame"
  then show "frame = snd (frame_at (fs_live (fst s0)) ie)" by (rule read_frame_payload_shown(1))
qed (simp_all add: walk_apply_def walk_keeps_def fs_apply_epoch(1) fs_keeps_refl read_frame_payload_store)

lemma mirrors_entries:
  assumes "mirrors crc rs s" "ie \<in> set (fs_index s dir)"
  shows "1 \<le> ie_seq ie \<and> entry_within (length (fl_bytes (fs_live s))) ie"
proof -
  obtain st where st: "replay sentinel_end rs scan_start = Some st" "fs_index s = index_for st" using assms(1) by (auto simp: mirrors_def)
  have b: "fl_bytes (fs_live s) = encode_sentinel crc (session_triple_hash (fc_sender (fs_cfg s)) (fc_target (fs_cfg s))) @ encode_records crc rs @ []"
    using assms(1) by (simp add: mirrors_def log_bytes_def)
  have "entry_within (sentinel_end + length (encode_records crc rs)) ie" using replay_logs(3) [OF st(1) b, of dir] assms(2) st(2) by auto
  moreover have "frame_at (fs_live s) ie \<in> set (logs_of rs dir)" using replay_logs(1) [OF st(1) b, of dir] assms(2) st(2) by (metis image_eqI list.set_map)
  moreover have "\<forall>e \<in> set (logs_of rs dir). 1 \<le> fst e" using assms(1) by (auto simp: mirrors_def in_order_def)
  ultimately show ?thesis unfolding b by force
qed

text \<open>The copy of the index is the range of the log.\<close>

lemma fs_snapshot_range:
  assumes "tail_end \<le> seqnum_max" "s + n = tail_end + 1" "1 \<le> s" "\<forall>ie \<in> set idx. 1 \<le> ie_seq ie"
    and "log_range (map (frame_at f) idx) s n = (frames, gap)"
  shows "\<exists>es. fs_snapshot idx (u32 s) tail_end snap = Some (snap @ es, gap \<or> tail_end = seqnum_max) \<and>
    map (frame_at f) es = frames \<and> set es \<subseteq> set idx"
  using assms(2-3,5)
proof (induction n arbitrary: s snap frames gap)
  case 0
  show ?case
  proof (cases "tail_end = seqnum_max")
    case True
    then have "u32 s = 0" using 0 by (simp add: u32_def seqnum_max_def)
    moreover have "idx = [] \<or> 0 < ie_seq (hd idx)" using assms(4) hd_in_set [of idx] by (cases "idx = []") (auto simp: Suc_le_eq)
    ultimately show ?thesis using True 0 by (subst fs_snapshot.simps) auto
  next
    case False
    then have "u32 s = s" using 0 assms(1) by (simp add: seqnum_max_def u32_def)
    then show ?thesis using False 0 by (subst fs_snapshot.simps) simp
  qed
next
  case (Suc n)
  let ?i = "s - ie_seq (hd idx)"
  have s: "u32 s = s" "s \<le> tail_end" using Suc.prems(1) assms(1) by (simp_all add: seqnum_max_def u32_def)
  have hd: "idx \<noteq> [] \<Longrightarrow> fst (hd (map (frame_at f) idx)) = ie_seq (hd idx)" by (simp add: hd_map)
  show ?case
  proof (cases "idx = [] \<or> s < ie_seq (hd idx) \<or> ?i \<ge> length idx \<or> ie_seq (idx ! ?i) \<noteq> s")
    case True
    then have "frames = []" "gap" using Suc.prems(3) hd by (auto simp: Let_def split: if_splits)
    moreover have "fs_snapshot idx s tail_end snap = Some (snap, True)"
      using True s(2) by (subst fs_snapshot.simps) (auto simp: Let_def)
    ultimately show ?thesis unfolding s(1) by (intro exI [of _ "[]"]) simp
  next
    case False
    let ?e = "idx ! ?i"
    have i: "?i < length idx" "ie_seq ?e = s" "?e \<in> set idx" using False by auto
    obtain fs where fs: "log_range (map (frame_at f) idx) (s + 1) n = (fs, gap)" "frames = frame_at f ?e # fs"
      using Suc.prems(3) False hd i(1,2) by (auto simp: Let_def split: if_splits prod.splits)
    obtain es where es: "fs_snapshot idx (u32 (s + 1)) tail_end (snap @ [?e]) = Some ((snap @ [?e]) @ es, gap \<or> tail_end = seqnum_max)"
        "map (frame_at f) es = fs" "set es \<subseteq> set idx"
      using Suc.IH [where s = "s + 1" and snap = "snap @ [?e]", OF _ _ fs(1)] Suc.prems(1,2) by auto
    have "fs_snapshot idx s tail_end snap = Some (snap @ ?e # es, gap \<or> tail_end = seqnum_max)"
      using False s(2) es(1) by (subst fs_snapshot.simps) (simp add: Let_def)
    then show ?thesis unfolding s(1) using es(2,3) fs(2) i(3) by (intro exI [of _ "?e # es"]) simp
  qed
qed

text \<open>The walk of a retrieval, from a snapshot taken in an open store.\<close>

lemma fs_walk_delivers:
  assumes wp: "wp_inv s" and held: "\<forall>e \<in> set es. entry_within (length (fl_bytes (fs_live s))) e"
    and "length es \<le> 2 ^ 32 - 1" "\<forall>q f v. length (fst (snd (on_frame visitor q f v))) < 2 ^ 32"
    and "map (frame_at (fs_live s)) es = frames"
  shows "\<exists>res n v' s' sc'. visit_walk visitor (\<lambda>(s, sc). fs_generation s) (\<lambda>ops (s, sc). (fold (fs_apply crc) ops s, sc)) read_frame_payload ie_seq
      (fs_generation s) es v (s, sc) [] = (res, take n frames, v', s', sc') \<and>
    (case res of None \<Rightarrow> n \<ge> length frames
     | Some r \<Rightarrow> ended_by visitor (take n frames) r v' \<or>
         r = unexpected store_io_failure \<and> (fs_generation s' \<noteq> fs_generation s \<or> \<not> fs_valid s' \<or> sc \<noteq> []))"
proof -
  obtain res seen v' s' sc' where w: "visit_walk visitor walk_gen (fold (walk_apply crc)) read_frame_payload ie_seq (walk_gen (s, sc)) es v (s, sc) [] =
      (res, seen, v', s', sc')" by (metis prod_cases5)
  have w': "visit_walk visitor (\<lambda>(s, sc). fs_generation s) (\<lambda>ops (s, sc). (fold (fs_apply crc) ops s, sc)) read_frame_payload ie_seq
      (fs_generation s) es v (s, sc) [] = (res, seen, v', s', sc')"
    unfolding w [unfolded fst_conv, symmetric]
    by (rule arg_cong2 [where f = "\<lambda>g r. visit_walk visitor g r read_frame_payload ie_seq (fs_generation s) es v (s, sc) []"])
      (auto simp: fun_eq_iff fold_walk_apply)
  have k: "0 + length es * (2 ^ 32 - 1) < 2 ^ 64" using assms(3) by simp
  have b: "\<forall>q f v. length (fst (snd (on_frame visitor q f v))) \<le> 2 ^ 32 - 1" using assms(4) by (auto simp: less_eq_Suc_le)
  have at: "fs_walk.walk_at (s, sc) 0 (s, sc)" using wp by (simp add: fs_walk.walk_at_def walk_keeps_def fs_keeps_refl)
  have shown: "map (\<lambda>e. (ie_seq e, snd (frame_at (fs_live s) e))) es = frames" unfolding assms(5) [symmetric] by (simp add: prod_eq_iff)
  obtain n where n: "seen = take n frames"
      "case res of None \<Rightarrow> n \<ge> length es
       | Some r \<Rightarrow> ended_by visitor seen r v' \<or> r = unexpected store_io_failure \<and>
           (fs_generation s' \<noteq> fs_generation s \<or> (\<exists>e \<in> set es. \<exists>st. walk_keeps (s, sc) st \<and> read_frame_payload e st = (None, s', sc')))"
    using fs_walk.walk_frames [where ?s0.0 = "(s, sc)" and crc = crc, OF _ at k b _ w] wp held
    unfolding fst_conv shown by (auto split: option.splits)
  have bad: "\<not> fs_valid s' \<or> sc \<noteq> []" if "e \<in> set es" "walk_keeps (s, sc) st" "read_frame_payload e st = (None, s', sc')" for e st
    using read_frame_payload_shown(2) [OF that(2), where ie = e] held that read_frame_payload_store [where ie = e and st = st] by (auto simp: walk_keeps_def)
  have "length es = length frames" using assms(5) by auto
  then show ?thesis using w' n bad
    by (intro exI [of _ res] exI [of _ n] exI [of _ v'] exI [of _ s'] exI [of _ sc']) (auto split: option.splits)
qed


subsection \<open>When no call fails\<close>

abbreviation plain :: file_io where
  "plain \<equiv> \<lparr>io_lk = True, io_sys = []\<rparr>"

lemma run_writes_plain: "\<exists>f'. run_writes [] ws f = (Succeeded, [], f')"
proof (induction ws arbitrary: f)
  case (Cons w ws)
  obtain off bs where w: "w = (off, bs)" by fastforce
  have "\<exists>f'. pwrite_all [] bs off f = (Succeeded, [], f')" by (cases bs) simp_all
  then show ?case using Cons.IH w by fastforce
qed simp

lemma write_job_plain: "fst (write_job [] ws fl committed f) = write_ok"
  using run_writes_plain [of ws f] by (auto simp: write_job_def datasync_def sys_call_def)

lemma store_plain:
  assumes "fs_open_ok s" "seq = fs_next s dir" "length frame \<le> fc_max_frame_bytes (fs_cfg s)"
  shows "fst (fs_store crc plain seq frame dir s) = ok ()"
proof -
  let ?ws = "store_writes crc (fs_write_pos s) dir seq frame (if dir = inbound then u32 (fs_next_inbound s + 1) else fs_next_inbound s)
    (if dir = outbound then u32 (fs_next_outbound s + 1) else fs_next_outbound s)"
  obtain f where "write_job [] ?ws (flush_due s) (fs_write_pos s) (fs_live s) = (write_ok, f)" using write_job_plain by (metis prod.collapse)
  then show ?thesis using assms unfolding fs_store_def Let_def by simp
qed

lemma open_plain: "\<exists>s. open_log crc cfg [] \<lparr>fl_bytes = [], fl_synced = []\<rparr> tmp = (Some s, fs_live s, None) \<and>
    fs_open_ok s \<and> fs_next s = (\<lambda>_. seqnum_min) \<and> fs_log s = (\<lambda>_. [])"
proof -
  obtain f1 where 1: "write_sentinel crc (session_triple_hash (fc_sender cfg) (fc_target cfg)) 0 [] \<lparr>fl_bytes = [], fl_synced = []\<rparr> = (Succeeded, [], f1)"
    unfolding write_sentinel_def Let_def using run_writes_plain by metis
  obtain f2 where 2: "write_counter crc sentinel_end seqnum_min seqnum_min [] f1 = (Succeeded, [], f2)"
    unfolding write_counter_def Let_def using run_writes_plain by metis
  show ?thesis using 1 2
    by (simp add: open_log_def sys_call_def restart_scan_def initialise_fresh_def datasync_def fs_next_def fs_log_def fs_index_def fun_eq_iff)
qed

text \<open>A checksum with the range of the one the code uses.\<close>

abbreviation sum_crc :: "nat \<Rightarrow> byte list \<Rightarrow> nat" where
  "sum_crc \<equiv> \<lambda>c bs. (c + sum_list (map byte_val bs)) mod 2 ^ 32"

abbreviation small_cfg :: file_config where
  "small_cfg \<equiv> \<lparr>fc_sender = ''A'', fc_target = ''B'', fc_policy = \<lparr>fp_which = commit_per_message, fp_batch_size = 0\<rparr>, fc_max_frame_bytes = 64\<rparr>"

lemma small_ok: "crc_range sum_crc" "cfg_ok small_cfg"
  by (simp_all add: cfg_ok_def kCounterPayloadSize_def)

lemma small_log: "\<exists>s. fs_reachable sum_crc small_cfg s \<and> fs_inv sum_crc s \<and> fs_cfg s = small_cfg \<and>
    fs_open_ok s \<and> fs_next s = (\<lambda>_. seqnum_min) \<and> fs_log s = (\<lambda>_. [])"
proof -
  obtain s where s: "open_log sum_crc small_cfg [] \<lparr>fl_bytes = [], fl_synced = []\<rparr> None = (Some s, fs_live s, None)"
    "fs_open_ok s" "fs_next s = (\<lambda>_. seqnum_min)" "fs_log s = (\<lambda>_. [])" using open_plain by blast
  have r: "fs_reachable sum_crc small_cfg s" by (rule created [OF s(1)])
  then show ?thesis using s fs_reachable_inv [OF r small_ok] by blast
qed



text \<open>A visitor that stores a frame while it looks at one.\<close>

abbreviation storing_visitor :: "(unit, file_op) retrieve_visitor" where
  "storing_visitor \<equiv> \<lparr>on_frame = \<lambda>q f v. (Visited cont, [FsStore plain 2 ''cd'' outbound], v), abort_error = \<lambda>v. store_visitor_aborted\<rparr>"


end
