(* ===== verification/Fixpp_AsyncMutex.thy ===== *)
theory Fixpp_AsyncMutex
  imports Fixpp_Prelude
begin

text \<open>
  The asynchronous mutex (\<^verbatim>\<open>include/fixpp/core/sync/async_mutex.hpp\<close>) under contention between
  threads, at the granularity of its atomic operations.

  A frame is one caller of \<^verbatim>\<open>async_lock\<close> (a coroutine with its \<^verbatim>\<open>lock_frame\<close>); its program point says
  which atomic operation of \<^verbatim>\<open>lock_op_\<close> or \<^verbatim>\<open>unlock\<close> comes next.  What happens to a waiter record
  beside its frame is kept in the record: the initiating call that published it and has not yet
  dropped its own reference, the cancellation that won the record and has not yet scheduled its
  frame, the runners that are posted, and those that invoked the handler and have not yet dropped
  their reference.  A pointer to a record stands for the chain of records linked by \<^verbatim>\<open>next_\<close>, so that
  a list is the list of its pointers; a compare-and-exchange compares the first pointer only.  Records
  are freed when their count reaches 0, and a freed pointer can be allocated again.

  Locking, unlocking, cancelling and resuming interleave freely.  A cancellation reaches a record once
  its frame is parked: the signal is emitted on the executor that runs the initiating call.  A
  weak exchange may fail without cause, and an allocation may fail or return any pointer that is
  not in use (for the pool, see \<open>Fixpp_WaiterPool\<close>).  A drain runs on the executor that
  serialises it with the other calls, as its contract demands: each pass takes place while no call is
  under way, and only the posted runners, which run on the executors of the waiters, overlap it.

  The memory orders of the atomics are not modelled: operations interleave, each taking effect at
  once.  The field \<open>am_turn\<close> is not in the code: it names the frame that has the lock or is passing it
  on, and no rule depends on it.
\<close>

subsection \<open>State\<close>

type_synonym frame_id = nat
type_synonym ptr = nat

datatype waiter_phase = queued | granted | cancelled

datatype lock_word = not_locked | locked "ptr list"

text \<open>What a load of the word shows.\<close>

datatype word_view = Free_view | Empty_view | Head_view ptr

fun view_of :: "lock_word \<Rightarrow> word_view" where
  "view_of not_locked = Free_view"
| "view_of (locked []) = Empty_view"
| "view_of (locked (p # ps)) = Head_view p"

fun stack_of :: "lock_word \<Rightarrow> ptr list" where
  "stack_of not_locked = []"
| "stack_of (locked ps) = ps"

record waiter =
  w_phase :: waiter_phase
  w_result :: "unit expected_t option"
  w_frame :: "frame_id option"
  w_refs :: nat
  w_publishing :: bool
  w_aborting :: bool
  w_posted :: nat
  w_running :: nat

datatype pc =
    Idle
  | Acquire
  | Alloc
  | Ready ptr
  | Enrol ptr word_view
  | Parked ptr
  | Rejected error
  | Holding
  | Enter
  | Splitting
  | Walk "ptr list" bool
  | Grant ptr "ptr list" bool
  | Splice ptr "ptr list"
  | Drop ptr
  | Sched ptr
  | Take
  | Free

record am =
  am_word :: lock_word
  am_drain_head :: "ptr list"
  am_heap :: "ptr \<Rightarrow> waiter option"
  am_holders :: nat
  am_resumers :: nat
  am_leaving :: nat
  am_draining :: bool
  am_complete :: bool
  am_pcs :: "frame_id \<Rightarrow> pc"
  am_trapped :: bool
  am_turn :: "frame_id option"

definition am_init :: am where
  "am_init = \<lparr>am_word = not_locked, am_drain_head = [], am_heap = (\<lambda>_. None), am_holders = 0, am_resumers = 0, am_leaving = 0,
     am_draining = False, am_complete = False, am_pcs = (\<lambda>_. Idle), am_trapped = False, am_turn = None\<rparr>"

definition go :: "frame_id \<Rightarrow> pc \<Rightarrow> am \<Rightarrow> am" where
  "go t c s = s\<lparr>am_pcs := (am_pcs s)(t := c)\<rparr>"

definition put :: "ptr \<Rightarrow> waiter \<Rightarrow> am \<Rightarrow> am" where
  "put p w s = s\<lparr>am_heap := (am_heap s)(p \<mapsto> w)\<rparr>"

text \<open>\<^verbatim>\<open>release_ref\<close> of a record whose other fields are those of \<open>w\<close>.\<close>

definition release_ref :: "ptr \<Rightarrow> waiter \<Rightarrow> am \<Rightarrow> am" where
  "release_ref p w s =
     (if w_refs w = 1 then s\<lparr>am_heap := (am_heap s)(p := None)\<rparr> else put p (w\<lparr>w_refs := w_refs w - 1\<rparr>) s)"

text \<open>\<^verbatim>\<open>schedule_resume\<close>: a reference, the count of resumers, and a posted runner.\<close>

definition schedule_resume :: "ptr \<Rightarrow> waiter \<Rightarrow> am \<Rightarrow> am" where
  "schedule_resume p w s =
     put p (w\<lparr>w_refs := w_refs w + 1, w_posted := w_posted w + 1\<rparr>) (s\<lparr>am_resumers := am_resumers s + 1\<rparr>)"

definition new_waiter :: "frame_id \<Rightarrow> waiter" where
  "new_waiter t = \<lparr>w_phase = queued, w_result = None, w_frame = Some t, w_refs = 2, w_publishing = False, w_aborting = False, w_posted = 0, w_running = 0\<rparr>"

definition reject :: "error \<Rightarrow> waiter \<Rightarrow> waiter" where
  "reject e w = w\<lparr>w_phase := cancelled, w_result := Some (unexpected e)\<rparr>"

definition accept :: "waiter \<Rightarrow> waiter" where
  "accept w = w\<lparr>w_phase := granted, w_result := Some (ok ())\<rparr>"

subsection \<open>Draining\<close>

text \<open>\<^verbatim>\<open>reap_chain\<close>.  A record that is used after its last reference is gone traps.\<close>

definition reap_one :: "ptr \<Rightarrow> am \<Rightarrow> am" where
  "reap_one p s =
     (case am_heap s p of
        None \<Rightarrow> s\<lparr>am_trapped := True\<rparr>
      | Some w \<Rightarrow>
          if w_phase w = queued then
            if w_refs w = 1 then s\<lparr>am_trapped := True\<rparr>
            else schedule_resume p (reject sync_lock_aborted w\<lparr>w_refs := w_refs w - 1\<rparr>) s
          else release_ref p w s)"

definition reap_chain :: "ptr list \<Rightarrow> am \<Rightarrow> am" where
  "reap_chain ps s = fold reap_one ps s"

text \<open>One turn of the quiescence loop, with the final exchange of the word where it ends.\<close>

definition drain_pass :: "am \<Rightarrow> am" where
  "drain_pass s =
     (let lifo = stack_of (am_word s); fifo = am_drain_head s;
          s = reap_chain fifo (reap_chain (rev lifo) (s\<lparr>am_word := locked [], am_drain_head := []\<rparr>)) in
      if am_holders s = 0 \<and> am_resumers s = 0 \<and> lifo = [] \<and> fifo = []
      then if am_word s = locked [] then s\<lparr>am_word := not_locked, am_complete := True\<rparr> else s\<lparr>am_trapped := True\<rparr>
      else s)"

text \<open>No call is under way.\<close>

fun at_rest :: "pc \<Rightarrow> bool" where
  "at_rest Idle = True"
| "at_rest (Parked p) = True"
| "at_rest (Rejected e) = True"
| "at_rest Holding = True"
| "at_rest _ = False"

definition serial :: "am \<Rightarrow> bool" where
  "serial s \<longleftrightarrow> (\<forall>t. at_rest (am_pcs s t)) \<and> (\<forall>p w. am_heap s p = Some w \<longrightarrow> \<not> w_publishing w \<and> \<not> w_aborting w)"

text \<open>What the destructor demands.\<close>

definition destroyable :: "am \<Rightarrow> bool" where
  "destroyable s \<longleftrightarrow> am_word s = not_locked \<and> am_drain_head s = [] \<and> am_resumers s = 0"

subsection \<open>Steps\<close>

text \<open>The records whose fields the next operation of a frame reads or writes.\<close>

fun touched :: "lock_word \<Rightarrow> pc \<Rightarrow> ptr list" where
  "touched w (Ready p) = [p]"
| "touched w (Enrol p v) = [p]"
| "touched w (Walk (p # ps) b) = [p]"
| "touched w (Grant p ps b) = [p]"
| "touched w (Splice p ps) = p # ps"
| "touched w (Drop p) = [p]"
| "touched w (Sched p) = [p]"
| "touched w Take = stack_of w"
| "touched w _ = []"

datatype actor = Frame frame_id | Aside ptr | Drainer

inductive am_step :: "actor \<Rightarrow> am \<Rightarrow> am \<Rightarrow> bool" where
  lock_call: "am_pcs s t = Idle \<Longrightarrow> \<not> am_draining s \<Longrightarrow> am_step (Frame t) s (go t Acquire s)"
| lock_drained: "am_pcs s t = Idle \<Longrightarrow> am_draining s \<Longrightarrow> am_step (Frame t) s (go t (Rejected sync_lock_drained) s)"
| acquire_fast: "am_pcs s t = Acquire \<Longrightarrow> am_word s = not_locked \<Longrightarrow>
    am_step (Frame t) s (go t Holding (s\<lparr>am_word := locked [], am_holders := am_holders s + 1, am_turn := Some t\<rparr>))"
| acquire_busy: "am_pcs s t = Acquire \<Longrightarrow> am_word s \<noteq> not_locked \<Longrightarrow> am_step (Frame t) s (go t Alloc s)"
| alloc_fails: "am_pcs s t = Alloc \<Longrightarrow> am_step (Frame t) s (go t (Rejected sync_lock_alloc_failed) s)"
| alloc: "am_pcs s t = Alloc \<Longrightarrow> am_heap s p = None \<Longrightarrow> am_step (Frame t) s (go t (Ready p) (put p (new_waiter t) s))"
| assign_fails: "am_pcs s t = Ready p \<Longrightarrow> am_heap s p = Some w \<Longrightarrow>
    am_step (Frame t) s (go t (Parked p) (schedule_resume p (reject sync_lock_alloc_failed w\<lparr>w_publishing := True\<rparr>) s))"
| recheck_drained: "am_pcs s t = Ready p \<Longrightarrow> am_draining s \<Longrightarrow> am_heap s p = Some w \<Longrightarrow>
    am_step (Frame t) s (go t (Parked p) (schedule_resume p (reject sync_lock_drained w\<lparr>w_publishing := True\<rparr>) s))"
| reload: "am_pcs s t = Ready p \<Longrightarrow> \<not> am_draining s \<Longrightarrow> am_step (Frame t) s (go t (Enrol p (view_of (am_word s))) s)"
| enrol_free: "am_pcs s t = Enrol p Free_view \<Longrightarrow> am_word s = not_locked \<Longrightarrow> am_heap s p = Some w \<Longrightarrow>
    am_step (Frame t) s (go t (Parked p) (schedule_resume p (accept w\<lparr>w_publishing := True\<rparr>)
      (s\<lparr>am_word := locked [], am_holders := am_holders s + 1, am_turn := Some t\<rparr>)))"
| enrol_push: "am_pcs s t = Enrol p v \<Longrightarrow> v \<noteq> Free_view \<Longrightarrow> view_of (am_word s) = v \<Longrightarrow> am_heap s p = Some w \<Longrightarrow>
    am_step (Frame t) s (go t (Parked p) (put p (w\<lparr>w_refs := w_refs w + 1, w_publishing := True\<rparr>)
      (s\<lparr>am_word := locked (p # stack_of (am_word s))\<rparr>)))"
| enrol_again: "am_pcs s t = Enrol p v \<Longrightarrow> am_step (Frame t) s (go t (Enrol p (view_of (am_word s))) s)"
| publish_done: "am_heap s p = Some w \<Longrightarrow> w_publishing w \<Longrightarrow>
    am_step (Aside p) s (release_ref p (w\<lparr>w_publishing := False\<rparr>) s)"
| cancel: "am_pcs s t = Parked p \<Longrightarrow> am_heap s p = Some w \<Longrightarrow> w_phase w = queued \<Longrightarrow>
    am_step (Aside p) s (put p (reject sync_lock_aborted w\<lparr>w_aborting := True\<rparr>) s)"
| abort_schedules: "am_heap s p = Some w \<Longrightarrow> w_aborting w \<Longrightarrow>
    am_step (Aside p) s (schedule_resume p (w\<lparr>w_aborting := False\<rparr>) s)"
| resume: "am_heap s p = Some w \<Longrightarrow> w_posted w > 0 \<Longrightarrow> w_frame w = Some t \<Longrightarrow> w_result w = Some r \<Longrightarrow>
    am_step (Frame t) s (go t (case r of Inl e \<Rightarrow> Rejected e | Inr _ \<Rightarrow> Holding)
      (release_ref p (w\<lparr>w_posted := w_posted w - 1, w_running := w_running w + 1, w_frame := None\<rparr>) s))"
| resume_trap: "am_heap s p = Some w \<Longrightarrow> w_posted w > 0 \<Longrightarrow> w_frame w = None \<or> w_result w = None \<Longrightarrow> am_step (Aside p) s (s\<lparr>am_trapped := True\<rparr>)"
| runner_releases: "am_heap s p = Some w \<Longrightarrow> w_running w > 0 \<Longrightarrow>
    am_step (Aside p) s (release_ref p (w\<lparr>w_running := w_running w - 1\<rparr>) (s\<lparr>am_leaving := am_leaving s + 1\<rparr>))"
| runner_done: "am_leaving s > 0 \<Longrightarrow>
    am_step (Aside p) s (s\<lparr>am_leaving := am_leaving s - 1, am_resumers := am_resumers s - 1\<rparr>)"
| rejected_returns: "am_pcs s t = Rejected e \<Longrightarrow> am_step (Frame t) s (go t Idle s)"
| unlock_call: "am_pcs s t = Holding \<Longrightarrow> am_step (Frame t) s (go t Enter s)"
| unlock_enter: "am_pcs s t = Enter \<Longrightarrow> \<not> am_draining s \<Longrightarrow>
    am_step (Frame t) s (go t Splitting (s\<lparr>am_holders := am_holders s - 1\<rparr>))"
| unlock_draining: "am_pcs s t = Enter \<Longrightarrow> am_draining s \<Longrightarrow>
    am_step (Frame t) s (go t Idle (s\<lparr>am_word := (if am_word s = locked [] then not_locked else am_word s),
      am_holders := am_holders s - 1, am_turn := None\<rparr>))"
| take_residual: "am_pcs s t = Splitting \<Longrightarrow>
    am_step (Frame t) s (go t (Walk (am_drain_head s) False) (s\<lparr>am_drain_head := []\<rparr>))"
| walk_end: "am_pcs s t = Walk [] b \<Longrightarrow> am_step (Frame t) s (go t (if b then Free else Take) s)"
| walk_queued: "am_pcs s t = Walk (p # ps) b \<Longrightarrow> am_heap s p = Some w \<Longrightarrow> w_phase w = queued \<Longrightarrow>
    am_step (Frame t) s (go t (Grant p ps b) s)"
| walk_cancelled: "am_pcs s t = Walk (p # ps) b \<Longrightarrow> am_heap s p = Some w \<Longrightarrow> w_phase w = cancelled \<Longrightarrow>
    am_step (Frame t) s (go t (Walk ps b) (release_ref p w s))"
| walk_trap: "am_pcs s t = Walk (p # ps) b \<Longrightarrow> am_heap s p = Some w \<Longrightarrow> w_phase w = granted \<Longrightarrow>
    am_step (Frame t) s (s\<lparr>am_trapped := True\<rparr>)"
| grant: "am_pcs s t = Grant p ps b \<Longrightarrow> am_heap s p = Some w \<Longrightarrow> w_phase w = queued \<Longrightarrow>
    am_step (Frame t) s (go t (Splice p ps) (put p (accept w) (s\<lparr>am_holders := am_holders s + 1\<rparr>)))"
| grant_lost: "am_pcs s t = Grant p ps b \<Longrightarrow> am_heap s p = Some w \<Longrightarrow> w_phase w = cancelled \<Longrightarrow>
    am_step (Frame t) s (go t (Walk ps b) (release_ref p w s))"
| grant_trap: "am_pcs s t = Grant p ps b \<Longrightarrow> am_heap s p = Some w \<Longrightarrow> w_phase w = granted \<Longrightarrow>
    am_step (Frame t) s (s\<lparr>am_trapped := True\<rparr>)"
| splice: "am_pcs s t = Splice p ps \<Longrightarrow>
    am_step (Frame t) s (go t (Drop p) (s\<lparr>am_drain_head := ps @ am_drain_head s\<rparr>))"
| drop: "am_pcs s t = Drop p \<Longrightarrow> am_heap s p = Some w \<Longrightarrow> am_step (Frame t) s (go t (Sched p) (release_ref p w s))"
| sched: "am_pcs s t = Sched p \<Longrightarrow> am_heap s p = Some w \<Longrightarrow>
    am_step (Frame t) s (go t Idle (schedule_resume p w (s\<lparr>am_turn := w_frame w\<rparr>)))"
| take: "am_pcs s t = Take \<Longrightarrow>
    am_step (Frame t) s (go t (if stack_of (am_word s) = [] then Free else Walk (rev (stack_of (am_word s))) True) (s\<lparr>am_word := locked []\<rparr>))"
| free: "am_pcs s t = Free \<Longrightarrow> am_word s = locked [] \<Longrightarrow>
    am_step (Frame t) s (go t Idle (s\<lparr>am_word := not_locked, am_turn := None\<rparr>))"
| free_lost: "am_pcs s t = Free \<Longrightarrow> am_word s \<noteq> locked [] \<Longrightarrow>
    am_step (Frame t) s (go t Enter (s\<lparr>am_holders := am_holders s + 1\<rparr>))"
| dangling: "p \<in> set (touched (am_word s) (am_pcs s t)) \<Longrightarrow> am_heap s p = None \<Longrightarrow> am_step (Frame t) s (s\<lparr>am_trapped := True\<rparr>)"
| drain_call: "serial s \<Longrightarrow> \<not> am_draining s \<Longrightarrow> am_step Drainer s (drain_pass (s\<lparr>am_draining := True\<rparr>))"
| drain_again: "serial s \<Longrightarrow> am_draining s \<Longrightarrow> \<not> am_complete s \<Longrightarrow> am_step Drainer s (drain_pass s)"

inductive am_reachable :: "am \<Rightarrow> bool" where
  start: "am_reachable am_init"
| next_step: "am_reachable s \<Longrightarrow> am_step a s s' \<Longrightarrow> am_reachable s'"

subsection \<open>Invariant\<close>

fun own :: "pc \<Rightarrow> ptr option" where
  "own (Ready p) = Some p"
| "own (Enrol p v) = Some p"
| "own (Parked p) = Some p"
| "own _ = None"

fun unpublished :: "pc \<Rightarrow> bool" where
  "unpublished (Ready p) = True"
| "unpublished (Enrol p v) = True"
| "unpublished _ = False"

fun priv :: "pc \<Rightarrow> ptr list" where
  "priv (Walk ps b) = ps"
| "priv (Grant p ps b) = p # ps"
| "priv (Splice p ps) = ps"
| "priv _ = []"

fun handing :: "pc \<Rightarrow> ptr option" where
  "handing (Splice p ps) = Some p"
| "handing (Drop p) = Some p"
| "handing (Sched p) = Some p"
| "handing _ = None"

fun dropping :: "pc \<Rightarrow> ptr option" where
  "dropping (Splice p ps) = Some p"
| "dropping (Drop p) = Some p"
| "dropping _ = None"

fun emptied :: "pc \<Rightarrow> bool" where
  "emptied (Walk ps b) = True"
| "emptied (Grant p ps b) = True"
| "emptied (Splice p ps) = True"
| "emptied Take = True"
| "emptied Free = True"
| "emptied _ = False"

fun unlocking :: "pc \<Rightarrow> bool" where
  "unlocking Splitting = True"
| "unlocking Take = True"
| "unlocking Free = True"
| "unlocking (Walk ps b) = True"
| "unlocking (Grant p ps b) = True"
| "unlocking (Splice p ps) = True"
| "unlocking (Drop p) = True"
| "unlocking (Sched p) = True"
| "unlocking _ = False"

definition carrying :: "pc \<Rightarrow> bool" where
  "carrying c \<longleftrightarrow> c = Holding \<or> c = Enter \<or> unlocking c"

fun counted :: "pc \<Rightarrow> bool" where
  "counted Holding = True"
| "counted Enter = True"
| "counted (Parked p) = True"
| "counted c = (handing c \<noteq> None)"

text \<open>The program point of the frame whose turn it is, the waiters in the order they are served, and the
  runners that are counted.\<close>

definition turn_pc :: "am \<Rightarrow> pc" where
  "turn_pc s = (case am_turn s of None \<Rightarrow> Idle | Some t \<Rightarrow> am_pcs s t)"

definition lists :: "am \<Rightarrow> ptr list" where
  "lists s = priv (turn_pc s) @ am_drain_head s @ rev (stack_of (am_word s))"

definition runners :: "(ptr \<Rightarrow> waiter option) \<Rightarrow> nat" where
  "runners h = (\<Sum>p \<in> dom h. w_posted (the (h p)) + w_running (the (h p)))"

text \<open>The references to a record.\<close>

definition refs_due :: "bool \<Rightarrow> bool \<Rightarrow> pc option \<Rightarrow> waiter \<Rightarrow> nat" where
  "refs_due inl dropg c w =
     (if c = None then 0 else 1) + (if inl \<or> dropg then 1 else 0) +
     (if w_publishing w \<or> (\<exists>c'. c = Some c' \<and> unpublished c') then 1 else 0) + w_posted w + w_running w"

text \<open>A record, given whether it is in a list, whether its reference there is about to be dropped,
  whether it is being handed the lock, where its frame is, and whether it is the frame's turn: what
  its phase means, and that its count exceeds by \<open>k\<close> the number of those that refer to it.\<close>

definition rec_good :: "nat \<Rightarrow> ptr \<Rightarrow> bool \<Rightarrow> bool \<Rightarrow> bool \<Rightarrow> pc option \<Rightarrow> bool \<Rightarrow> waiter \<Rightarrow> bool" where
  "rec_good k p inl dropg hand c turn w \<longleftrightarrow>
     w_refs w = k + refs_due inl dropg c w \<and>
     (\<forall>c'. c = Some c' \<longrightarrow> own c' = Some p \<and> (unpublished c' \<longrightarrow> w_phase w = queued \<and> \<not> w_publishing w)) \<and>
     (dropg \<longrightarrow> hand) \<and> (hand \<longrightarrow> w_phase w = granted) \<and>
     (case w_phase w of
        queued \<Rightarrow> w_posted w = 0 \<and> w_running w = 0 \<and> \<not> w_aborting w \<and> c \<noteq> None \<and> (inl \<longleftrightarrow> c = Some (Parked p))
      | cancelled \<Rightarrow> (\<exists>e. w_result w = Some (Inl e)) \<and>
          (if c = None then w_posted w = 0 \<and> \<not> w_aborting w
           else c = Some (Parked p) \<and> w_running w = 0 \<and> w_posted w + of_bool (w_aborting w) = 1)
      | granted \<Rightarrow> \<not> inl \<and> w_result w = Some (ok ()) \<and> \<not> w_aborting w \<and>
          (if c = None then w_posted w = 0 \<and> \<not> hand
           else c = Some (Parked p) \<and> w_running w = 0 \<and> (if hand then w_posted w = 0 \<and> \<not> turn else w_posted w = 1 \<and> turn)))"

definition rec_over :: "nat \<Rightarrow> am \<Rightarrow> ptr \<Rightarrow> waiter \<Rightarrow> bool" where
  "rec_over k s p w = rec_good k p (p \<in> set (lists s)) (dropping (turn_pc s) = Some p) (handing (turn_pc s) = Some p)
     (map_option (am_pcs s) (w_frame w)) (am_turn s = w_frame w) w"

definition rec_ok :: "am \<Rightarrow> ptr \<Rightarrow> waiter \<Rightarrow> bool" where
  "rec_ok s p w \<longleftrightarrow> 0 < w_refs w \<and> rec_over 0 s p w"

definition own_ok :: "am \<Rightarrow> bool" where
  "own_ok s \<longleftrightarrow> (\<forall>t p. own (am_pcs s t) = Some p \<longrightarrow> (\<exists>w. am_heap s p = Some w \<and> w_frame w = Some t))"

definition recs_ok :: "am \<Rightarrow> bool" where
  "recs_ok s \<longleftrightarrow> (\<forall>p w. am_heap s p = Some w \<longrightarrow> rec_ok s p w)"

definition lists_ok :: "am \<Rightarrow> bool" where
  "lists_ok s \<longleftrightarrow> distinct (lists s) \<and> (\<forall>p \<in> set (lists s). am_heap s p \<noteq> None) \<and>
     (\<forall>p. handing (turn_pc s) = Some p \<longrightarrow> (\<exists>w. am_heap s p = Some w \<and> w_frame w \<noteq> None))"

definition turn_ok :: "am \<Rightarrow> bool" where
  "turn_ok s \<longleftrightarrow>
     (\<forall>t. carrying (am_pcs s t) \<longrightarrow> am_turn s = Some t) \<and>
     (\<forall>t. am_turn s = Some t \<longrightarrow> carrying (am_pcs s t) \<or>
        (\<exists>p w. am_pcs s t = Parked p \<and> am_heap s p = Some w \<and> w_phase w = granted \<and> w_posted w = 1)) \<and>
     (am_turn s \<noteq> None \<longrightarrow> am_word s \<noteq> not_locked) \<and>
     (am_turn s = None \<longrightarrow> \<not> am_draining s \<longrightarrow> am_word s = not_locked \<and> am_drain_head s = []) \<and>
     (emptied (turn_pc s) \<longrightarrow> am_drain_head s = [])"

definition counts_ok :: "am \<Rightarrow> bool" where
  "counts_ok s \<longleftrightarrow> am_holders s = of_bool (counted (turn_pc s)) \<and> finite (dom (am_heap s)) \<and>
     am_resumers s = am_leaving s + runners (am_heap s)"

definition drain_ok :: "am \<Rightarrow> bool" where
  "drain_ok s \<longleftrightarrow>
     (am_draining s \<longrightarrow> lists s = [] \<and> (\<forall>t. at_rest (am_pcs s t) \<or> am_pcs s t = Enter)) \<and>
     (am_complete s \<longrightarrow> am_draining s \<and> am_word s = not_locked \<and> am_heap s = Map.empty \<and> am_resumers s = 0 \<and> am_turn s = None)"

definition am_inv :: "am \<Rightarrow> bool" where
  "am_inv s \<longleftrightarrow> own_ok s \<and> recs_ok s \<and> lists_ok s \<and> turn_ok s \<and> counts_ok s \<and> drain_ok s \<and> \<not> am_trapped s"

lemma go_simps [simp]:
  "am_word (go t c s) = am_word s" "am_drain_head (go t c s) = am_drain_head s" "am_heap (go t c s) = am_heap s"
  "am_draining (go t c s) = am_draining s" "am_trapped (go t c s) = am_trapped s" "am_turn (go t c s) = am_turn s"
  "am_pcs (go t c s) = (am_pcs s)(t := c)" "am_holders (go t c s) = am_holders s" "am_resumers (go t c s) = am_resumers s"
  "am_leaving (go t c s) = am_leaving s" "am_complete (go t c s) = am_complete s"
  by (simp_all add: go_def)

lemma put_simps [simp]:
  "am_word (put p w s) = am_word s" "am_drain_head (put p w s) = am_drain_head s" "am_heap (put p w s) = (am_heap s)(p \<mapsto> w)"
  "am_draining (put p w s) = am_draining s" "am_trapped (put p w s) = am_trapped s" "am_turn (put p w s) = am_turn s"
  "am_pcs (put p w s) = am_pcs s" "am_holders (put p w s) = am_holders s" "am_resumers (put p w s) = am_resumers s"
  "am_leaving (put p w s) = am_leaving s" "am_complete (put p w s) = am_complete s"
  by (simp_all add: put_def)

lemma release_simps [simp]:
  "am_word (release_ref p w s) = am_word s" "am_drain_head (release_ref p w s) = am_drain_head s"
  "am_heap (release_ref p w s) = (am_heap s)(p := if w_refs w = 1 then None else Some (w\<lparr>w_refs := w_refs w - 1\<rparr>))"
  "am_draining (release_ref p w s) = am_draining s" "am_trapped (release_ref p w s) = am_trapped s" "am_turn (release_ref p w s) = am_turn s"
  "am_pcs (release_ref p w s) = am_pcs s" "am_holders (release_ref p w s) = am_holders s" "am_resumers (release_ref p w s) = am_resumers s"
  "am_leaving (release_ref p w s) = am_leaving s" "am_complete (release_ref p w s) = am_complete s"
  by (simp_all add: release_ref_def)

lemma schedule_simps [simp]:
  "am_word (schedule_resume p w s) = am_word s" "am_drain_head (schedule_resume p w s) = am_drain_head s"
  "am_heap (schedule_resume p w s) = (am_heap s)(p \<mapsto> w\<lparr>w_refs := w_refs w + 1, w_posted := w_posted w + 1\<rparr>)"
  "am_draining (schedule_resume p w s) = am_draining s" "am_trapped (schedule_resume p w s) = am_trapped s" "am_turn (schedule_resume p w s) = am_turn s"
  "am_pcs (schedule_resume p w s) = am_pcs s" "am_holders (schedule_resume p w s) = am_holders s" "am_resumers (schedule_resume p w s) = am_resumers s + 1"
  "am_leaving (schedule_resume p w s) = am_leaving s" "am_complete (schedule_resume p w s) = am_complete s"
  by (simp_all add: schedule_resume_def)

lemma verdict_simps [simp]:
  "w_refs (reject e w) = w_refs w" "w_posted (reject e w) = w_posted w" "w_running (reject e w) = w_running w" "w_frame (reject e w) = w_frame w"
  "w_publishing (reject e w) = w_publishing w" "w_aborting (reject e w) = w_aborting w" "w_phase (reject e w) = cancelled"
  "w_result (reject e w) = Some (unexpected e)"
  "w_refs (accept w) = w_refs w" "w_posted (accept w) = w_posted w" "w_running (accept w) = w_running w" "w_frame (accept w) = w_frame w"
  "w_publishing (accept w) = w_publishing w" "w_aborting (accept w) = w_aborting w" "w_phase (accept w) = granted"
  "w_result (accept w) = Some (ok ())"
  by (simp_all add: reject_def accept_def)

lemma turn_pc_simps [simp]:
  "turn_pc (s\<lparr>am_heap := h\<rparr>) = turn_pc s" "turn_pc (s\<lparr>am_resumers := n\<rparr>) = turn_pc s" "turn_pc (s\<lparr>am_leaving := n\<rparr>) = turn_pc s"
  "turn_pc (s\<lparr>am_holders := n\<rparr>) = turn_pc s" "turn_pc (s\<lparr>am_draining := b\<rparr>) = turn_pc s" "turn_pc (s\<lparr>am_complete := b\<rparr>) = turn_pc s"
  "turn_pc (s\<lparr>am_word := word\<rparr>) = turn_pc s" "turn_pc (s\<lparr>am_drain_head := ps\<rparr>) = turn_pc s"
  "turn_pc (put p w s) = turn_pc s" "turn_pc (release_ref p w s) = turn_pc s" "turn_pc (schedule_resume p w s) = turn_pc s"
  by (simp_all add: turn_pc_def split: option.splits)

lemma turn_pc_turn [simp]: "turn_pc (s\<lparr>am_turn := None\<rparr>) = Idle" "turn_pc (s\<lparr>am_turn := Some t\<rparr>) = am_pcs s t"
  by (simp_all add: turn_pc_def)

lemma turn_pc_go [simp]:
  "am_turn s = Some t \<Longrightarrow> turn_pc (go t c s) = c" "am_turn s \<noteq> Some t \<Longrightarrow> turn_pc (go t c s) = turn_pc s"
  by (auto simp: turn_pc_def split: option.splits)

lemma lists_go [simp]:
  "am_turn s = Some t \<Longrightarrow> lists (go t c s) = priv c @ am_drain_head s @ rev (stack_of (am_word s))"
  "am_turn s \<noteq> Some t \<Longrightarrow> lists (go t c s) = lists s"
  by (simp_all add: lists_def)

lemma lists_upd [simp]:
  "lists (s\<lparr>am_word := word\<rparr>) = priv (turn_pc s) @ am_drain_head s @ rev (stack_of word)"
  "lists (s\<lparr>am_drain_head := ps\<rparr>) = priv (turn_pc s) @ ps @ rev (stack_of (am_word s))"
  "lists (s\<lparr>am_turn := None\<rparr>) = am_drain_head s @ rev (stack_of (am_word s))"
  "lists (s\<lparr>am_turn := Some t\<rparr>) = priv (am_pcs s t) @ am_drain_head s @ rev (stack_of (am_word s))"
  by (simp_all add: lists_def)

lemma lists_simps [simp]:
  "lists (s\<lparr>am_heap := h\<rparr>) = lists s" "lists (s\<lparr>am_resumers := n\<rparr>) = lists s" "lists (s\<lparr>am_leaving := n\<rparr>) = lists s"
  "lists (s\<lparr>am_holders := n\<rparr>) = lists s" "lists (s\<lparr>am_draining := b\<rparr>) = lists s" "lists (s\<lparr>am_complete := b\<rparr>) = lists s"
  "lists (put p w s) = lists s" "lists (release_ref p w s) = lists s" "lists (schedule_resume p w s) = lists s"
  by (simp_all add: lists_def)

lemma rec_over_simps [simp]:
  "rec_over k (s\<lparr>am_heap := h\<rparr>) = rec_over k s" "rec_over k (s\<lparr>am_resumers := n\<rparr>) = rec_over k s" "rec_over k (s\<lparr>am_leaving := n\<rparr>) = rec_over k s"
  "rec_over k (s\<lparr>am_holders := n\<rparr>) = rec_over k s" "rec_over k (s\<lparr>am_draining := b\<rparr>) = rec_over k s" "rec_over k (s\<lparr>am_complete := b\<rparr>) = rec_over k s"
  "rec_over k (put p w s) = rec_over k s" "rec_over k (release_ref p w s) = rec_over k s" "rec_over k (schedule_resume p w s) = rec_over k s"
  by (simp_all add: rec_over_def fun_eq_iff)

lemma rec_ok_simps [simp]:
  "rec_ok (s\<lparr>am_heap := h\<rparr>) = rec_ok s" "rec_ok (s\<lparr>am_resumers := n\<rparr>) = rec_ok s" "rec_ok (s\<lparr>am_leaving := n\<rparr>) = rec_ok s"
  "rec_ok (s\<lparr>am_holders := n\<rparr>) = rec_ok s" "rec_ok (s\<lparr>am_draining := b\<rparr>) = rec_ok s" "rec_ok (s\<lparr>am_complete := b\<rparr>) = rec_ok s"
  "rec_ok (put p w s) = rec_ok s" "rec_ok (release_ref p w s) = rec_ok s" "rec_ok (schedule_resume p w s) = rec_ok s"
  by (simp_all add: rec_ok_def fun_eq_iff)

lemma am_inv_init: "am_inv am_init"
  by (simp add: am_inv_def am_init_def own_ok_def recs_ok_def lists_ok_def turn_ok_def counts_ok_def drain_ok_def lists_def turn_pc_def
      carrying_def runners_def)

end
