(* ===== verification/Fixpp_MutexInvariant.thy ===== *)
theory Fixpp_MutexInvariant
  imports Fixpp_AsyncMutex
begin

text \<open>
  Every step of the asynchronous mutex keeps its invariant: one lemma for each kind of step (a frame
  moves within a call, the frame that passes the lock on shifts waiters between the lists, something
  happens to a record beside its frame, a frame parks, resumes or gives the lock up, a drain reaps),
  and their use for every rule.
\<close>

subsection \<open>What the invariant gives\<close>

lemma am_invD:
  assumes "am_inv s"
  shows "own_ok s" "recs_ok s" "lists_ok s" "turn_ok s" "counts_ok s" "drain_ok s" "\<not> am_trapped s"
  using assms by (auto simp: am_inv_def)

lemma am_invI:
  assumes "own_ok s" "recs_ok s" "lists_ok s" "turn_ok s" "counts_ok s" "drain_ok s" "\<not> am_trapped s"
  shows "am_inv s"
  using assms by (auto simp: am_inv_def)

lemma inv_rec: "am_inv s \<Longrightarrow> am_heap s p = Some w \<Longrightarrow> rec_ok s p w"
  by (auto simp: am_inv_def recs_ok_def)

lemma inv_frame: "am_inv s \<Longrightarrow> am_heap s p = Some w \<Longrightarrow> w_frame w = Some t \<Longrightarrow> own (am_pcs s t) = Some p"
  using inv_rec [of s p w] by (auto simp: rec_ok_def rec_over_def rec_good_def)

lemma inv_own:
  assumes "am_inv s" "own (am_pcs s t) = Some p"
  obtains w where "am_heap s p = Some w" "w_frame w = Some t" "rec_ok s p w"
  using assms inv_rec [of s p] by (metis am_invD(1) own_ok_def)

lemma inv_carrying:
  assumes "am_inv s" "carrying (am_pcs s t)"
  shows "am_turn s = Some t" "turn_pc s = am_pcs s t" "own (am_pcs s t) = None"
proof -
  show turn: "am_turn s = Some t" using assms by (simp add: am_inv_def turn_ok_def)
  then show "turn_pc s = am_pcs s t" by (simp add: turn_pc_def)
  show "own (am_pcs s t) = None" using assms(2) by (cases "am_pcs s t") (simp_all add: carrying_def)
qed

lemma turn_okI:
  assumes "\<And>t. carrying (am_pcs s t) \<Longrightarrow> am_turn s = Some t"
    and "\<And>t. am_turn s = Some t \<Longrightarrow> \<not> carrying (am_pcs s t) \<Longrightarrow>
      \<exists>p w. am_pcs s t = Parked p \<and> am_heap s p = Some w \<and> w_phase w = granted \<and> w_posted w = 1"
    and "am_turn s \<noteq> None \<Longrightarrow> am_word s \<noteq> not_locked" "am_turn s = None \<Longrightarrow> \<not> am_draining s \<Longrightarrow> am_word s = not_locked \<and> am_drain_head s = []"
    and "emptied (turn_pc s) \<Longrightarrow> am_drain_head s = []"
  shows "turn_ok s"
  unfolding turn_ok_def using assms by blast

lemma inv_turn:
  assumes "am_inv s"
  shows "am_turn s \<noteq> None \<Longrightarrow> am_word s \<noteq> not_locked"
    "am_turn s = None \<Longrightarrow> \<not> am_draining s \<Longrightarrow> am_word s = not_locked \<and> am_drain_head s = []"
    "emptied (turn_pc s) \<Longrightarrow> am_drain_head s = []"
  using am_invD(4) [OF assms] by (simp_all add: turn_ok_def)

lemma inv_granted:
  assumes "am_inv s" "am_turn s = Some t" "\<not> carrying (am_pcs s t)"
  obtains p w where "am_pcs s t = Parked p" "am_heap s p = Some w" "w_frame w = Some t" "w_phase w = granted" "w_posted w = 1"
proof -
  obtain p w where p: "am_pcs s t = Parked p" "am_heap s p = Some w" "w_phase w = granted" "w_posted w = 1"
    using am_invD(4) [OF assms(1)] assms(2,3) unfolding turn_ok_def by blast
  then have "w_frame w = Some t" using inv_own [OF assms(1), of t p] by auto
  then show thesis using that p by blast
qed

lemma rec_over_cong:
  assumes "q \<in> set (lists s') \<longleftrightarrow> q \<in> set (lists s)"
    "dropping (turn_pc s') = Some q \<longleftrightarrow> dropping (turn_pc s) = Some q" "handing (turn_pc s') = Some q \<longleftrightarrow> handing (turn_pc s) = Some q"
    "\<And>t. w_frame w = Some t \<Longrightarrow> am_pcs s' t = am_pcs s t" "w_frame w \<noteq> None \<Longrightarrow> am_turn s' = w_frame w \<longleftrightarrow> am_turn s = w_frame w"
  shows "rec_over k s' q w = rec_over k s q w"
proof (cases "w_frame w")
  case None
  then show ?thesis using assms(1-3) by (simp add: rec_over_def rec_good_def)
next
  case (Some t)
  then show ?thesis using assms by (simp add: rec_over_def)
qed

lemma rec_ok_cong:
  assumes "q \<in> set (lists s') \<longleftrightarrow> q \<in> set (lists s)"
    "dropping (turn_pc s') = Some q \<longleftrightarrow> dropping (turn_pc s) = Some q" "handing (turn_pc s') = Some q \<longleftrightarrow> handing (turn_pc s) = Some q"
    "\<And>t. w_frame w = Some t \<Longrightarrow> am_pcs s' t = am_pcs s t" "w_frame w \<noteq> None \<Longrightarrow> am_turn s' = w_frame w \<longleftrightarrow> am_turn s = w_frame w"
  shows "rec_ok s' q w = rec_ok s q w"
  unfolding rec_ok_def using rec_over_cong [OF assms] by simp

lemma refs_due_refs [simp]: "refs_due inl dropg c (w\<lparr>w_refs := n\<rparr>) = refs_due inl dropg c w"
  by (simp add: refs_due_def)

lemma rec_good_less:
  assumes "rec_good 1 p i d h c t w" "w_refs w \<noteq> 1"
  shows "rec_good 0 p i d h c t (w\<lparr>w_refs := w_refs w - 1\<rparr>)" "0 < w_refs w - 1"
  using assms by (cases "w_phase w"; auto simp: rec_good_def)+

lemma released_rec:
  assumes "rec_over 1 s p w" "w_refs w \<noteq> 1"
  shows "rec_ok s p (w\<lparr>w_refs := w_refs w - 1\<rparr>)"
  using rec_good_less [OF assms [unfolded rec_over_def]] by (simp add: rec_over_def rec_ok_def)

lemma last_released:
  assumes "rec_over 1 s p w" "w_refs w = 1"
  shows "w_frame w = None" "p \<notin> set (lists s)" "handing (turn_pc s) \<noteq> Some p" "w_posted w = 0" "w_running w = 0"
proof -
  have due: "refs_due (p \<in> set (lists s)) (dropping (turn_pc s) = Some p) (map_option (am_pcs s) (w_frame w)) w = 0"
    using assms by (simp add: rec_over_def rec_good_def)
  then show "w_frame w = None" "p \<notin> set (lists s)" "w_posted w = 0" "w_running w = 0"
    by (auto simp: refs_due_def split: if_splits)
  then show "handing (turn_pc s) \<noteq> Some p" using assms(1) by (auto simp: rec_over_def rec_good_def)
qed

text \<open>A step that changes the record \<open>p\<close> and the program point of the frame \<open>t\<close> only.\<close>

lemma recs_update:
  assumes inv: "am_inv s"
    and heap: "\<And>q. q \<noteq> p \<Longrightarrow> am_heap s' q = am_heap s q" and pcs: "\<And>u. u \<noteq> t \<Longrightarrow> am_pcs s' u = am_pcs s u"
    and sets: "\<And>q. q \<noteq> p \<Longrightarrow> q \<in> set (lists s') \<longleftrightarrow> q \<in> set (lists s)"
      "\<And>q. q \<noteq> p \<Longrightarrow> dropping (turn_pc s') = Some q \<longleftrightarrow> dropping (turn_pc s) = Some q"
      "\<And>q. q \<noteq> p \<Longrightarrow> handing (turn_pc s') = Some q \<longleftrightarrow> handing (turn_pc s) = Some q"
    and own: "own (am_pcs s t) = None \<or> own (am_pcs s t) = Some p"
    and turn: "\<And>u q w. q \<noteq> p \<Longrightarrow> am_heap s q = Some w \<Longrightarrow> w_frame w = Some u \<Longrightarrow> u \<noteq> t \<Longrightarrow> am_turn s' = Some u \<longleftrightarrow> am_turn s = Some u"
    and this_one: "\<And>w. am_heap s' p = Some w \<Longrightarrow> rec_ok s' p w"
  shows "recs_ok s'"
  unfolding recs_ok_def
proof (intro allI impI)
  fix q w
  assume q: "am_heap s' q = Some w"
  show "rec_ok s' q w"
  proof (cases "q = p")
    case True
    then show ?thesis using this_one q by simp
  next
    case False
    then have "am_heap s q = Some w" using q heap by simp
    moreover from this have "w_frame w \<noteq> Some t" using inv_frame [OF inv] own False by force
    ultimately show ?thesis using inv_rec [OF inv] sets [OF False] pcs turn [OF False]
      by (subst rec_ok_cong [of q s' s]) auto
  qed
qed

lemma own_update:
  assumes "am_inv s" "\<And>q. q \<noteq> p \<Longrightarrow> am_heap s' q = am_heap s q" "\<And>u. u \<noteq> t \<Longrightarrow> am_pcs s' u = am_pcs s u"
    and "\<And>q. own (am_pcs s' t) = Some q \<Longrightarrow> q = p \<and> (\<exists>w. am_heap s' p = Some w \<and> w_frame w = Some t)"
    and "\<And>u. u \<noteq> t \<Longrightarrow> own (am_pcs s u) = Some p \<Longrightarrow> \<exists>w. am_heap s' p = Some w \<and> w_frame w = Some u"
  shows "own_ok s'"
  unfolding own_ok_def
proof (intro allI impI)
  fix u q
  assume u: "own (am_pcs s' u) = Some q"
  show "\<exists>w. am_heap s' q = Some w \<and> w_frame w = Some u"
  proof (cases "u = t")
    case True
    then show ?thesis using assms(4) u by blast
  next
    case False
    then have "own (am_pcs s u) = Some q" using u assms(3) by simp
    then show ?thesis using assms(2,5) False inv_own [OF assms(1)] by metis
  qed
qed

fun load :: "waiter option \<Rightarrow> nat" where
  "load None = 0"
| "load (Some w) = w_posted w + w_running w"

lemma runners_upd:
  assumes "finite (dom h)"
  shows "runners (h(p := v)) + load (h p) = runners h + load v"
proof -
  let ?r = "\<Sum>q \<in> dom h - {p}. load (h q)"
  have "runners g = load (g p) + ?r" if "\<And>q. q \<noteq> p \<Longrightarrow> g q = h q" for g
  proof -
    have "runners g = (\<Sum>q \<in> insert p (dom h). load (g q))"
      unfolding runners_def
    proof (rule sum.mono_neutral_cong_left)
      show "dom g \<subseteq> insert p (dom h)" using that by (auto simp: dom_def)
    qed (use assms in \<open>auto simp: domIff\<close>)
    also have "\<dots> = load (g p) + ?r" using assms that by (simp add: sum.insert_remove)
    finally show ?thesis .
  qed
  from this [of h] this [of "h(p := v)"] show ?thesis by simp
qed

subsection \<open>Steps that change no record\<close>

text \<open>A frame that is not passing the lock on moves within a call.\<close>

lemma frame_moves:
  assumes inv: "am_inv s" and own: "own c = own (am_pcs s t)" "unpublished c = unpublished (am_pcs s t)"
    and not: "\<not> carrying (am_pcs s t)" "\<not> carrying c" "\<And>p. am_pcs s t \<noteq> Parked p" "\<And>p. c \<noteq> Parked p" and rest: "am_draining s \<Longrightarrow> at_rest c"
  shows "am_inv (go t c s)"
proof -
  let ?s = "go t c s"
  have turn: "am_turn s \<noteq> Some t" using am_invD(4) [OF inv] not by (auto simp: turn_ok_def)
  then have tp: "turn_pc ?s = turn_pc s" by (auto simp: turn_pc_def split: option.splits)
  then have li: "lists ?s = lists s" by (simp add: lists_def)
  have "own_ok ?s" using am_invD(1) [OF inv] own(1) by (auto simp: own_ok_def)
  moreover have "rec_ok ?s q w" if q: "am_heap s q = Some w" for q w
  proof (cases "w_frame w = Some t")
    case True
    then have "unpublished (am_pcs s t)" using inv_frame [OF inv q True] not(3) by (cases "am_pcs s t") auto
    moreover from this have "own c = Some q" "unpublished c" using inv_frame [OF inv q True] own by simp_all
    ultimately show ?thesis using inv_rec [OF inv q] True turn tp li not(3,4)
      by (auto simp: rec_ok_def rec_over_def rec_good_def refs_due_def split: waiter_phase.splits)
  next
    case False
    then show ?thesis using inv_rec [OF inv q] by (subst rec_ok_cong [of q ?s s]) (auto simp: tp li)
  qed
  then have "recs_ok ?s" by (simp add: recs_ok_def)
  moreover have "lists_ok ?s" using am_invD(3) [OF inv] by (simp add: lists_ok_def tp li)
  moreover have "turn_ok ?s" using am_invD(4) [OF inv] turn not by (auto simp: turn_ok_def tp)
  moreover have "counts_ok ?s" using am_invD(5) [OF inv] by (simp add: counts_ok_def tp)
  moreover have "drain_ok ?s" using am_invD(6) [OF inv] rest by (auto simp: drain_ok_def li)
  ultimately show ?thesis using am_invD(7) [OF inv] by (simp add: am_inv_def)
qed

text \<open>The frame that passes the lock on moves, and may shift waiters between the lists.\<close>

lemma carrier_moves:
  assumes inv: "am_inv s" and c: "carrying (am_pcs s t)" "carrying c" "\<not> am_draining s \<or> c = Enter"
    and same: "handing c = handing (am_pcs s t)" "dropping c = dropping (am_pcs s t)" "emptied c \<Longrightarrow> ds = []" "word \<noteq> not_locked"
    and lists: "priv c @ ds @ rev (stack_of word) = lists s" and holders: "n = of_bool (counted c)"
  shows "am_inv (go t c (s\<lparr>am_word := word, am_drain_head := ds, am_holders := n\<rparr>))"
proof -
  let ?s = "go t c (s\<lparr>am_word := word, am_drain_head := ds, am_holders := n\<rparr>)"
  note turn = inv_carrying [OF inv c(1)]
  have tp: "turn_pc ?s = c" using turn(1) by simp
  have li: "lists ?s = lists s" using lists turn(1) by simp
  have none: "own c = None" using c(2) by (cases c) (simp_all add: carrying_def)
  have "own_ok ?s" using am_invD(1) [OF inv] none by (auto simp: own_ok_def)
  moreover have "rec_ok ?s q w" if q: "am_heap s q = Some w" for q w
    using inv_rec [OF inv q] inv_frame [OF inv q] turn(3)
    by (subst rec_ok_cong [of q ?s s]) (auto simp: tp li turn(2) same(1,2))
  then have "recs_ok ?s" by (simp add: recs_ok_def)
  moreover have "lists_ok ?s" using am_invD(3) [OF inv] by (simp add: lists_ok_def tp li turn(2) same(1))
  moreover have "am_turn s = Some u" if "carrying (am_pcs s u)" for u using inv_carrying(1) [OF inv that] .
  then have "turn_ok ?s" using turn(1) c(2) same(3,4) by (simp add: turn_ok_def tp)
  moreover have "counts_ok ?s" unfolding counts_ok_def tp using am_invD(5) [OF inv] holders by (simp add: counts_ok_def)
  moreover have "drain_ok ?s" unfolding drain_ok_def li using am_invD(6) [OF inv] c(3) turn(1) by (auto simp: drain_ok_def)
  ultimately show ?thesis using am_invD(7) [OF inv] by (simp add: am_inv_def)
qed

subsection \<open>Steps beside the frames\<close>

lemma aside_update:
  assumes inv: "am_inv s" and p: "am_heap s p = Some w"
    and kept: "\<And>w'. v = Some w' \<Longrightarrow> rec_ok s p w' \<and> w_frame w' = w_frame w"
    and freed: "v = None \<Longrightarrow> w_frame w = None \<and> p \<notin> set (lists s) \<and> handing (turn_pc s) \<noteq> Some p"
    and phase: "w_phase w = granted \<Longrightarrow> w_frame w \<noteq> None \<Longrightarrow> \<exists>w'. v = Some w' \<and> w_phase w' = granted \<and> w_posted w' = w_posted w"
    and n: "n = m + runners ((am_heap s)(p := v))"
  shows "am_inv (s\<lparr>am_resumers := n, am_leaving := m, am_heap := (am_heap s)(p := v)\<rparr>)" (is "am_inv ?s")
proof -
  have "\<exists>w'. (if q = p then v else am_heap s q) = Some w' \<and> w_frame w' = Some t" if o: "own (am_pcs s t) = Some q" for t q
  proof -
    obtain w' where "am_heap s q = Some w'" "w_frame w' = Some t" using inv_own [OF inv o] .
    then show ?thesis using p kept freed by (cases v) auto
  qed
  then have "own_ok ?s" by (simp add: own_ok_def)
  moreover have "rec_ok ?s q w'" if "am_heap ?s q = Some w'" for q w'
    using that kept inv_rec [OF inv, of q] by (auto split: if_splits)
  then have "recs_ok ?s" unfolding recs_ok_def by blast
  moreover have "lists_ok ?s" using am_invD(3) [OF inv] kept freed p by (cases v) (auto simp: lists_ok_def)
  moreover have "turn_ok ?s"
  proof (rule turn_okI)
    fix t
    assume "am_turn ?s = Some t" "\<not> carrying (am_pcs ?s t)"
    then obtain q w' where "am_pcs s t = Parked q" "am_heap s q = Some w'" "w_frame w' = Some t" "w_phase w' = granted" "w_posted w' = 1"
      using inv_granted [OF inv, of t] by auto
    then show "\<exists>q w'. am_pcs ?s t = Parked q \<and> am_heap ?s q = Some w' \<and> w_phase w' = granted \<and> w_posted w' = 1"
      using p phase by auto
  qed (use inv_turn [OF inv] inv_carrying(1) [OF inv] in auto)
  moreover have "counts_ok ?s" using am_invD(5) [OF inv] n by (simp add: counts_ok_def)
  moreover have "drain_ok ?s" using am_invD(6) [OF inv] p by (auto simp: drain_ok_def)
  ultimately show ?thesis using am_invD(7) [OF inv] by (simp add: am_inv_def)
qed

lemma inv_counts:
  assumes "am_inv s"
  shows "finite (dom (am_heap s))" "am_resumers s = am_leaving s + runners (am_heap s)" "am_holders s = of_bool (counted (turn_pc s))"
  using am_invD(5) [OF assms] by (simp_all add: counts_ok_def)

lemmas rec_defs = rec_ok_def rec_over_def rec_good_def refs_due_def

lemma aside_release:
  assumes inv: "am_inv s" and p: "am_heap s p = Some w"
    and over: "rec_over 1 s p w'" and same: "w_frame w' = w_frame w" "w_phase w' = w_phase w" "w_posted w' = w_posted w"
    and m: "m + w_running w' = am_leaving s + w_running w"
  shows "am_inv (release_ref p w' (s\<lparr>am_leaving := m\<rparr>))"
proof -
  let ?v = "if w_refs w' = 1 then None else Some (w'\<lparr>w_refs := w_refs w' - 1\<rparr>)"
  have "am_inv (s\<lparr>am_resumers := am_resumers s, am_leaving := m, am_heap := (am_heap s)(p := ?v)\<rparr>)"
  proof (rule aside_update [OF inv p])
    show "am_resumers s = m + runners ((am_heap s)(p := ?v))"
      using runners_upd [OF inv_counts(1) [OF inv], of p ?v] p inv_counts(2) [OF inv] last_released(4,5) [OF over] m same by auto
    show "rec_ok s p w2 \<and> w_frame w2 = w_frame w" if "?v = Some w2" for w2
      using that released_rec [OF over] same by (auto split: if_splits)
    show "w_frame w = None \<and> p \<notin> set (lists s) \<and> handing (turn_pc s) \<noteq> Some p" if "?v = None"
      using that last_released(1-3) [OF over] same by (auto split: if_splits)
    show "\<exists>w2. ?v = Some w2 \<and> w_phase w2 = granted \<and> w_posted w2 = w_posted w" if "w_phase w = granted" "w_frame w \<noteq> None"
      using that last_released(1) [OF over] same by auto
  qed
  then show ?thesis by (simp add: release_ref_def put_def split: if_splits)
qed

lemma publish_done_inv:
  assumes inv: "am_inv s" and p: "am_heap s p = Some w" "w_publishing w"
  shows "am_inv (release_ref p (w\<lparr>w_publishing := False\<rparr>) s)"
proof -
  have "rec_over 1 s p (w\<lparr>w_publishing := False\<rparr>)" using inv_rec [OF inv p(1)] p(2) by (cases "w_phase w") (auto simp: rec_defs)
  then show ?thesis using aside_release [OF inv p(1), of "w\<lparr>w_publishing := False\<rparr>" "am_leaving s"] by simp
qed

lemma runner_releases_inv:
  assumes inv: "am_inv s" and p: "am_heap s p = Some w" "w_running w > 0"
  shows "am_inv (release_ref p (w\<lparr>w_running := w_running w - 1\<rparr>) (s\<lparr>am_leaving := am_leaving s + 1\<rparr>))"
proof (rule aside_release [OF inv p(1)])
  show "rec_over 1 s p (w\<lparr>w_running := w_running w - 1\<rparr>)"
    using inv_rec [OF inv p(1)] p(2) by (cases "w_phase w") (auto simp: rec_defs split: if_splits)
qed (use p(2) in auto)

lemma cancel_inv:
  assumes inv: "am_inv s" and p: "am_pcs s t = Parked p" "am_heap s p = Some w" "w_phase w = queued"
  shows "am_inv (put p (reject e w\<lparr>w_aborting := True\<rparr>) s)"
proof -
  let ?w = "reject e w\<lparr>w_aborting := True\<rparr>"
  have frame: "w_frame w = Some t" using inv_own [OF inv, of t p] p(1,2) by auto
  have "am_inv (s\<lparr>am_resumers := am_resumers s, am_leaving := am_leaving s, am_heap := (am_heap s)(p := Some ?w)\<rparr>)"
  proof (rule aside_update [OF inv p(2)])
    show "rec_ok s p w' \<and> w_frame w' = w_frame w" if "Some ?w = Some w'" for w'
      using that inv_rec [OF inv p(2)] p(1,3) frame by (auto simp: rec_defs)
    show "am_resumers s = am_leaving s + runners ((am_heap s)(p := Some ?w))"
      using runners_upd [OF inv_counts(1) [OF inv], of p "Some ?w"] p(2) inv_counts(2) [OF inv] by simp
  qed (use p(3) in auto)
  then show ?thesis by (simp add: put_def)
qed

lemma aborted_rec:
  assumes "rec_good 0 p i d h c t w" "w_aborting w"
  shows "rec_good 0 p i d h c t (w\<lparr>w_aborting := False, w_refs := w_refs w + 1, w_posted := w_posted w + 1\<rparr>)" "w_phase w = cancelled"
  using assms by (cases "w_phase w"; cases c; auto simp: rec_good_def refs_due_def)+

lemma abort_schedules_inv:
  assumes inv: "am_inv s" and p: "am_heap s p = Some w" "w_aborting w"
  shows "am_inv (schedule_resume p (w\<lparr>w_aborting := False\<rparr>) s)"
proof -
  let ?w = "w\<lparr>w_aborting := False, w_refs := w_refs w + 1, w_posted := w_posted w + 1\<rparr>"
  have "am_inv (s\<lparr>am_resumers := am_resumers s + 1, am_leaving := am_leaving s, am_heap := (am_heap s)(p := Some ?w)\<rparr>)"
  proof (rule aside_update [OF inv p(1)])
    note rec = inv_rec [OF inv p(1), unfolded rec_ok_def rec_over_def]
    have phase: "w_phase w = cancelled" using aborted_rec(2) rec p(2) by blast
    show "rec_ok s p w' \<and> w_frame w' = w_frame w" if "Some ?w = Some w'" for w'
      using that aborted_rec(1) [OF conjunct2 [OF rec] p(2)] by (auto simp: rec_ok_def rec_over_def)
    show "am_resumers s + 1 = am_leaving s + runners ((am_heap s)(p := Some ?w))"
      using runners_upd [OF inv_counts(1) [OF inv], of p "Some ?w"] p(1) inv_counts(2) [OF inv] by simp
    show "\<exists>w'. Some ?w = Some w' \<and> w_phase w' = granted \<and> w_posted w' = w_posted w" if "w_phase w = granted"
      using that phase by simp
  qed simp
  then show ?thesis by (simp add: schedule_resume_def put_def)
qed

lemma runner_done_inv:
  assumes "am_inv s" "am_leaving s > 0"
  shows "am_inv (s\<lparr>am_leaving := am_leaving s - 1, am_resumers := am_resumers s - 1\<rparr>)"
  using am_invD [OF assms(1)] assms(2)
  by (intro am_invI) (simp_all add: own_ok_def recs_ok_def lists_ok_def turn_ok_def counts_ok_def drain_ok_def)

subsection \<open>Calls of frames that have no record\<close>

lemma inv_no_turn:
  assumes "am_inv s" "\<not> carrying (am_pcs s t)" "\<And>p. am_pcs s t \<noteq> Parked p"
  shows "am_turn s \<noteq> Some t"
  using inv_granted [OF assms(1), of t] assms(2,3) by auto

lemma at_rest_lists: "at_rest c \<Longrightarrow> priv c = []" "at_rest c \<Longrightarrow> handing c = None" "at_rest c \<Longrightarrow> dropping c = None" "at_rest c \<Longrightarrow> \<not> emptied c"
  by (cases c; simp)+

lemma inv_not_draining: "am_inv s \<Longrightarrow> \<not> at_rest (am_pcs s t) \<Longrightarrow> am_pcs s t \<noteq> Enter \<Longrightarrow> \<not> am_draining s"
  by (auto simp: am_inv_def drain_ok_def)

lemma inv_free:
  assumes "am_inv s" "am_word s = not_locked" "\<not> am_draining s"
  shows "am_turn s = None" "lists s = []" "turn_pc s = Idle"
proof -
  show none: "am_turn s = None" using inv_turn(1) [OF assms(1)] assms(2) by blast
  then show "turn_pc s = Idle" by (simp add: turn_pc_def)
  then show "lists s = []" using inv_turn(2) [OF assms(1) none assms(3)] by (simp add: lists_def)
qed

lemma dropping_handing: "dropping c = Some p \<Longrightarrow> handing c = Some p"
  by (cases c) simp_all

lemma inv_listed: "am_inv s \<Longrightarrow> p \<in> set (lists s) \<Longrightarrow> am_heap s p \<noteq> None"
  by (simp add: am_inv_def lists_ok_def)

lemma inv_handing:
  assumes "am_inv s" "handing (turn_pc s) = Some p"
  obtains w where "am_heap s p = Some w" "w_frame w \<noteq> None"
  using am_invD(3) [OF assms(1)] assms(2) unfolding lists_ok_def by blast

lemma acquire_fast_inv:
  assumes inv: "am_inv s" and t: "am_pcs s t = Acquire" "am_word s = not_locked"
  shows "am_inv (go t Holding (s\<lparr>am_word := locked [], am_holders := am_holders s + 1, am_turn := Some t\<rparr>))" (is "am_inv ?s")
proof -
  have nd: "\<not> am_draining s" using inv_not_draining [OF inv, of t] t(1) by simp
  note no = inv_free [OF inv t(2) nd]
  have ds: "am_drain_head s = []" using inv_turn(2) [OF inv no(1) nd] by simp
  have "own_ok ?s" using am_invD(1) [OF inv] by (simp add: own_ok_def)
  moreover have "rec_ok ?s q w" if q: "am_heap s q = Some w" for q w
    using inv_rec [OF inv q] inv_frame [OF inv q] t(1) no by (subst rec_ok_cong [of q ?s s]) (auto simp: ds)
  then have "recs_ok ?s" by (simp add: recs_ok_def)
  moreover have "lists_ok ?s" using ds by (simp add: lists_ok_def)
  moreover have "turn_ok ?s"
    by (rule turn_okI) (use inv_carrying(1) [OF inv] no(1) ds in \<open>auto simp: carrying_def split: if_splits\<close>)
  moreover have "counts_ok ?s" using am_invD(5) [OF inv] by (simp add: counts_ok_def no(3))
  moreover have "drain_ok ?s" using am_invD(6) [OF inv] nd by (simp add: drain_ok_def)
  ultimately show ?thesis using am_invD(7) [OF inv] by (simp add: am_inv_def)
qed

text \<open>A frame gives the lock up: nobody waits.\<close>

lemma released_inv:
  assumes inv: "am_inv s" and t: "carrying (am_pcs s t)" "handing (am_pcs s t) = None"
    and none: "lists s = []" "am_drain_head s = []" and word: "word = not_locked \<or> am_draining s \<and> word = am_word s" and n: "n = 0"
  shows "am_inv (go t Idle (s\<lparr>am_word := word, am_holders := n, am_turn := None\<rparr>))" (is "am_inv ?s")
proof -
  note turn = inv_carrying [OF inv t(1)]
  have li: "stack_of word = []" using word none by (auto simp: lists_def)
  have drop: "dropping (am_pcs s t) = None" using t(2) by (cases "am_pcs s t") simp_all
  have "own_ok ?s" using am_invD(1) [OF inv] by (simp add: own_ok_def)
  moreover have "rec_ok ?s q w" if q: "am_heap s q = Some w" for q w
    using inv_rec [OF inv q] inv_frame [OF inv q] turn(1,3) t(2)
    by (subst rec_ok_cong [of q ?s s]) (auto simp: turn(2) none drop li)
  then have "recs_ok ?s" by (simp add: recs_ok_def)
  moreover have "lists_ok ?s" using li none(2) by (simp add: lists_ok_def)
  moreover have "turn_ok ?s"
    by (rule turn_okI) (use inv_carrying(1) [OF inv] turn(1) none word in \<open>auto simp: carrying_def split: if_splits\<close>)
  moreover have "counts_ok ?s" using am_invD(5) [OF inv] n by (simp add: counts_ok_def)
  moreover have "drain_ok ?s" using am_invD(6) [OF inv] turn(1) li none(2) by (simp add: drain_ok_def)
  ultimately show ?thesis using am_invD(7) [OF inv] by (simp add: am_inv_def)
qed

lemma alloc_inv:
  assumes inv: "am_inv s" and t: "am_pcs s t = Alloc" and p: "am_heap s p = None"
  shows "am_inv (go t (Ready p) (put p (new_waiter t) s))" (is "am_inv ?s")
proof -
  have turn: "am_turn s \<noteq> Some t" using inv_no_turn [OF inv, of t] t by (simp add: carrying_def)
  have free: "p \<notin> set (lists s)" "handing (turn_pc s) \<noteq> Some p" "dropping (turn_pc s) \<noteq> Some p"
    using inv_listed [OF inv, of p] inv_handing [OF inv, of p] dropping_handing [of "turn_pc s" p] p by auto
  have "own_ok ?s"
    by (rule own_update [OF inv, where p = p and t = t]) (use inv_own [OF inv, of _ p] p in \<open>auto simp: new_waiter_def\<close>)
  moreover have "recs_ok ?s"
    by (rule recs_update [OF inv, where p = p and t = t])
      (use free turn t in \<open>auto simp: rec_ok_def rec_over_def rec_good_def refs_due_def new_waiter_def\<close>)
  moreover have "lists_ok ?s" using am_invD(3) [OF inv] p turn by (auto simp: lists_ok_def)
  moreover have "turn_ok ?s"
  proof (rule turn_okI)
    fix u
    assume "am_turn ?s = Some u" "\<not> carrying (am_pcs ?s u)"
    then have "am_turn s = Some u" "\<not> carrying (am_pcs s u)" using turn by (auto split: if_splits)
    from inv_granted [OF inv this] obtain q w where "am_pcs s u = Parked q" "am_heap s q = Some w" "w_phase w = granted" "w_posted w = 1" .
    then show "\<exists>q w. am_pcs ?s u = Parked q \<and> am_heap ?s q = Some w \<and> w_phase w = granted \<and> w_posted w = 1" using t p by auto
  qed (use inv_turn [OF inv] inv_carrying(1) [OF inv] turn in \<open>auto simp: carrying_def split: if_splits\<close>)
  moreover have "counts_ok ?s" using am_invD(5) [OF inv] runners_upd [OF inv_counts(1) [OF inv], of p "Some (new_waiter t)"] p turn
    by (simp add: counts_ok_def new_waiter_def)
  moreover have "drain_ok ?s" using am_invD(6) [OF inv] inv_not_draining [OF inv, of t] t by (simp add: drain_ok_def)
  ultimately show ?thesis using am_invD(7) [OF inv] by (simp add: am_inv_def)
qed

subsection \<open>Calls of frames that have a record\<close>

text \<open>The frame of an unpublished record parks, the record perhaps joining the waiters.\<close>

lemma park_inv:
  assumes inv: "am_inv s" and t: "own (am_pcs s t) = Some p" "unpublished (am_pcs s t)"
    and word: "stack_of word = (if push then p # stack_of (am_word s) else stack_of (am_word s))" "word = not_locked \<longleftrightarrow> am_word s = not_locked"
    and w: "w_frame w = Some t" "0 < w_refs w" "rec_good 0 p push False False (Some (Parked p)) False w"
    and n: "n = am_leaving s + runners ((am_heap s)(p \<mapsto> w))"
  shows "am_inv (go t (Parked p) (s\<lparr>am_word := word, am_resumers := n, am_heap := (am_heap s)(p \<mapsto> w)\<rparr>))" (is "am_inv ?s")
proof -
  obtain w0 where w0: "am_heap s p = Some w0" "w_frame w0 = Some t" "rec_ok s p w0" using inv_own [OF inv t(1)] .
  have not: "\<not> carrying (am_pcs s t)" "\<And>q. am_pcs s t \<noteq> Parked q" using t(2) by (cases "am_pcs s t"; simp add: carrying_def)+
  have turn: "am_turn s \<noteq> Some t" by (rule inv_no_turn [OF inv not])
  have free: "p \<notin> set (lists s)" "handing (turn_pc s) \<noteq> Some p" "dropping (turn_pc s) \<noteq> Some p"
    using w0 t not(2) by (auto simp: rec_ok_def rec_over_def rec_good_def dest: dropping_handing)
  have li: "lists ?s = lists s @ (if push then [p] else [])" using turn word(1) by (simp add: lists_def)
  have tp: "turn_pc ?s = turn_pc s" using turn by simp
  have "own_ok ?s"
    by (rule own_update [OF inv, where p = p and t = t]) (use inv_own [OF inv, of _ p] w0 w(1) in \<open>auto split: if_splits\<close>)
  moreover have "recs_ok ?s"
  proof (rule recs_update [OF inv, where p = p and t = t])
    fix w' assume "am_heap ?s p = Some w'"
    then show "rec_ok ?s p w'" unfolding rec_ok_def rec_over_def li tp using w free turn by auto
  qed (use turn t(1) in \<open>auto simp: li tp\<close>)
  moreover have "lists_ok ?s" unfolding lists_ok_def li tp using am_invD(3) [OF inv] free w(1) by (auto simp: lists_ok_def)
  moreover have "turn_ok ?s"
  proof (rule turn_okI)
    fix u
    assume "am_turn ?s = Some u" "\<not> carrying (am_pcs ?s u)"
    then have u: "am_turn s = Some u" "\<not> carrying (am_pcs s u)" "u \<noteq> t" using turn by (auto split: if_splits)
    from inv_granted [OF inv u(1,2)] obtain q w' where "am_pcs s u = Parked q" "am_heap s q = Some w'" "w_frame w' = Some u" "w_phase w' = granted" "w_posted w' = 1" .
    then show "\<exists>q w. am_pcs ?s u = Parked q \<and> am_heap ?s q = Some w \<and> w_phase w = granted \<and> w_posted w = 1" using u(3) w0 by auto
  qed (use inv_turn [OF inv] inv_carrying(1) [OF inv] turn word(2) in \<open>auto simp: carrying_def split: if_splits\<close>)
  moreover have "counts_ok ?s" unfolding counts_ok_def tp using am_invD(5) [OF inv] n by (simp add: counts_ok_def)
  moreover have "\<not> am_draining s" using inv_not_draining [OF inv, of t] t(2) by (cases "am_pcs s t") auto
  then have "drain_ok ?s" using am_invD(6) [OF inv] by (auto simp: drain_ok_def)
  ultimately show ?thesis using am_invD(7) [OF inv] by (simp add: am_inv_def)
qed

lemma inv_unpublished:
  assumes "am_inv s" "am_heap s p = Some w" "own (am_pcs s t) = Some p" "unpublished (am_pcs s t)"
  shows "w_frame w = Some t" "w_refs w = 2" "w_phase w = queued" "\<not> w_publishing w" "\<not> w_aborting w" "w_posted w = 0" "w_running w = 0"
    "p \<notin> set (lists s)" "handing (turn_pc s) \<noteq> Some p"
proof -
  show f: "w_frame w = Some t" using inv_own [OF assms(1,3)] assms(2) by auto
  have "am_pcs s t \<noteq> Parked p" using assms(4) by auto
  then show "w_refs w = 2" "w_phase w = queued" "\<not> w_publishing w" "\<not> w_aborting w" "w_posted w = 0" "w_running w = 0"
    "p \<notin> set (lists s)" "handing (turn_pc s) \<noteq> Some p"
    using inv_rec [OF assms(1,2)] f assms(4) by (auto simp: rec_defs dest: dropping_handing)
qed

lemma assign_fails_inv:
  assumes inv: "am_inv s" and t: "am_pcs s t = Ready p" and p: "am_heap s p = Some w"
  shows "am_inv (go t (Parked p) (schedule_resume p (reject e w\<lparr>w_publishing := True\<rparr>) s))"
proof -
  let ?w = "reject e w\<lparr>w_publishing := True, w_refs := w_refs w + 1, w_posted := w_posted w + 1\<rparr>"
  have own: "own (am_pcs s t) = Some p" "unpublished (am_pcs s t)" using t by simp_all
  note w = inv_unpublished [OF inv p own]
  have "am_inv (go t (Parked p) (s\<lparr>am_word := am_word s, am_resumers := am_resumers s + 1, am_heap := (am_heap s)(p \<mapsto> ?w)\<rparr>))"
    by (rule park_inv [OF inv own, where push = False])
      (use w runners_upd [OF inv_counts(1) [OF inv], of p "Some ?w"] p inv_counts(2) [OF inv] in \<open>simp_all add: rec_good_def refs_due_def\<close>)
  then show ?thesis by (simp add: schedule_resume_def put_def)
qed

lemma enrol_push_inv:
  assumes inv: "am_inv s" and t: "am_pcs s t = Enrol p v" and p: "am_heap s p = Some w" and word: "am_word s \<noteq> not_locked"
  shows "am_inv (go t (Parked p) (put p (w\<lparr>w_refs := w_refs w + 1, w_publishing := True\<rparr>) (s\<lparr>am_word := locked (p # stack_of (am_word s))\<rparr>)))"
proof -
  let ?w = "w\<lparr>w_refs := w_refs w + 1, w_publishing := True\<rparr>"
  have own: "own (am_pcs s t) = Some p" "unpublished (am_pcs s t)" using t by simp_all
  note w = inv_unpublished [OF inv p own]
  have "am_inv (go t (Parked p) (s\<lparr>am_word := locked (p # stack_of (am_word s)), am_resumers := am_resumers s, am_heap := (am_heap s)(p \<mapsto> ?w)\<rparr>))"
    by (rule park_inv [OF inv own, where push = True])
      (use w word runners_upd [OF inv_counts(1) [OF inv], of p "Some ?w"] p inv_counts(2) [OF inv] in \<open>simp_all add: rec_good_def refs_due_def\<close>)
  then show ?thesis by (simp add: put_def)
qed

lemma enrol_free_inv:
  assumes inv: "am_inv s" and t: "am_pcs s t = Enrol p v" and p: "am_heap s p = Some w" and word: "am_word s = not_locked"
  shows "am_inv (go t (Parked p) (schedule_resume p (accept w\<lparr>w_publishing := True\<rparr>)
    (s\<lparr>am_word := locked [], am_holders := am_holders s + 1, am_turn := Some t\<rparr>)))" (is "am_inv ?s")
proof -
  let ?w = "accept w\<lparr>w_publishing := True, w_refs := w_refs w + 1, w_posted := w_posted w + 1\<rparr>"
  have own: "own (am_pcs s t) = Some p" "unpublished (am_pcs s t)" using t by simp_all
  note w = inv_unpublished [OF inv p own]
  have nd: "\<not> am_draining s" using inv_not_draining [OF inv, of t] t by simp
  note no = inv_free [OF inv word nd]
  have ds: "am_drain_head s = []" using inv_turn(2) [OF inv no(1) nd] by simp
  have "own_ok ?s"
    by (rule own_update [OF inv, where p = p and t = t]) (use inv_own [OF inv, of _ p] p w(1) in \<open>auto split: if_splits\<close>)
  moreover have "recs_ok ?s"
  proof (rule recs_update [OF inv, where p = p and t = t])
    fix w' assume "am_heap ?s p = Some w'"
    then have "w' = ?w" by simp
    then show "rec_ok ?s p w'" unfolding rec_ok_def rec_over_def using w ds by (simp add: rec_good_def refs_due_def)
  qed (use t(1) no ds in auto)
  moreover have "lists_ok ?s" using ds by (simp add: lists_ok_def)
  moreover have "turn_ok ?s"
    by (rule turn_okI) (use inv_carrying(1) [OF inv] no(1) ds w in \<open>auto simp: carrying_def split: if_splits\<close>)
  moreover have "counts_ok ?s" using am_invD(5) [OF inv] runners_upd [OF inv_counts(1) [OF inv], of p "Some ?w"] p
    by (simp add: counts_ok_def no(3))
  moreover have "drain_ok ?s" using am_invD(6) [OF inv] nd by (simp add: drain_ok_def)
  ultimately show ?thesis using am_invD(7) [OF inv] by (simp add: am_inv_def)
qed

subsection \<open>Resuming\<close>

lemma resumed_rec:
  assumes "rec_good 0 p i d h (Some c) t w" "0 < w_posted w"
  shows "rec_good 0 p i d h None t' (w\<lparr>w_posted := w_posted w - 1, w_running := w_running w + 1, w_frame := None, w_refs := w_refs w - 1\<rparr>)"
    and "c = Parked p" "1 < w_refs w" "\<not> h" "\<not> d" "w_phase w = granted \<longleftrightarrow> w_result w = Some (ok ())" "w_phase w = granted \<longrightarrow> t" "w_phase w \<noteq> queued"
  using assms by (cases "w_phase w"; auto simp: rec_good_def refs_due_def split: if_splits)+

definition resumed :: "ptr \<Rightarrow> waiter \<Rightarrow> frame_id \<Rightarrow> unit expected_t \<Rightarrow> am \<Rightarrow> am" where
  "resumed p w t r s = go t (case r of Inl e \<Rightarrow> Rejected e | Inr _ \<Rightarrow> Holding)
    (release_ref p (w\<lparr>w_posted := w_posted w - 1, w_running := w_running w + 1, w_frame := None\<rparr>) s)"

lemma resumed_simps [simp]:
  "am_word (resumed p w t r s) = am_word s" "am_drain_head (resumed p w t r s) = am_drain_head s" "am_turn (resumed p w t r s) = am_turn s"
  "am_pcs (resumed p w t r s) = (am_pcs s)(t := (case r of Inl e \<Rightarrow> Rejected e | Inr _ \<Rightarrow> Holding))" "am_holders (resumed p w t r s) = am_holders s"
  "am_draining (resumed p w t r s) = am_draining s" "am_complete (resumed p w t r s) = am_complete s" "am_trapped (resumed p w t r s) = am_trapped s"
  "am_resumers (resumed p w t r s) = am_resumers s" "am_leaving (resumed p w t r s) = am_leaving s"
  by (simp_all add: resumed_def)

lemma resumed_facts:
  assumes inv: "am_inv s" and p: "am_heap s p = Some w" "w_posted w > 0" "w_frame w = Some t" "w_result w = Some r"
  defines "w1 \<equiv> w\<lparr>w_posted := w_posted w - 1, w_running := w_running w + 1, w_frame := None, w_refs := w_refs w - 1\<rparr>"
    and "c \<equiv> case r of Inl e \<Rightarrow> Rejected e | Inr _ \<Rightarrow> Holding" and "s1 \<equiv> resumed p w t r s"
  shows "am_heap s1 = (am_heap s)(p \<mapsto> w1)" and "am_pcs s t = Parked p" and "am_turn s = Some t \<longleftrightarrow> c = Holding"
    and "own c = None" "at_rest c" "carrying c \<longleftrightarrow> c = Holding"
    and "handing (turn_pc s1) = handing (turn_pc s)" "dropping (turn_pc s1) = dropping (turn_pc s)"
    "counted (turn_pc s1) = counted (turn_pc s)" "emptied (turn_pc s1) = emptied (turn_pc s)" and "lists s1 = lists s"
    and "rec_good 0 p (p \<in> set (lists s)) (dropping (turn_pc s) = Some p) (handing (turn_pc s) = Some p) None x w1" "0 < w_refs w1"
    and "handing (turn_pc s) \<noteq> Some p" "w_phase w \<noteq> queued"
proof -
  have "rec_good 0 p (p \<in> set (lists s)) (dropping (turn_pc s) = Some p) (handing (turn_pc s) = Some p) (Some (am_pcs s t)) (am_turn s = Some t) w"
    using inv_rec [OF inv p(1)] p(3) by (simp add: rec_ok_def rec_over_def)
  note rec = resumed_rec [OF this p(2)]
  show heap: "am_heap s1 = (am_heap s)(p \<mapsto> w1)" using rec(3) by (auto simp: s1_def resumed_def w1_def)
  show parked: "am_pcs s t = Parked p" by (rule rec(2))
  show turn: "am_turn s = Some t \<longleftrightarrow> c = Holding"
  proof
    assume a: "am_turn s = Some t"
    have "\<not> carrying (am_pcs s t)" using parked by (simp add: carrying_def)
    from inv_granted [OF inv a this] obtain q w' where "am_pcs s t = Parked q" "am_heap s q = Some w'" "w_phase w' = granted" .
    then have "w_phase w = granted" using parked p(1) by simp
    then show "c = Holding" using rec(6) p(4) by (simp add: c_def)
  next
    assume "c = Holding"
    then have "w_phase w = granted" using rec(6) p(4) by (auto simp: c_def split: sum.splits)
    then show "am_turn s = Some t" using rec(7) by simp
  qed
  show none: "own c = None" "at_rest c" "carrying c \<longleftrightarrow> c = Holding" by (auto simp: c_def carrying_def split: sum.splits)
  have s1: "s1 = go t c (release_ref p (w\<lparr>w_posted := w_posted w - 1, w_running := w_running w + 1, w_frame := None\<rparr>) s)"
    by (simp add: s1_def c_def resumed_def)
  show tp: "handing (turn_pc s1) = handing (turn_pc s)" "dropping (turn_pc s1) = dropping (turn_pc s)"
    "counted (turn_pc s1) = counted (turn_pc s)" "emptied (turn_pc s1) = emptied (turn_pc s)"
    using turn none at_rest_lists [OF none(2)] parked unfolding s1 by (cases "am_turn s = Some t"; simp add: turn_pc_def [of s])+
  have "priv (turn_pc s1) = priv (turn_pc s)"
    using turn at_rest_lists [OF none(2)] parked unfolding s1 by (cases "am_turn s = Some t"; simp add: turn_pc_def [of s])+
  then show "lists s1 = lists s" unfolding lists_def by (simp add: s1)
  show "rec_good 0 p (p \<in> set (lists s)) (dropping (turn_pc s) = Some p) (handing (turn_pc s) = Some p) None x w1" "0 < w_refs w1"
    "handing (turn_pc s) \<noteq> Some p" "w_phase w \<noteq> queued"
    using rec(1,3,4,8) by (simp_all add: w1_def)
qed

lemma resume_inv:
  assumes inv: "am_inv s" and p: "am_heap s p = Some w" "w_posted w > 0" "w_frame w = Some t" "w_result w = Some r"
  shows "am_inv (resumed p w t r s)" (is "am_inv ?s")
proof -
  let ?w = "w\<lparr>w_posted := w_posted w - 1, w_running := w_running w + 1, w_frame := None, w_refs := w_refs w - 1\<rparr>"
  note f = resumed_facts [OF inv p]
  note heap = f(1) and parked = f(2) and turn = f(3) and tp = f(7-10) and li = f(11)
  have "own_ok ?s"
    by (rule own_update [OF inv, where p = p and t = t]) (use inv_own [OF inv, of _ p] p heap f(4) in auto)
  moreover have "recs_ok ?s"
  proof (rule recs_update [OF inv, where p = p and t = t])
    fix w' assume "am_heap ?s p = Some w'"
    then have "w' = ?w" unfolding heap by simp
    then show "rec_ok ?s p w'" unfolding rec_ok_def rec_over_def li tp using f(12,13) by simp
  qed (unfold li tp heap, use parked in auto)
  moreover have "lists_ok ?s" unfolding lists_ok_def li tp heap using am_invD(3) [OF inv] f(14) by (auto simp: lists_ok_def)
  moreover have "turn_ok ?s"
  proof (rule turn_okI)
    fix u
    assume u: "am_turn ?s = Some u" "\<not> carrying (am_pcs ?s u)"
    then have "u \<noteq> t" using turn f(6) by auto
    then have "am_turn s = Some u" "\<not> carrying (am_pcs s u)" using u by auto
    from inv_granted [OF inv this] obtain q w' where "am_pcs s u = Parked q" "am_heap s q = Some w'" "w_frame w' = Some u" "w_phase w' = granted" "w_posted w' = 1" .
    then show "\<exists>q w. am_pcs ?s u = Parked q \<and> am_heap ?s q = Some w \<and> w_phase w = granted \<and> w_posted w = 1"
      using \<open>u \<noteq> t\<close> p(1,3) unfolding heap by auto
  next
    show "am_turn ?s = Some u" if "carrying (am_pcs ?s u)" for u
      using that turn f(6) inv_carrying(1) [OF inv, of u] by (auto split: if_splits)
  qed (unfold tp, use inv_turn [OF inv] in auto)
  moreover have "counts_ok ?s" unfolding counts_ok_def tp heap using am_invD(5) [OF inv] runners_upd [OF inv_counts(1) [OF inv], of p "Some ?w"] p(1,2)
    by (simp add: counts_ok_def)
  moreover have "drain_ok ?s" unfolding drain_ok_def li using am_invD(6) [OF inv] p(1) f(5) by (auto simp: drain_ok_def)
  ultimately show ?thesis using am_invD(7) [OF inv] by (simp add: am_inv_def)
qed

subsection \<open>Passing the lock on\<close>

lemma carrier_update:
  assumes inv: "am_inv s" and t: "carrying (am_pcs s t)" "carrying c" "\<not> am_draining s" and p: "am_heap s p = Some w"
    and other: "\<And>q. q \<noteq> p \<Longrightarrow> handing c = Some q \<longleftrightarrow> handing (am_pcs s t) = Some q" "\<And>q. q \<noteq> p \<Longrightarrow> dropping c = Some q \<longleftrightarrow> dropping (am_pcs s t) = Some q"
    and l: "l = priv c @ am_drain_head s @ rev (stack_of (am_word s))" "l = lists s \<or> lists s = p # l" and e: "emptied c \<Longrightarrow> am_drain_head s = []"
    and kept: "\<And>w'. v = Some w' \<Longrightarrow> w_frame w' = w_frame w \<and> 0 < w_refs w' \<and>
      rec_good 0 p (p \<in> set l) (dropping c = Some p) (handing c = Some p) (map_option (am_pcs s) (w_frame w)) False w'"
    and freed: "v = None \<Longrightarrow> w_frame w = None \<and> p \<notin> set l" and handed: "handing c = Some p \<Longrightarrow> w_frame w \<noteq> None"
    and load: "load v = load (Some w)" and n: "n = of_bool (counted c)"
  shows "am_inv (go t c (s\<lparr>am_holders := n, am_heap := (am_heap s)(p := v)\<rparr>))" (is "am_inv ?s")
proof -
  note turn = inv_carrying [OF inv t(1)]
  have tp: "turn_pc ?s = c" using turn(1) by simp
  have li: "lists ?s = l" using turn(1) l(1) by simp
  have none: "own c = None" using t(2) by (cases c) (simp_all add: carrying_def)
  have frame: "w_frame w \<noteq> Some t" using inv_frame [OF inv p, of t] turn(3) by auto
  have "own_ok ?s"
  proof (rule own_update [OF inv, where p = p and t = t])
    fix u assume u: "u \<noteq> t" "own (am_pcs s u) = Some p"
    have "w_frame w = Some u" using inv_own [OF inv u(2)] p by auto
    then show "\<exists>w. am_heap ?s p = Some w \<and> w_frame w = Some u" using kept freed by (cases v) auto
  qed (use none in auto)
  moreover have "recs_ok ?s"
  proof (rule recs_update [OF inv, where p = p and t = t])
    fix w' assume "am_heap ?s p = Some w'"
    then have w': "w_frame w' = w_frame w" "0 < w_refs w'"
      "rec_good 0 p (p \<in> set l) (dropping c = Some p) (handing c = Some p) (map_option (am_pcs s) (w_frame w)) False w'" using kept by simp_all
    have "map_option ((am_pcs s)(t := c)) (w_frame w) = map_option (am_pcs s) (w_frame w)" using frame by (cases "w_frame w") auto
    moreover have "Some t \<noteq> w_frame w" using frame by simp
    ultimately show "rec_ok ?s p w'" unfolding rec_ok_def rec_over_def li tp using w' turn(1) by simp
  qed (unfold li tp, use other l(2) turn in auto)
  moreover have "lists_ok ?s"
    unfolding lists_ok_def li tp
  proof (intro conjI ballI allI impI)
    show "distinct l" using am_invD(3) [OF inv] l(2) by (auto simp: lists_ok_def)
    show "am_heap ?s q \<noteq> None" if "q \<in> set l" for q using that inv_listed [OF inv, of q] l(2) freed by (cases "q = p") auto
    show "\<exists>w. am_heap ?s q = Some w \<and> w_frame w \<noteq> None" if q: "handing c = Some q" for q
    proof (cases "q = p")
      case True
      then show ?thesis using handed kept freed q by (cases v) auto
    next
      case False
      then obtain w' where "am_heap s q = Some w'" "w_frame w' \<noteq> None" using inv_handing [OF inv, of q] other(1) q turn(2) by auto
      then show ?thesis using False by auto
    qed
  qed
  moreover have "turn_ok ?s"
    by (rule turn_okI) (use inv_turn(1) [OF inv] inv_carrying(1) [OF inv] turn(1) t(2) e in \<open>auto split: if_splits\<close>)
  moreover have "counts_ok ?s" unfolding counts_ok_def tp using am_invD(5) [OF inv] n load p runners_upd [OF inv_counts(1) [OF inv], of p v]
    by (simp add: counts_ok_def)
  moreover have "drain_ok ?s" using am_invD(6) [OF inv] t(3) by (simp add: drain_ok_def)
  ultimately show ?thesis using am_invD(7) [OF inv] by (simp add: am_inv_def)
qed

lemma first_listed:
  assumes inv: "am_inv s" and t: "carrying (am_pcs s t)" "priv (am_pcs s t) = p # ps"
  shows "lists s = p # ps @ am_drain_head s @ rev (stack_of (am_word s))" "p \<notin> set (ps @ am_drain_head s @ rev (stack_of (am_word s)))"
proof -
  show l: "lists s = p # ps @ am_drain_head s @ rev (stack_of (am_word s))" using inv_carrying(2) [OF inv t(1)] t(2) by (simp add: lists_def)
  have "distinct (lists s)" using am_invD(3) [OF inv] by (simp add: lists_ok_def)
  then show "p \<notin> set (ps @ am_drain_head s @ rev (stack_of (am_word s)))" using l by simp
qed

lemma pop_inv:
  assumes inv: "am_inv s" and t: "carrying (am_pcs s t)" "priv (am_pcs s t) = p # ps" "handing (am_pcs s t) = None" "emptied (am_pcs s t)"
    "counted (am_pcs s t) = False" "\<not> am_draining s" and p: "am_heap s p = Some w" "w_phase w = cancelled"
  shows "am_inv (go t (Walk ps b) (release_ref p w s))"
proof -
  note turn = inv_carrying [OF inv t(1)]
  note l = first_listed [OF inv t(1,2)]
  let ?v = "if w_refs w = 1 then None else Some (w\<lparr>w_refs := w_refs w - 1\<rparr>)"
  have drop: "dropping (am_pcs s t) \<noteq> Some q" for q using dropping_handing [of "am_pcs s t" q] t(3) by auto
  have rec: "rec_good 0 p True False False (map_option (am_pcs s) (w_frame w)) (am_turn s = w_frame w) w"
    using inv_rec [OF inv p(1)] l(1) t(3) drop turn(2) by (simp add: rec_ok_def rec_over_def)
  have after: "rec_good 1 p False False False c False w" if "rec_good 0 p True False False c x w" for c x
    using that p(2) by (auto simp: rec_good_def refs_due_def)
  have "am_inv (go t (Walk ps b) (s\<lparr>am_holders := am_holders s, am_heap := (am_heap s)(p := ?v)\<rparr>))"
  proof (rule carrier_update [OF inv t(1) _ t(6) p(1) _ _ refl])
    show "w_frame w' = w_frame w \<and> 0 < w_refs w' \<and> rec_good 0 p (p \<in> set (priv (Walk ps b) @ am_drain_head s @ rev (stack_of (am_word s))))
      (dropping (Walk ps b) = Some p) (handing (Walk ps b) = Some p) (map_option (am_pcs s) (w_frame w)) False w'" if "?v = Some w'" for w'
      using that after [OF rec] l(2) p(2) by (auto simp: rec_good_def split: if_splits)
    show "load ?v = load (Some w)" using after [OF rec] by (auto simp: rec_good_def refs_due_def)
    show "w_frame w = None \<and> p \<notin> set (priv (Walk ps b) @ am_drain_head s @ rev (stack_of (am_word s)))" if "?v = None"
      using that after [OF rec] l(2) by (auto simp: rec_good_def refs_due_def split: if_splits)
    show "am_holders s = of_bool (counted (Walk ps b))" using inv_counts(3) [OF inv] turn(2) t(5) by simp
  qed (use drop t turn inv_turn(3) [OF inv] l(1) in \<open>auto simp: carrying_def\<close>)
  then show ?thesis by (simp add: release_ref_def put_def split: if_splits)
qed

lemma grant_inv:
  assumes inv: "am_inv s" and t: "am_pcs s t = Grant p ps b" and p: "am_heap s p = Some w" "w_phase w = queued"
  shows "am_inv (go t (Splice p ps) (put p (accept w) (s\<lparr>am_holders := am_holders s + 1\<rparr>)))"
proof -
  have c: "carrying (am_pcs s t)" "priv (am_pcs s t) = p # ps" using t by (simp_all add: carrying_def)
  note turn = inv_carrying [OF inv c(1)]
  note l = first_listed [OF inv c]
  have nd: "\<not> am_draining s" using inv_not_draining [OF inv, of t] t by simp
  have rec: "rec_good 0 p True False False (map_option (am_pcs s) (w_frame w)) (am_turn s = w_frame w) w" "0 < w_refs w"
    using inv_rec [OF inv p(1)] l(1) turn(2) t by (simp_all add: rec_ok_def rec_over_def)
  have after: "rec_good 0 p False True True c False (accept w)" "c \<noteq> None" "load (Some (accept w)) = load (Some w)" if "rec_good 0 p True False False c x w" for c x
    using that p(2) by (auto simp: rec_good_def refs_due_def)
  have "am_inv (go t (Splice p ps) (s\<lparr>am_holders := am_holders s + 1, am_heap := (am_heap s)(p := Some (accept w))\<rparr>))"
  proof (rule carrier_update [OF inv c(1) _ nd p(1) _ _ refl])
    show "w_frame w' = w_frame w \<and> 0 < w_refs w' \<and> rec_good 0 p (p \<in> set (priv (Splice p ps) @ am_drain_head s @ rev (stack_of (am_word s))))
      (dropping (Splice p ps) = Some p) (handing (Splice p ps) = Some p) (map_option (am_pcs s) (w_frame w)) False w'" if "Some (accept w) = Some w'" for w'
      using that after [OF rec(1)] rec(2) l(2) by auto
    show "load (Some (accept w)) = load (Some w)" by (rule after(3) [OF rec(1)])
    show "am_holders s + 1 = of_bool (counted (Splice p ps))" using inv_counts(3) [OF inv] turn(2) t by simp
    show "w_frame w \<noteq> None" using after(2) [OF rec(1)] by simp
  qed (use t turn inv_turn(3) [OF inv] l(1) in \<open>auto simp: carrying_def\<close>)
  then show ?thesis by (simp add: put_def)
qed

lemma drop_inv:
  assumes inv: "am_inv s" and t: "am_pcs s t = Drop p" and p: "am_heap s p = Some w"
  shows "am_inv (go t (Sched p) (release_ref p w s))"
proof -
  have c: "carrying (am_pcs s t)" using t by (simp add: carrying_def)
  note turn = inv_carrying [OF inv c]
  have nd: "\<not> am_draining s" using inv_not_draining [OF inv, of t] t by simp
  have l: "lists s = am_drain_head s @ rev (stack_of (am_word s))" using turn(2) t by (simp add: lists_def)
  have rec: "rec_good 0 p (p \<in> set (lists s)) True True (map_option (am_pcs s) (w_frame w)) (am_turn s = w_frame w) w"
    using inv_rec [OF inv p] turn(2) t by (simp add: rec_ok_def rec_over_def)
  have after: "p \<notin> set (lists s)" "rec_good 0 p False False True (map_option (am_pcs s) (w_frame w)) False (w\<lparr>w_refs := w_refs w - 1\<rparr>)" "w_frame w \<noteq> None" "1 < w_refs w"
    using rec by (auto simp: rec_good_def refs_due_def split: if_splits)
  let ?v = "Some (w\<lparr>w_refs := w_refs w - 1\<rparr>)"
  have "am_inv (go t (Sched p) (s\<lparr>am_holders := am_holders s, am_heap := (am_heap s)(p := ?v)\<rparr>))"
  proof (rule carrier_update [OF inv c _ nd p _ _ refl])
    show "w_frame w' = w_frame w \<and> 0 < w_refs w' \<and> rec_good 0 p (p \<in> set (priv (Sched p) @ am_drain_head s @ rev (stack_of (am_word s))))
      (dropping (Sched p) = Some p) (handing (Sched p) = Some p) (map_option (am_pcs s) (w_frame w)) False w'" if "?v = Some w'" for w'
      using that after l by auto
    show "am_holders s = of_bool (counted (Sched p))" using inv_counts(3) [OF inv] turn(2) t by simp
    show "w_frame w \<noteq> None" by (rule after(3))
  qed (use t turn l in \<open>auto simp: carrying_def\<close>)
  then show ?thesis using after(4) by (simp add: release_ref_def put_def)
qed

lemma sched_inv:
  assumes inv: "am_inv s" and t: "am_pcs s t = Sched p" and p: "am_heap s p = Some w"
  shows "am_inv (go t Idle (schedule_resume p w (s\<lparr>am_turn := w_frame w\<rparr>)))" (is "am_inv ?s")
proof -
  let ?w = "w\<lparr>w_refs := w_refs w + 1, w_posted := w_posted w + 1\<rparr>"
  have c: "carrying (am_pcs s t)" using t by (simp add: carrying_def)
  note turn = inv_carrying [OF inv c]
  have nd: "\<not> am_draining s" using inv_not_draining [OF inv, of t] t by simp
  obtain u where u: "w_frame w = Some u" using inv_handing [OF inv, of p] turn(2) t p by auto
  have ut: "u \<noteq> t" using inv_frame [OF inv p u] turn(3) by auto
  have l: "lists s = am_drain_head s @ rev (stack_of (am_word s))" using turn(2) t by (simp add: lists_def)
  have rec: "rec_good 0 p (p \<in> set (lists s)) False True (Some (am_pcs s u)) (am_turn s = Some u) w" "0 < w_refs w"
    using inv_rec [OF inv p] turn(2) t u by (simp_all add: rec_ok_def rec_over_def)
  then have after: "p \<notin> set (lists s)" "am_pcs s u = Parked p" "rec_good 0 p False False False (Some (Parked p)) True ?w" "w_phase w = granted" "w_posted w = 0"
    by (auto simp: rec_good_def refs_due_def split: if_splits)
  have tp: "turn_pc ?s = Parked p" using u ut after(2) by simp
  have li: "lists ?s = lists s" using u ut after(2) l by simp
  have "own_ok ?s"
    by (rule own_update [OF inv, where p = p and t = t]) (use inv_own [OF inv, of _ p] p in auto)
  moreover have "recs_ok ?s"
  proof (rule recs_update [OF inv, where p = p and t = t])
    fix w' assume "am_heap ?s p = Some w'"
    then have "w' = ?w" by simp
    then show "rec_ok ?s p w'" unfolding rec_ok_def rec_over_def li tp using rec(2) after u ut by simp
  next
    fix v q w' assume v: "q \<noteq> p" "am_heap s q = Some w'" "w_frame w' = Some v" "v \<noteq> t"
    then have "v \<noteq> u" using inv_frame [OF inv, of q w' v] after(2) by auto
    then show "am_turn ?s = Some v \<longleftrightarrow> am_turn s = Some v" using u turn(1) v(4) by auto
  qed (unfold li tp, use turn t in auto)
  moreover have "lists_ok ?s" unfolding lists_ok_def li tp using am_invD(3) [OF inv] by (auto simp: lists_ok_def)
  moreover have "turn_ok ?s"
    by (rule turn_okI, unfold tp) (use inv_turn(1) [OF inv] inv_carrying(1) [OF inv] turn(1) u after ut in \<open>auto simp: carrying_def split: if_splits\<close>)
  moreover have "counts_ok ?s" unfolding counts_ok_def tp using am_invD(5) [OF inv] turn(2) t p runners_upd [OF inv_counts(1) [OF inv], of p "Some ?w"]
    by (simp add: counts_ok_def)
  moreover have "drain_ok ?s" using am_invD(6) [OF inv] nd by (simp add: drain_ok_def)
  ultimately show ?thesis using am_invD(7) [OF inv] by (simp add: am_inv_def)
qed

subsection \<open>Draining\<close>

lemma reap_one_upd:
  "reap_one p (s\<lparr>am_drain_head := x\<rparr>) = (reap_one p s)\<lparr>am_drain_head := x\<rparr>" "reap_one p (s\<lparr>am_draining := b\<rparr>) = (reap_one p s)\<lparr>am_draining := b\<rparr>"
  by (auto simp: reap_one_def schedule_resume_def put_def release_ref_def split: option.splits)

lemma reap_chain_upd:
  "reap_chain ps (s\<lparr>am_drain_head := x\<rparr>) = (reap_chain ps s)\<lparr>am_drain_head := x\<rparr>" "reap_chain ps (s\<lparr>am_draining := b\<rparr>) = (reap_chain ps s)\<lparr>am_draining := b\<rparr>"
  by (induction ps arbitrary: s) (simp_all add: reap_chain_def reap_one_upd)

lemma reap_one_same [simp]:
  "am_pcs (reap_one p s) = am_pcs s" "am_turn (reap_one p s) = am_turn s" "am_word (reap_one p s) = am_word s" "am_drain_head (reap_one p s) = am_drain_head s"
  "am_draining (reap_one p s) = am_draining s" "am_complete (reap_one p s) = am_complete s" "am_holders (reap_one p s) = am_holders s"
  by (simp_all add: reap_one_def split: option.splits)

lemma reaped_rec:
  assumes "rec_good 0 p True False False c t w" "0 < w_refs w"
  shows "w_phase w = queued \<Longrightarrow> w_refs w \<noteq> 1 \<and> rec_good 0 p False False False c t (reject e w\<lparr>w_refs := w_refs w, w_posted := w_posted w + 1\<rparr>)"
    and "w_phase w \<noteq> queued \<Longrightarrow> rec_good 1 p False False False c t w" and "w_phase w \<noteq> granted"
  using assms by (auto simp: rec_good_def refs_due_def split: waiter_phase.splits if_splits)

text \<open>The heap, the counts and the lists after one record is reaped.\<close>

definition reaped_value :: "waiter \<Rightarrow> waiter option" where
  "reaped_value w =
     (if w_phase w = queued then Some (reject sync_lock_aborted w\<lparr>w_refs := w_refs w, w_posted := w_posted w + 1\<rparr>)
      else if w_refs w = 1 then None else Some (w\<lparr>w_refs := w_refs w - 1\<rparr>))"

lemma reap_one_inv:
  assumes inv: "am_inv s" and rest: "at_rest (turn_pc s)" "\<not> am_draining s" and l: "am_drain_head s = p # ps" "am_word s = locked []"
  shows "am_inv ((reap_one p s)\<lparr>am_drain_head := ps\<rparr>)" (is "am_inv ?s")
proof -
  have li: "lists s = p # ps" using at_rest_lists(1) [OF rest(1)] l by (simp add: lists_def)
  then have p: "p \<notin> set ps" using am_invD(3) [OF inv] by (simp add: lists_ok_def)
  obtain w where w: "am_heap s p = Some w" using inv_listed [OF inv, of p] li by auto
  have rec: "rec_good 0 p True False False (map_option (am_pcs s) (w_frame w)) (am_turn s = w_frame w) w" "0 < w_refs w"
    using inv_rec [OF inv w] li at_rest_lists [OF rest(1)] by (simp_all add: rec_ok_def rec_over_def)
  note after = reaped_rec [OF rec]
  define n where "n = am_resumers s + (if w_phase w = queued then 1 else 0)"
  have s: "?s = s\<lparr>am_resumers := n, am_heap := (am_heap s)(p := reaped_value w), am_drain_head := ps\<rparr>"
    using w after rec(2) by (auto simp: reap_one_def schedule_resume_def release_ref_def put_def reaped_value_def n_def)
  have kept: "w_frame w' = w_frame w \<and> 0 < w_refs w' \<and> rec_good 0 p False False False (map_option (am_pcs s) (w_frame w)) (am_turn s = w_frame w) w'"
    if "reaped_value w = Some w'" for w'
    using that after(1) [of sync_lock_aborted] rec(2) rec_good_less [OF after(2)] by (auto simp: reaped_value_def split: if_splits)
  have freed: "w_frame w = None" if "reaped_value w = None"
    using that after by (cases "w_phase w") (auto simp: reaped_value_def rec_good_def refs_due_def split: if_splits)
  have li': "lists ?s = ps" unfolding s using at_rest_lists(1) [OF rest(1)] l(2) by simp
  have tp: "turn_pc ?s = turn_pc s" unfolding s by simp
  have "own_ok ?s"
    unfolding own_ok_def s
  proof (intro allI impI)
    fix u q assume "own (am_pcs (s\<lparr>am_resumers := n, am_heap := (am_heap s)(p := reaped_value w), am_drain_head := ps\<rparr>) u) = Some q"
    then have "own (am_pcs s u) = Some q" by simp
    from inv_own [OF inv this] obtain w' where "am_heap s q = Some w'" "w_frame w' = Some u" .
    then show "\<exists>w'. am_heap (s\<lparr>am_resumers := n, am_heap := (am_heap s)(p := reaped_value w), am_drain_head := ps\<rparr>) q = Some w' \<and> w_frame w' = Some u"
      using w kept freed by (cases "reaped_value w") auto
  qed
  moreover have "rec_ok ?s q w'" if q: "am_heap ?s q = Some w'" for q w'
  proof (cases "q = p")
    case True
    then show ?thesis using q kept p at_rest_lists [OF rest(1)] unfolding rec_ok_def rec_over_def li' tp by (simp add: s)
  next
    case False
    then have "am_heap s q = Some w'" using q by (simp add: s)
    from inv_rec [OF inv this] show ?thesis using False li by (subst rec_ok_cong [of q ?s s]) (unfold li' tp, auto)
  qed
  then have "recs_ok ?s" unfolding recs_ok_def by blast
  moreover have "lists_ok ?s" unfolding lists_ok_def li' tp using am_invD(3) [OF inv] li at_rest_lists [OF rest(1)] by (auto simp: lists_ok_def s)
  moreover have "turn_ok ?s"
  proof (rule turn_okI)
    fix u
    assume "am_turn ?s = Some u" "\<not> carrying (am_pcs ?s u)"
    then have "am_turn s = Some u" "\<not> carrying (am_pcs s u)" by auto
    from inv_granted [OF inv this] obtain q w' where "am_pcs s u = Parked q" "am_heap s q = Some w'" "w_frame w' = Some u" "w_phase w' = granted" "w_posted w' = 1" .
    then show "\<exists>q w. am_pcs ?s u = Parked q \<and> am_heap ?s q = Some w \<and> w_phase w = granted \<and> w_posted w = 1"
      using w after(3) by (auto simp: s)
  qed (unfold tp, use inv_turn [OF inv] inv_carrying(1) [OF inv] l at_rest_lists [OF rest(1)] in auto)
  moreover have "load (reaped_value w) = load (Some w) + (if w_phase w = queued then 1 else 0)"
    using after(2) by (auto simp: reaped_value_def rec_good_def refs_due_def)
  then have "counts_ok ?s" unfolding counts_ok_def tp using am_invD(5) [OF inv] w runners_upd [OF inv_counts(1) [OF inv], of p "reaped_value w"]
    by (simp add: counts_ok_def s n_def)
  moreover have "drain_ok ?s" using am_invD(6) [OF inv] rest(2) by (simp add: drain_ok_def)
  moreover have "\<not> am_trapped ?s" using am_invD(7) [OF inv] by (simp add: s)
  ultimately show ?thesis by (simp add: am_inv_def)
qed

lemma reap_chain_inv:
  assumes "am_inv s" "at_rest (turn_pc s)" "\<not> am_draining s" "am_drain_head s = ps" "am_word s = locked []"
  shows "am_inv ((reap_chain ps s)\<lparr>am_drain_head := []\<rparr>) \<and> am_pcs (reap_chain ps s) = am_pcs s \<and> am_turn (reap_chain ps s) = am_turn s \<and>
    am_word (reap_chain ps s) = locked [] \<and> am_draining (reap_chain ps s) = am_draining s \<and> am_complete (reap_chain ps s) = am_complete s"
  using assms
proof (induction ps arbitrary: s)
  case Nil
  then show ?case by (simp add: reap_chain_def) (metis am.surjective am.update_convs(2))
next
  case (Cons p ps)
  let ?s = "(reap_one p s)\<lparr>am_drain_head := ps\<rparr>"
  have "turn_pc ?s = turn_pc s" by (simp add: turn_pc_def split: option.splits)
  then have "am_inv ?s" "at_rest (turn_pc ?s)" using reap_one_inv [OF Cons.prems(1-5)] Cons.prems(2) by simp_all
  from Cons.IH [OF this] show ?case using Cons.prems(3-5) by (simp add: reap_chain_def reap_chain_upd(1) [unfolded reap_chain_def])
qed

lemma serial_turn: "serial s \<Longrightarrow> at_rest (turn_pc s)"
  by (simp add: serial_def turn_pc_def split: option.splits)

lemma serial_counted:
  assumes inv: "am_inv s" and ser: "serial s" and t: "am_turn s = Some t"
  shows "counted (turn_pc s)"
proof (cases "carrying (am_pcs s t)")
  case True
  then show ?thesis using serial_turn [OF ser] t by (cases "am_pcs s t") (simp_all add: turn_pc_def carrying_def)
next
  case False
  from inv_granted [OF inv t False] obtain p where "am_pcs s t = Parked p" .
  then show ?thesis using t by (simp add: turn_pc_def)
qed

text \<open>A pass that finds waiters.\<close>

lemma drain_pass_waiters:
  assumes inv: "am_inv s" and ser: "serial s" "\<not> am_draining s" and turn: "am_turn s \<noteq> None"
  shows "am_inv (drain_pass (s\<lparr>am_draining := True\<rparr>))"
proof -
  note rest = at_rest_lists [OF serial_turn [OF ser(1)]]
  let ?l = "rev (stack_of (am_word s)) @ am_drain_head s"
  let ?s0 = "s\<lparr>am_word := locked [], am_drain_head := ?l\<rparr>"
  let ?r = "reap_chain ?l ?s0"
  have sets: "lists ?s0 = ?l" "set ?l = set (lists s)" "distinct ?l = distinct (lists s)" using rest(1) by (auto simp: lists_def)
  have "rec_ok ?s0 q w" if "am_heap s q = Some w" for q w
    using inv_rec [OF inv that] by (subst rec_ok_cong [of q ?s0 s]) (unfold sets, auto)
  then have "recs_ok ?s0" by (simp add: recs_ok_def)
  moreover have "own_ok ?s0" using am_invD(1) [OF inv] by (simp add: own_ok_def)
  moreover have "lists_ok ?s0" unfolding lists_ok_def sets using am_invD(3) [OF inv] by (simp add: lists_ok_def)
  moreover have "turn_ok ?s0" using am_invD(4) [OF inv] turn rest(4) by (auto simp: turn_ok_def)
  moreover have "counts_ok ?s0" "drain_ok ?s0" using am_invD(5,6) [OF inv] ser(2) by (simp_all add: counts_ok_def drain_ok_def)
  ultimately have "am_inv ?s0" using am_invD(7) [OF inv] by (simp add: am_inv_def)
  then have r: "am_inv (?r\<lparr>am_drain_head := []\<rparr>)" "am_pcs ?r = am_pcs s" "am_turn ?r = am_turn s" "am_word ?r = locked []" "\<not> am_draining ?r" "\<not> am_complete ?r"
    using reap_chain_inv [of ?s0 ?l] serial_turn [OF ser(1)] ser(2) am_invD(6) [OF inv] by (auto simp: drain_ok_def)
  let ?e = "?r\<lparr>am_drain_head := []\<rparr>"
  have tp: "turn_pc ?e = turn_pc s" using r(2,3) by (simp add: turn_pc_def split: option.splits)
  obtain t where t: "am_turn s = Some t" using turn by auto
  then have "counted (turn_pc s)" by (rule serial_counted [OF inv ser(1)])
  then have holders: "am_holders ?e = 1" using inv_counts(3) [OF r(1)] unfolding tp by simp
  have "s\<lparr>am_draining := True, am_word := locked [], am_drain_head := []\<rparr> = ?s0\<lparr>am_drain_head := [], am_draining := True\<rparr>" by simp
  then have "reap_chain ?l (s\<lparr>am_draining := True, am_word := locked [], am_drain_head := []\<rparr>) = ?e\<lparr>am_draining := True\<rparr>"
    by (simp only: reap_chain_upd)
  then have "reap_chain (am_drain_head s) (reap_chain (rev (stack_of (am_word s))) (s\<lparr>am_draining := True, am_word := locked [], am_drain_head := []\<rparr>)) =
      ?e\<lparr>am_draining := True\<rparr>"
    by (simp only: reap_chain_def fold_append comp_apply)
  then have pass: "drain_pass (s\<lparr>am_draining := True\<rparr>) = ?e\<lparr>am_draining := True\<rparr>"
    using holders by (simp add: drain_pass_def Let_def)
  have "lists ?e = []" using rest(1) tp r(4) by (simp add: lists_def)
  then show ?thesis unfolding pass using am_invD [OF r(1)] ser(1) r(2,6)
    by (intro am_invI) (simp_all add: own_ok_def recs_ok_def lists_ok_def turn_ok_def counts_ok_def drain_ok_def serial_def)
qed

text \<open>With no waiter, no holder and no runner left, every record has been freed.\<close>

lemma quiet_heap:
  assumes inv: "am_inv s" and ser: "serial s" and none: "lists s = []" "am_turn s = None" "am_resumers s = 0"
  shows "am_heap s = Map.empty"
proof (rule ext)
  fix p
  show "am_heap s p = None"
  proof (cases "am_heap s p")
    case (Some w)
    have "runners (am_heap s) = 0" using inv_counts(2) [OF inv] none(3) by simp
    then have idle: "w_posted w = 0" "w_running w = 0" using inv_counts(1) [OF inv] Some by (auto simp: runners_def dom_def)
    have "\<not> w_publishing w" "\<not> w_aborting w" using ser Some by (auto simp: serial_def)
    moreover have "at_rest (am_pcs s (the (w_frame w)))" using ser by (simp add: serial_def)
    moreover have "rec_good 0 p False False False (map_option (am_pcs s) (w_frame w)) (None = w_frame w) w" "0 < w_refs w"
      using inv_rec [OF inv Some] none by (simp_all add: rec_ok_def rec_over_def turn_pc_def)
    ultimately have False using idle
      by (cases "w_frame w"; cases "w_phase w"; cases "am_pcs s (the (w_frame w))") (auto simp: rec_good_def refs_due_def)
    then show ?thesis ..
  qed
qed

lemma drain_pass_empty:
  assumes inv: "am_inv s" and ser: "serial s" and none: "lists s = []" and c: "\<not> am_complete s"
  shows "am_inv (drain_pass (s\<lparr>am_draining := True\<rparr>))"
proof -
  note rest = at_rest_lists [OF serial_turn [OF ser]]
  have l: "stack_of (am_word s) = []" "am_drain_head s = []" using none by (simp_all add: lists_def)
  let ?e = "s\<lparr>am_draining := True, am_word := locked [], am_drain_head := []\<rparr>"
  have pass: "drain_pass (s\<lparr>am_draining := True\<rparr>) =
      (if am_holders s = 0 \<and> am_resumers s = 0 then ?e\<lparr>am_word := not_locked, am_complete := True\<rparr> else ?e)"
    using l by (simp add: drain_pass_def Let_def reap_chain_def)
  have li: "lists ?e = []" "lists (?e\<lparr>am_word := not_locked, am_complete := True\<rparr>) = []" using rest(1) by simp_all
  have recs: "rec_ok ?e q w" if "am_heap s q = Some w" for q w
    using inv_rec [OF inv that] rest(1) by (subst rec_ok_cong [where s = s]) (simp_all add: none)
  have e: "am_inv ?e"
  proof (intro am_invI)
    show "recs_ok ?e" using recs by (simp add: recs_ok_def)
    show "turn_ok ?e" using am_invD(4) [OF inv] by (simp add: turn_ok_def)
  qed (use am_invD [OF inv] ser c li in \<open>simp_all add: own_ok_def lists_ok_def counts_ok_def drain_ok_def serial_def\<close>)
  show ?thesis
  proof (cases "am_holders s = 0 \<and> am_resumers s = 0")
    case True
    have turn: "am_turn s = None"
    proof (cases "am_turn s")
      case (Some t)
      have "\<not> counted (turn_pc s)" using inv_counts(3) [OF inv] True by auto
      then show ?thesis using serial_counted [OF inv ser Some] by simp
    qed
    have heap: "am_heap s = Map.empty" using quiet_heap [OF inv ser none turn] True by simp
    show ?thesis unfolding pass if_P [OF True]
    proof (intro am_invI)
      show "recs_ok (?e\<lparr>am_word := not_locked, am_complete := True\<rparr>)" by (simp add: recs_ok_def heap)
      show "turn_ok (?e\<lparr>am_word := not_locked, am_complete := True\<rparr>)" using am_invD(4) [OF inv] turn by (simp add: turn_ok_def)
    qed (use am_invD [OF inv] ser li heap turn True in \<open>simp_all add: own_ok_def lists_ok_def counts_ok_def drain_ok_def serial_def\<close>)
  next
    case False
    then show ?thesis unfolding pass if_not_P [OF False] using e by simp
  qed
qed

lemma drain_inv:
  assumes inv: "am_inv s" and ser: "serial s"
  shows "\<not> am_draining s \<Longrightarrow> am_inv (drain_pass (s\<lparr>am_draining := True\<rparr>))"
    and "am_draining s \<Longrightarrow> \<not> am_complete s \<Longrightarrow> am_inv (drain_pass s)"
proof -
  show "am_inv (drain_pass (s\<lparr>am_draining := True\<rparr>))" if nd: "\<not> am_draining s"
  proof (cases "am_turn s = None")
    case True
    then have "lists s = []" using inv_free [OF inv _ nd] inv_turn(2) [OF inv True nd] by simp
    moreover have "\<not> am_complete s" using am_invD(6) [OF inv] nd by (auto simp: drain_ok_def)
    ultimately show ?thesis by (rule drain_pass_empty [OF inv ser])
  next
    case False
    then show ?thesis by (rule drain_pass_waiters [OF inv ser nd])
  qed
  show "am_inv (drain_pass s)" if d: "am_draining s" "\<not> am_complete s"
  proof -
    have "lists s = []" using am_invD(6) [OF inv] d by (simp add: drain_ok_def)
    moreover have "s\<lparr>am_draining := True\<rparr> = s" using d(1) by simp
    ultimately show ?thesis using drain_pass_empty [OF inv ser _ d(2)] by simp
  qed
qed

subsection \<open>Every step\<close>

lemma no_trap:
  assumes inv: "am_inv s"
  shows "p \<in> set (touched (am_word s) (am_pcs s t)) \<Longrightarrow> am_heap s p \<noteq> None"
    and "am_heap s p = Some w \<Longrightarrow> w_posted w > 0 \<Longrightarrow> w_frame w \<noteq> None \<and> w_result w \<noteq> None"
    and "carrying (am_pcs s t) \<Longrightarrow> priv (am_pcs s t) = p # ps \<Longrightarrow> am_heap s p = Some w \<Longrightarrow> w_phase w \<noteq> granted"
proof -
  show "am_heap s p = Some w \<Longrightarrow> w_posted w > 0 \<Longrightarrow> w_frame w \<noteq> None \<and> w_result w \<noteq> None"
    using inv_rec [OF inv, of p w] by (cases "w_phase w") (auto simp: rec_ok_def rec_over_def rec_good_def split: if_splits)
  show "w_phase w \<noteq> granted" if "carrying (am_pcs s t)" "priv (am_pcs s t) = p # ps" "am_heap s p = Some w"
    using inv_rec [OF inv that(3)] first_listed(1) [OF inv that(1,2)] by (auto simp: rec_ok_def rec_over_def rec_good_def)
  assume p: "p \<in> set (touched (am_word s) (am_pcs s t))"
  show "am_heap s p \<noteq> None"
  proof (cases "carrying (am_pcs s t)")
    case True
    note turn = inv_carrying(2) [OF inv True]
    have "p \<in> set (lists s) \<or> handing (turn_pc s) = Some p" unfolding lists_def turn
      using p True by (cases "(am_word s, am_pcs s t)" rule: touched.cases) (auto simp: carrying_def)
    then show ?thesis using inv_listed [OF inv, of p] inv_handing [OF inv, of p] by auto
  next
    case False
    then have "own (am_pcs s t) = Some p" using p by (cases "(am_word s, am_pcs s t)" rule: touched.cases) (auto simp: carrying_def)
    then show ?thesis using inv_own [OF inv, of t p] by auto
  qed
qed

lemma carrier_shifts:
  assumes inv: "am_inv s" and c: "carrying (am_pcs s t)" "carrying c" "\<not> am_draining s \<or> c = Enter" "counted c = counted (am_pcs s t)"
    and same: "handing c = handing (am_pcs s t)" "dropping c = dropping (am_pcs s t)" "emptied c \<Longrightarrow> ds = []" "word \<noteq> not_locked"
    and lists: "priv c @ ds @ rev (stack_of word) = lists s"
  shows "am_inv (go t c (s\<lparr>am_word := word, am_drain_head := ds\<rparr>))"
proof -
  have "am_holders s = of_bool (counted c)" using inv_counts(3) [OF inv] inv_carrying(2) [OF inv c(1)] c(4) by simp
  from carrier_moves [OF inv c(1-3) same lists this] show ?thesis by simp
qed

lemma carrier_goes:
  assumes inv: "am_inv s" and c: "carrying (am_pcs s t)" "carrying c" "\<not> am_draining s \<or> c = Enter" "counted c = counted (am_pcs s t)"
    and same: "handing c = handing (am_pcs s t)" "dropping c = dropping (am_pcs s t)" "priv c = priv (am_pcs s t)" "emptied c \<Longrightarrow> emptied (am_pcs s t)"
  shows "am_inv (go t c s)"
proof -
  note turn = inv_carrying [OF inv c(1)]
  have "emptied c \<Longrightarrow> am_drain_head s = []" "am_word s \<noteq> not_locked" using inv_turn(1,3) [OF inv] turn(1,2) same(4) by auto
  moreover have "priv c @ am_drain_head s @ rev (stack_of (am_word s)) = lists s" using turn(2) same(3) by (simp add: lists_def)
  ultimately show ?thesis using carrier_shifts [OF inv c same(1,2), of "am_drain_head s" "am_word s"] by simp
qed

lemma am_inv_step:
  assumes step: "am_step a s s'" and inv: "am_inv s"
  shows "am_inv s'"
  using step
proof cases
  case (lock_call t)
  show ?thesis unfolding lock_call(2) by (rule frame_moves [OF inv]) (use lock_call in \<open>auto simp: carrying_def\<close>)
next
  case (lock_drained t)
  show ?thesis unfolding lock_drained(2) by (rule frame_moves [OF inv]) (use lock_drained in \<open>auto simp: carrying_def\<close>)
next
  case (acquire_fast t)
  then show ?thesis using acquire_fast_inv [OF inv] by simp
next
  case (acquire_busy t)
  show ?thesis unfolding acquire_busy(2) by (rule frame_moves [OF inv]) (use acquire_busy inv_not_draining [OF inv, of t] in \<open>auto simp: carrying_def\<close>)
next
  case (alloc_fails t)
  show ?thesis unfolding alloc_fails(2) by (rule frame_moves [OF inv]) (use alloc_fails in \<open>auto simp: carrying_def\<close>)
next
  case (alloc t p)
  then show ?thesis using alloc_inv [OF inv] by simp
next
  case (assign_fails t p w)
  then show ?thesis using assign_fails_inv [OF inv] by simp
next
  case (recheck_drained t p w)
  then show ?thesis using assign_fails_inv [OF inv] by simp
next
  case (reload t p)
  show ?thesis unfolding reload(2) by (rule frame_moves [OF inv]) (use reload in \<open>auto simp: carrying_def\<close>)
next
  case (enrol_free t p w)
  then show ?thesis using enrol_free_inv [OF inv] by simp
next
  case (enrol_push t p v w)
  then have "am_word s \<noteq> not_locked" by auto
  then show ?thesis using enrol_push_inv [OF inv enrol_push(3) enrol_push(6)] enrol_push(2) by simp
next
  case (enrol_again t p v)
  show ?thesis unfolding enrol_again(2) by (rule frame_moves [OF inv]) (use enrol_again inv_not_draining [OF inv, of t] in \<open>auto simp: carrying_def\<close>)
next
  case (publish_done p w)
  then show ?thesis using publish_done_inv [OF inv] by simp
next
  case (cancel t p w)
  then show ?thesis using cancel_inv [OF inv] by simp
next
  case (abort_schedules p w)
  then show ?thesis using abort_schedules_inv [OF inv] by simp
next
  case (resume p w t r)
  then show ?thesis using resume_inv [OF inv resume(3-6)] by (simp add: resumed_def)
next
  case (resume_trap p w)
  then show ?thesis using no_trap(2) [OF inv, of p w] by simp
next
  case (runner_releases p w)
  then show ?thesis using runner_releases_inv [OF inv] by simp
next
  case (runner_done p)
  then show ?thesis using runner_done_inv [OF inv] by simp
next
  case (rejected_returns t e)
  show ?thesis unfolding rejected_returns(2) by (rule frame_moves [OF inv]) (use rejected_returns in \<open>auto simp: carrying_def\<close>)
next
  case (unlock_call t)
  then show ?thesis using carrier_goes [OF inv, of t Enter] by (simp add: carrying_def)
next
  case (unlock_enter t)
  then have c: "carrying (am_pcs s t)" by (simp add: carrying_def)
  note turn = inv_carrying [OF inv c]
  show ?thesis using carrier_moves [OF inv c, of Splitting "am_drain_head s" "am_word s" "am_holders s - 1"] unlock_enter turn inv_turn(1) [OF inv] inv_counts(3) [OF inv]
    by (simp add: carrying_def lists_def)
next
  case (unlock_draining t)
  then have c: "carrying (am_pcs s t)" "handing (am_pcs s t) = None" by (simp_all add: carrying_def)
  have "lists s = []" using am_invD(6) [OF inv] unlock_draining(4) by (simp add: drain_ok_def)
  moreover from this have "am_drain_head s = []" "am_holders s - 1 = 0" using inv_counts(3) [OF inv] by (simp_all add: lists_def)
  ultimately show ?thesis using released_inv [OF inv c, of "if am_word s = locked [] then not_locked else am_word s" 0] unlock_draining
    by (cases "am_word s = locked []") simp_all
next
  case (take_residual t)
  then have c: "carrying (am_pcs s t)" by (simp add: carrying_def)
  note turn = inv_carrying [OF inv c]
  show ?thesis using carrier_shifts [OF inv c, of "Walk (am_drain_head s) False" "[]" "am_word s"] take_residual turn inv_turn(1) [OF inv] inv_not_draining [OF inv, of t]
    by (simp add: carrying_def lists_def)
next
  case (walk_end t b)
  then show ?thesis using carrier_goes [OF inv, of t "if b then Free else Take"] inv_not_draining [OF inv, of t] by (simp add: carrying_def split: if_splits)
next
  case (walk_queued t p ps b w)
  then show ?thesis using carrier_goes [OF inv, of t "Grant p ps b"] inv_not_draining [OF inv, of t] by (simp add: carrying_def)
next
  case (walk_cancelled t p ps b w)
  then show ?thesis using pop_inv [OF inv, of t p ps w b] inv_not_draining [OF inv, of t] by (simp add: carrying_def)
next
  case (walk_trap t p ps b w)
  then show ?thesis using no_trap(3) [OF inv, of t p ps w] by (simp add: carrying_def)
next
  case (grant t p ps b w)
  then show ?thesis using grant_inv [OF inv] by simp
next
  case (grant_lost t p ps b w)
  then show ?thesis using pop_inv [OF inv, of t p ps w b] inv_not_draining [OF inv, of t] by (simp add: carrying_def)
next
  case (grant_trap t p ps b w)
  then show ?thesis using no_trap(3) [OF inv, of t p ps w] by (simp add: carrying_def)
next
  case (splice t p ps)
  then have c: "carrying (am_pcs s t)" by (simp add: carrying_def)
  note turn = inv_carrying [OF inv c]
  show ?thesis using carrier_shifts [OF inv c, of "Drop p" "ps @ am_drain_head s" "am_word s"] splice turn inv_turn(1,3) [OF inv] inv_not_draining [OF inv, of t]
    by (simp add: carrying_def lists_def)
next
  case (drop t p w)
  then show ?thesis using drop_inv [OF inv] by simp
next
  case (sched t p w)
  then show ?thesis using sched_inv [OF inv] by simp
next
  case (take t)
  then have c: "carrying (am_pcs s t)" by (simp add: carrying_def)
  let ?c = "if stack_of (am_word s) = [] then Free else Walk (rev (stack_of (am_word s))) True"
  have "am_inv (go t ?c (s\<lparr>am_word := locked [], am_drain_head := am_drain_head s\<rparr>))"
    by (rule carrier_shifts [OF inv c])
      (use take inv_carrying [OF inv c] inv_turn(3) [OF inv] inv_not_draining [OF inv, of t] in \<open>auto simp: carrying_def lists_def\<close>)
  then show ?thesis using take by simp
next
  case (free t)
  then have c: "carrying (am_pcs s t)" "handing (am_pcs s t) = None" by (simp_all add: carrying_def)
  note turn = inv_carrying [OF inv c(1)]
  have ds: "am_drain_head s = []" using inv_turn(3) [OF inv] turn(2) free by simp
  have li: "lists s = []" using turn(2) free ds by (simp add: lists_def)
  have "am_holders s = 0" using inv_counts(3) [OF inv] turn(2) free by simp
  from released_inv [OF inv c li ds disjI1 [OF refl] this] show ?thesis using free(2) by simp
next
  case (free_lost t)
  then have c: "carrying (am_pcs s t)" by (simp add: carrying_def)
  note turn = inv_carrying [OF inv c]
  show ?thesis using carrier_moves [OF inv c, of Enter "am_drain_head s" "am_word s" "am_holders s + 1"] free_lost turn inv_turn(1) [OF inv]
      inv_counts(3) [OF inv] inv_not_draining [OF inv, of t]
    by (simp add: carrying_def lists_def)
next
  case (dangling p t)
  then show ?thesis using no_trap(1) [OF inv, of p t] by simp
next
  case drain_call
  then show ?thesis using drain_inv(1) [OF inv] by simp
next
  case drain_again
  then show ?thesis using drain_inv(2) [OF inv] by simp
qed

end
