(* ===== verification/Fixpp_MutexLock.thy ===== *)
theory Fixpp_MutexLock
  imports Fixpp_MutexInvariant
begin

text \<open>
  What the asynchronous mutex promises: it refines a lock with a first-come, first-served queue, its
  records are neither used after they are freed nor leaked, a call of \<^verbatim>\<open>unlock\<close> returns and no
  waiter is overtaken.  The locale \<open>guard_lock\<close> is the contract its clients rely on.
\<close>

lemma am_inv_reachable: "am_reachable s \<Longrightarrow> am_inv s"
  by (induction rule: am_reachable.induct) (auto intro: am_inv_init am_inv_step)

subsection \<open>The lock it implements\<close>

record fifo_lock =
  lk_owner :: "frame_id option"
  lk_queue :: "frame_id list"

inductive fifo_step :: "fifo_lock \<Rightarrow> fifo_lock \<Rightarrow> bool" where
  fifo_acquire: "lk_owner l = None \<Longrightarrow> lk_queue l = [] \<Longrightarrow> fifo_step l (l\<lparr>lk_owner := Some t\<rparr>)"
| fifo_wait: "lk_owner l \<noteq> None \<Longrightarrow> lk_owner l \<noteq> Some t \<Longrightarrow> t \<notin> set (lk_queue l) \<Longrightarrow> fifo_step l (l\<lparr>lk_queue := lk_queue l @ [t]\<rparr>)"
| fifo_withdraw: "lk_queue l = xs @ t # ys \<Longrightarrow> fifo_step l (l\<lparr>lk_queue := xs @ ys\<rparr>)"
| fifo_hand_over: "lk_owner l \<noteq> None \<Longrightarrow> lk_queue l = t # ts \<Longrightarrow> fifo_step l (l\<lparr>lk_owner := Some t, lk_queue := ts\<rparr>)"
| fifo_release: "lk_owner l \<noteq> None \<Longrightarrow> lk_queue l = [] \<Longrightarrow> fifo_step l (l\<lparr>lk_owner := None\<rparr>)"
| fifo_close: "fifo_step l (l\<lparr>lk_queue := []\<rparr>)"

definition waits :: "(ptr \<Rightarrow> waiter option) \<Rightarrow> ptr \<Rightarrow> frame_id option" where
  "waits h p = (case h p of None \<Rightarrow> None | Some w \<Rightarrow> if w_phase w = queued then w_frame w else None)"

definition owner_of :: "am \<Rightarrow> frame_id option" where
  "owner_of s = (case handing (turn_pc s) of None \<Rightarrow> am_turn s | Some p \<Rightarrow> (case am_heap s p of None \<Rightarrow> None | Some w \<Rightarrow> w_frame w))"

definition abs_lock :: "am \<Rightarrow> fifo_lock" where
  "abs_lock s = \<lparr>lk_owner = owner_of s, lk_queue = List.map_filter (waits (am_heap s)) (lists s)\<rparr>"

lemma map_filter_cong: "(\<And>x. x \<in> set xs \<Longrightarrow> f x = g x) \<Longrightarrow> List.map_filter f xs = List.map_filter g xs"
  by (induction xs) (simp_all add: List.map_filter_simps split: option.splits)

lemma map_filter_append: "List.map_filter f (xs @ ys) = List.map_filter f xs @ List.map_filter f ys"
  by (induction xs) (simp_all add: List.map_filter_simps split: option.splits)

lemma abs_lock_same:
  assumes "lists s' = lists s" "owner_of s' = owner_of s" "\<And>p. p \<in> set (lists s) \<Longrightarrow> waits (am_heap s') p = waits (am_heap s) p"
  shows "abs_lock s' = abs_lock s"
  unfolding abs_lock_def using assms map_filter_cong [of "lists s" "waits (am_heap s')" "waits (am_heap s)"] by simp

lemma waits_upd: "waits (h(p := v)) q = (if q = p then waits (\<lambda>_. v) p else waits h q)"
  by (simp add: waits_def)

lemma owner_kept:
  assumes "handing (turn_pc s') = handing (turn_pc s)" "am_turn s' = am_turn s"
    and "\<And>p w. handing (turn_pc s) = Some p \<Longrightarrow> am_heap s p = Some w \<Longrightarrow> \<exists>w'. am_heap s' p = Some w' \<and> w_frame w' = w_frame w"
    and "am_inv s"
  shows "owner_of s' = owner_of s"
proof (cases "handing (turn_pc s)")
  case (Some p)
  then obtain w where "am_heap s p = Some w" using inv_handing [OF assms(4) Some] by auto
  then show ?thesis using assms(1) assms(3) [OF Some] Some by (auto simp: owner_of_def)
qed (use assms(1,2) in \<open>simp add: owner_of_def\<close>)

text \<open>A step that touches one record, which stays as it is in the queue and keeps its frame while it
  is handed the lock.\<close>

lemma abs_record:
  assumes inv: "am_inv s" and p: "am_heap s p = Some w" and same: "lists s' = lists s" "handing (turn_pc s') = handing (turn_pc s)" "am_turn s' = am_turn s"
    and heap: "am_heap s' = (am_heap s)(p := v)"
    and kept: "waits (\<lambda>_. v) p = waits (\<lambda>_. Some w) p" "handing (turn_pc s) = Some p \<Longrightarrow> \<exists>w'. v = Some w' \<and> w_frame w' = w_frame w"
  shows "abs_lock s' = abs_lock s"
proof (rule abs_lock_same [OF same(1)])
  show "waits (am_heap s') q = waits (am_heap s) q" for q using kept(1) p by (simp add: heap waits_upd waits_def)
  show "owner_of s' = owner_of s" by (rule owner_kept [OF same(2,3) _ inv]) (use heap kept(2) p in auto)
qed

lemma abs_frame:
  assumes "am_inv s" "lists s' = lists s" "handing (turn_pc s') = handing (turn_pc s)" "am_turn s' = am_turn s" "am_heap s' = am_heap s"
  shows "abs_lock s' = abs_lock s"
  by (rule abs_lock_same) (use assms owner_kept [of s' s] in auto)

lemma waits_release:
  "waits (\<lambda>_. if w_refs w = 1 then None else Some (w\<lparr>w_refs := w_refs w - 1\<rparr>)) p = waits (\<lambda>_. Some w) p" if "w_refs w = 1 \<Longrightarrow> w_frame w = None \<or> w_phase w \<noteq> queued"
  using that by (auto simp: waits_def)

lemma released_abs:
  assumes inv: "am_inv s" and p: "am_heap s p = Some w" and over: "rec_over 1 s p w'" and same: "w_frame w' = w_frame w" "w_phase w' = w_phase w"
    and s': "am_heap s' = (am_heap s)(p := if w_refs w' = 1 then None else Some (w'\<lparr>w_refs := w_refs w' - 1\<rparr>))"
      "lists s' = lists s" "turn_pc s' = turn_pc s" "am_turn s' = am_turn s"
  shows "abs_lock s' = abs_lock s"
proof (rule abs_record [OF inv p s'(2) _ s'(4) s'(1)])
  show "waits (\<lambda>_. if w_refs w' = 1 then None else Some (w'\<lparr>w_refs := w_refs w' - 1\<rparr>)) p = waits (\<lambda>_. Some w) p"
    using waits_release [of w' p] last_released(1) [OF over] same by (simp add: waits_def)
  show "\<exists>w2. (if w_refs w' = 1 then None else Some (w'\<lparr>w_refs := w_refs w' - 1\<rparr>)) = Some w2 \<and> w_frame w2 = w_frame w" if "handing (turn_pc s) = Some p"
    using that last_released(3) [OF over] same by auto
qed (simp add: s'(3))

lemma inv_owner:
  assumes inv: "am_inv s" and turn: "am_turn s \<noteq> None"
  shows "owner_of s \<noteq> None" "own (am_pcs s t) = Some p \<Longrightarrow> unpublished (am_pcs s t) \<Longrightarrow> owner_of s \<noteq> Some t"
proof -
  show "owner_of s \<noteq> None"
  proof (cases "handing (turn_pc s)")
    case (Some p)
    from inv_handing [OF inv this] obtain w where "am_heap s p = Some w" "w_frame w \<noteq> None" .
    then show ?thesis using Some by (simp add: owner_of_def)
  qed (use turn in \<open>simp add: owner_of_def\<close>)
  show "owner_of s \<noteq> Some t" if t: "own (am_pcs s t) = Some p" "unpublished (am_pcs s t)"
  proof (cases "handing (turn_pc s)")
    case None
    have "am_turn s \<noteq> Some t" using inv_no_turn [OF inv, of t] t by (cases "am_pcs s t") (auto simp: carrying_def)
    then show ?thesis using None by (simp add: owner_of_def)
  next
    case (Some q)
    then obtain w where w: "am_heap s q = Some w" "w_frame w \<noteq> None" using inv_handing [OF inv Some] by auto
    have "am_pcs s u = Parked q" if "w_frame w = Some u" for u
      using inv_rec [OF inv w(1)] Some that by (auto simp: rec_ok_def rec_over_def rec_good_def)
    then have "w_frame w \<noteq> Some t" using t(2) by force
    then show ?thesis using Some w by (auto simp: owner_of_def)
  qed
qed

lemma in_queue:
  assumes inv: "am_inv s"
  shows "t \<in> set (lk_queue (abs_lock s)) \<longleftrightarrow> (\<exists>p w. am_pcs s t = Parked p \<and> am_heap s p = Some w \<and> w_phase w = queued)"
proof
  assume "t \<in> set (lk_queue (abs_lock s))"
  then obtain p where p: "p \<in> set (lists s)" "waits (am_heap s) p = Some t" by (auto simp: abs_lock_def List.map_filter_def)
  then obtain w where w: "am_heap s p = Some w" "w_phase w = queued" "w_frame w = Some t" by (auto simp: waits_def split: option.splits if_splits)
  then have "am_pcs s t = Parked p" using inv_rec [OF inv w(1)] p(1) by (auto simp: rec_ok_def rec_over_def rec_good_def)
  then show "\<exists>p w. am_pcs s t = Parked p \<and> am_heap s p = Some w \<and> w_phase w = queued" using w by blast
next
  assume "\<exists>p w. am_pcs s t = Parked p \<and> am_heap s p = Some w \<and> w_phase w = queued"
  then obtain p w where p: "am_pcs s t = Parked p" "am_heap s p = Some w" "w_phase w = queued" by blast
  then have f: "w_frame w = Some t" using inv_own [OF inv, of t p] by auto
  then have "p \<in> set (lists s)" using inv_rec [OF inv p(2)] p by (auto simp: rec_ok_def rec_over_def rec_good_def)
  then show "t \<in> set (lk_queue (abs_lock s))" using p f by (force simp: abs_lock_def List.map_filter_def waits_def)
qed

text \<open>A frame takes the free lock.\<close>

lemma taken_abs:
  assumes inv: "am_inv s" and free: "am_word s = not_locked" "\<not> am_draining s"
    and s': "am_turn s' = Some t" "handing (turn_pc s') = None" "lists s' = []"
  shows "fifo_step (abs_lock s) (abs_lock s')"
proof -
  note no = inv_free [OF inv free]
  have "lk_owner (abs_lock s) = None" "lk_queue (abs_lock s) = []" using no by (simp_all add: abs_lock_def owner_of_def List.map_filter_simps)
  moreover have "abs_lock s' = (abs_lock s)\<lparr>lk_owner := Some t\<rparr>" using no s' by (simp add: abs_lock_def owner_of_def List.map_filter_simps)
  ultimately show ?thesis using fifo_acquire by metis
qed

lemma released_lock_abs:
  assumes inv: "am_inv s" and t: "carrying (am_pcs s t)" "handing (am_pcs s t) = None" "lists s = []"
    and s': "am_turn s' = None" "lists s' = []"
  shows "fifo_step (abs_lock s) (abs_lock s')"
proof -
  note turn = inv_carrying [OF inv t(1)]
  have "lk_owner (abs_lock s) \<noteq> None" "lk_queue (abs_lock s) = []" using turn t by (simp_all add: abs_lock_def owner_of_def List.map_filter_simps)
  moreover have "turn_pc s' = Idle" using s' by (simp add: turn_pc_def)
  then have "abs_lock s' = (abs_lock s)\<lparr>lk_owner := None\<rparr>" using t s' by (simp add: abs_lock_def owner_of_def List.map_filter_simps)
  ultimately show ?thesis using fifo_release by metis
qed

lemma enrol_push_abs:
  assumes inv: "am_inv s" and t: "am_pcs s t = Enrol p v" and p: "am_heap s p = Some w" and word: "am_word s \<noteq> not_locked"
  shows "fifo_step (abs_lock s) (abs_lock (go t (Parked p) (put p (w\<lparr>w_refs := w_refs w + 1, w_publishing := True\<rparr>) (s\<lparr>am_word := locked (p # stack_of (am_word s))\<rparr>))))"
    (is "fifo_step _ (abs_lock ?s)")
proof -
  have own: "own (am_pcs s t) = Some p" "unpublished (am_pcs s t)" using t by simp_all
  note w = inv_unpublished [OF inv p own]
  have "\<not> am_draining s" using inv_not_draining [OF inv, of t] t by simp
  then have turn: "am_turn s \<noteq> None" using inv_turn(2) [OF inv] word by blast
  have nt: "am_turn s \<noteq> Some t" using inv_no_turn [OF inv, of t] t by (simp add: carrying_def)
  have l: "lists ?s = lists s @ [p]" using nt by (simp add: lists_def)
  have "List.map_filter (waits (am_heap ?s)) (lists s) = List.map_filter (waits (am_heap s)) (lists s)"
    by (rule map_filter_cong) (use w(8) in \<open>auto simp: waits_def\<close>)
  moreover have "waits (am_heap ?s) p = Some t" using w by (simp add: waits_def)
  moreover have "owner_of ?s = owner_of s"
    by (rule owner_kept [OF _ _ _ inv]) (use nt w(9) in auto)
  ultimately have "abs_lock ?s = (abs_lock s)\<lparr>lk_queue := lk_queue (abs_lock s) @ [t]\<rparr>"
    unfolding abs_lock_def l by (simp add: map_filter_append List.map_filter_simps)
  moreover have "t \<notin> set (lk_queue (abs_lock s))" using in_queue [OF inv, of t] t by simp
  moreover have "lk_owner (abs_lock s) \<noteq> None" "lk_owner (abs_lock s) \<noteq> Some t"
    using inv_owner [OF inv turn] own by (auto simp: abs_lock_def)
  ultimately show ?thesis using fifo_wait by metis
qed

lemma cancel_abs:
  assumes inv: "am_inv s" and p: "am_pcs s t = Parked p" "am_heap s p = Some w" "w_phase w = queued"
  shows "fifo_step (abs_lock s) (abs_lock (put p (reject e w\<lparr>w_aborting := True\<rparr>) s))" (is "fifo_step _ (abs_lock ?s)")
proof -
  have f: "w_frame w = Some t" using inv_own [OF inv, of t p] p(1,2) by auto
  have rec: "p \<in> set (lists s)" "handing (turn_pc s) \<noteq> Some p"
    using inv_rec [OF inv p(2)] p f by (auto simp: rec_ok_def rec_over_def rec_good_def)
  then obtain xs ys where l: "lists s = xs @ p # ys" using split_list by metis
  have "distinct (lists s)" using am_invD(3) [OF inv] by (simp add: lists_ok_def)
  then have "p \<notin> set xs" "p \<notin> set ys" using l by auto
  then have same: "List.map_filter (waits (am_heap ?s)) zs = List.map_filter (waits (am_heap s)) zs" if "zs = xs \<or> zs = ys" for zs
    using that by (intro map_filter_cong) (auto simp: waits_def)
  have "waits (am_heap s) p = Some t" "waits (am_heap ?s) p = None" using p f by (simp_all add: waits_def)
  then have "lk_queue (abs_lock s) = List.map_filter (waits (am_heap s)) xs @ t # List.map_filter (waits (am_heap s)) ys"
    "lk_queue (abs_lock ?s) = List.map_filter (waits (am_heap s)) xs @ List.map_filter (waits (am_heap s)) ys"
    unfolding abs_lock_def lists_simps(7) l using same by (simp_all add: map_filter_append List.map_filter_simps)
  moreover have "owner_of ?s = owner_of s" by (rule owner_kept [OF _ _ _ inv]) (use rec(2) in auto)
  then have "lk_owner (abs_lock ?s) = lk_owner (abs_lock s)" by (simp add: abs_lock_def)
  ultimately have "abs_lock ?s = (abs_lock s)\<lparr>lk_queue := List.map_filter (waits (am_heap s)) xs @ List.map_filter (waits (am_heap s)) ys\<rparr>"
    and "lk_queue (abs_lock s) = List.map_filter (waits (am_heap s)) xs @ t # List.map_filter (waits (am_heap s)) ys"
    by (simp_all add: fifo_lock.equality)
  then show ?thesis using fifo_withdraw by metis
qed

lemma pop_abs:
  assumes inv: "am_inv s" and t: "carrying (am_pcs s t)" "priv (am_pcs s t) = p # ps" "handing (am_pcs s t) = None"
    and p: "am_heap s p = Some w" "w_phase w = cancelled"
  shows "abs_lock (go t (Walk ps b) (release_ref p w s)) = abs_lock s" (is "abs_lock ?s = _")
proof -
  note turn = inv_carrying [OF inv t(1)]
  note l = first_listed [OF inv t(1,2)]
  have ls: "lists ?s = ps @ am_drain_head s @ rev (stack_of (am_word s))" using turn(1) by simp
  have "List.map_filter (waits (am_heap ?s)) (lists ?s) = List.map_filter (waits (am_heap s)) (lists ?s)"
    by (rule map_filter_cong) (use l(2) ls in \<open>auto simp: waits_def\<close>)
  moreover have "waits (am_heap s) p = None" using p by (simp add: waits_def)
  then have "List.map_filter (waits (am_heap s)) (lists s) = List.map_filter (waits (am_heap s)) (lists ?s)"
    unfolding l(1) ls by (simp add: List.map_filter_simps)
  moreover have "owner_of ?s = owner_of s" using turn t(3) by (simp add: owner_of_def)
  ultimately show ?thesis by (simp add: abs_lock_def)
qed

lemma grant_abs:
  assumes inv: "am_inv s" and t: "am_pcs s t = Grant p ps b" and p: "am_heap s p = Some w" "w_phase w = queued"
  shows "fifo_step (abs_lock s) (abs_lock (go t (Splice p ps) (put p (accept w) (s\<lparr>am_holders := n\<rparr>))))" (is "fifo_step _ (abs_lock ?s)")
proof -
  have c: "carrying (am_pcs s t)" "priv (am_pcs s t) = p # ps" using t by (simp_all add: carrying_def)
  note turn = inv_carrying [OF inv c(1)]
  note l = first_listed [OF inv c]
  have ls: "lists ?s = ps @ am_drain_head s @ rev (stack_of (am_word s))" using turn(1) by simp
  obtain u where u: "w_frame w = Some u" using inv_rec [OF inv p(1)] p(2) by (auto simp: rec_ok_def rec_over_def rec_good_def)
  have "List.map_filter (waits (am_heap ?s)) (lists ?s) = List.map_filter (waits (am_heap s)) (lists ?s)"
    by (rule map_filter_cong) (use l(2) ls in \<open>auto simp: waits_def\<close>)
  moreover have "waits (am_heap s) p = Some u" using p u by (simp add: waits_def)
  then have "List.map_filter (waits (am_heap s)) (lists s) = u # List.map_filter (waits (am_heap s)) (lists ?s)"
    unfolding l(1) ls by (simp add: List.map_filter_simps)
  moreover have "owner_of s = Some t" "owner_of ?s = Some u" using turn t u by (simp_all add: owner_of_def)
  ultimately show ?thesis using fifo_hand_over [of "abs_lock s" u "List.map_filter (waits (am_heap s)) (lists ?s)"] by (simp add: abs_lock_def)
qed

lemma reap_chain_same:
  "am_pcs (reap_chain ps s) = am_pcs s \<and> am_turn (reap_chain ps s) = am_turn s"
  by (induction ps arbitrary: s) (simp_all add: reap_chain_def)

lemma drain_pass_same: "am_pcs (drain_pass s) = am_pcs s" "am_turn (drain_pass s) = am_turn s" "am_draining s \<Longrightarrow> am_draining (drain_pass s)"
proof -
  have d: "am_draining (reap_chain ps s) = am_draining s" for ps s by (induction ps arbitrary: s) (simp_all add: reap_chain_def)
  show "am_pcs (drain_pass s) = am_pcs s" "am_turn (drain_pass s) = am_turn s" "am_draining s \<Longrightarrow> am_draining (drain_pass s)"
    by (simp_all add: drain_pass_def Let_def reap_chain_same d)
qed

lemma drain_abs:
  assumes inv: "am_inv s" "am_inv (drain_pass s')" and ser: "serial s" and s': "s' = s\<lparr>am_draining := True\<rparr>"
  shows "fifo_step (abs_lock s) (abs_lock (drain_pass s'))"
proof -
  have same: "am_turn (drain_pass s') = am_turn s" "turn_pc (drain_pass s') = turn_pc s" by (simp_all add: turn_pc_def drain_pass_same s' split: option.splits)
  have "am_draining (drain_pass s')" using drain_pass_same(3) [of s'] s' by simp
  then have "lists (drain_pass s') = []" using am_invD(6) [OF inv(2)] by (simp add: drain_ok_def)
  moreover have "handing (turn_pc s) = None" using at_rest_lists(2) [OF serial_turn [OF ser]] .
  ultimately have "abs_lock (drain_pass s') = (abs_lock s)\<lparr>lk_queue := []\<rparr>"
    using same by (simp add: abs_lock_def owner_of_def List.map_filter_simps)
  then show ?thesis using fifo_close by metis
qed

lemma frame_moves_abs:
  assumes "am_inv s" "\<not> carrying (am_pcs s t)" "\<And>p. am_pcs s t \<noteq> Parked p"
  shows "abs_lock (go t c s) = abs_lock s"
  by (rule abs_frame [OF assms(1)]) (use inv_no_turn [OF assms] in simp_all)

lemma carrier_abs:
  assumes "am_inv s" "carrying (am_pcs s t)" "priv c @ ds @ rev (stack_of word) = lists s" "handing c = handing (am_pcs s t)"
  shows "abs_lock (go t c (s\<lparr>am_word := word, am_drain_head := ds, am_holders := n\<rparr>)) = abs_lock s"
  by (rule abs_frame [OF assms(1)]) (use inv_carrying [OF assms(1,2)] assms(3,4) in simp_all)

lemma carrier_abs_ds:
  assumes "am_inv s" "carrying (am_pcs s t)" "priv c @ ds @ rev (stack_of (am_word s)) = lists s" "handing c = handing (am_pcs s t)"
  shows "abs_lock (go t c (s\<lparr>am_drain_head := ds\<rparr>)) = abs_lock s"
  using carrier_abs [OF assms, of "am_holders s"] by simp

lemma carrier_goes_abs:
  assumes "am_inv s" "carrying (am_pcs s t)" "priv c = priv (am_pcs s t)" "handing c = handing (am_pcs s t)"
  shows "abs_lock (go t c s) = abs_lock s" "abs_lock (go t c (s\<lparr>am_holders := n\<rparr>)) = abs_lock s"
  by (rule abs_frame [OF assms(1)]; use inv_carrying [OF assms(1,2)] assms(3,4) in \<open>simp add: lists_def\<close>)+

lemma park_abs:
  assumes inv: "am_inv s" and t: "own (am_pcs s t) = Some p" "unpublished (am_pcs s t)" and p: "am_heap s p = Some w"
    and s': "am_heap s' = (am_heap s)(p := v)" "lists s' = lists s" "turn_pc s' = turn_pc s" "am_turn s' = am_turn s"
  shows "abs_lock s' = abs_lock s"
proof (rule abs_lock_same [OF s'(2)])
  note w = inv_unpublished [OF inv p t]
  show "waits (am_heap s') q = waits (am_heap s) q" if "q \<in> set (lists s)" for q using that w(8) by (auto simp: s'(1) waits_def)
  show "owner_of s' = owner_of s" by (rule owner_kept [OF _ s'(4) _ inv]) (use s' w(9) in auto)
qed

lemma abs_lock_step:
  assumes step: "am_step a s s'" and inv: "am_inv s"
  shows "abs_lock s' = abs_lock s \<or> fifo_step (abs_lock s) (abs_lock s')"
  using step
proof cases
  case (acquire_fast t)
  have "\<not> am_draining s" using inv_not_draining [OF inv, of t] acquire_fast by simp
  moreover have "am_drain_head s = []" using inv_turn(1,2) [OF inv] acquire_fast(4) \<open>\<not> am_draining s\<close> by blast
  ultimately show ?thesis using taken_abs [OF inv acquire_fast(4), of s' t] acquire_fast by simp
next
  case (alloc t p)
  have "am_turn s \<noteq> Some t" using inv_no_turn [OF inv, of t] alloc by (simp add: carrying_def)
  moreover have "p \<notin> set (lists s)" "handing (turn_pc s) \<noteq> Some p" using inv_listed [OF inv, of p] inv_handing [OF inv, of p] alloc by auto
  moreover from this calculation have "owner_of s' = owner_of s" by (intro owner_kept [OF _ _ _ inv]) (use alloc in auto)
  ultimately have "abs_lock s' = abs_lock s" by (intro abs_lock_same) (use alloc in \<open>auto simp: waits_def\<close>)
  then show ?thesis ..
next
  case (assign_fails t p w)
  then have "am_turn s \<noteq> Some t" using inv_no_turn [OF inv, of t] by (simp add: carrying_def)
  then have "abs_lock s' = abs_lock s" by (intro park_abs [OF inv _ _ assign_fails(4), of t]) (use assign_fails in auto)
  then show ?thesis ..
next
  case (recheck_drained t p w)
  then show ?thesis using inv_not_draining [OF inv, of t] by simp
next
  case (enrol_free t p w)
  have nd: "\<not> am_draining s" using inv_not_draining [OF inv, of t] enrol_free by simp
  moreover have "am_drain_head s = []" using inv_turn(1,2) [OF inv] enrol_free(4) nd by blast
  ultimately show ?thesis using taken_abs [OF inv enrol_free(4), of s' t] enrol_free by simp
next
  case (enrol_push t p v w)
  then have "am_word s \<noteq> not_locked" by auto
  then show ?thesis using enrol_push_abs [OF inv enrol_push(3) enrol_push(6)] enrol_push(2) by simp
next
  case (publish_done p w)
  have over: "rec_over 1 s p (w\<lparr>w_publishing := False\<rparr>)" using inv_rec [OF inv publish_done(3)] publish_done(4) by (cases "w_phase w") (auto simp: rec_defs)
  have "abs_lock s' = abs_lock s" by (rule released_abs [OF inv publish_done(3) over]) (use publish_done(2) in auto)
  then show ?thesis ..
next
  case (cancel t p w)
  then show ?thesis using cancel_abs [OF inv cancel(3-5)] by simp
next
  case (abort_schedules p w)
  then have "abs_lock s' = abs_lock s" by (intro abs_record [OF inv abort_schedules(3)]) (auto simp: waits_def)
  then show ?thesis ..
next
  case (runner_releases p w)
  have over: "rec_over 1 s p (w\<lparr>w_running := w_running w - 1\<rparr>)" using inv_rec [OF inv runner_releases(3)] runner_releases(4)
    by (cases "w_phase w") (auto simp: rec_defs split: if_splits)
  have "abs_lock s' = abs_lock s" by (rule released_abs [OF inv runner_releases(3) over]) (use runner_releases(2) in auto)
  then show ?thesis ..
next
  case (resume p w t r)
  note f = resumed_facts [OF inv resume(3-6)]
  have "abs_lock (resumed p w t r s) = abs_lock s"
    by (rule abs_record [OF inv resume(3) f(11) f(7) _ f(1)]) (use f(14,15) in \<open>auto simp: waits_def\<close>)
  then show ?thesis using resume(2) by (simp add: resumed_def)
next
  case (unlock_draining t)
  have "lists s = []" using am_invD(6) [OF inv] unlock_draining(4) by (simp add: drain_ok_def)
  moreover from this have "am_drain_head s = []" "stack_of (am_word s) = []" by (simp_all add: lists_def)
  ultimately show ?thesis using released_lock_abs [OF inv, of t s'] unlock_draining by (simp add: carrying_def)
next
  case (free t)
  then have "carrying (am_pcs s t)" by (simp add: carrying_def)
  note turn = inv_carrying [OF inv this]
  have "am_drain_head s = []" using inv_turn(3) [OF inv] turn(2) free by simp
  moreover from this have "lists s = []" using turn(2) free by (simp add: lists_def)
  ultimately show ?thesis using released_lock_abs [OF inv, of t s'] free by (simp add: carrying_def)
next
  case (walk_cancelled t p ps b w)
  then show ?thesis using pop_abs [OF inv, of t p ps w b] by (simp add: carrying_def)
next
  case (grant_lost t p ps b w)
  then show ?thesis using pop_abs [OF inv, of t p ps w b] by (simp add: carrying_def)
next
  case (grant t p ps b w)
  then show ?thesis using grant_abs [OF inv] by simp
next
  case (splice t p ps)
  then have c: "carrying (am_pcs s t)" by (simp add: carrying_def)
  note turn = inv_carrying [OF inv c]
  have "am_drain_head s = []" using inv_turn(3) [OF inv] turn(2) splice by simp
  then show ?thesis using carrier_abs_ds [OF inv c, of "Drop p" "ps @ am_drain_head s"] splice turn(2) by (simp add: lists_def)
next
  case (take_residual t)
  then have c: "carrying (am_pcs s t)" by (simp add: carrying_def)
  show ?thesis using carrier_abs_ds [OF inv c, of "Walk (am_drain_head s) False" "[]"] take_residual inv_carrying(2) [OF inv c] by (simp add: lists_def)
next
  case (take t)
  then have c: "carrying (am_pcs s t)" by (simp add: carrying_def)
  note turn = inv_carrying [OF inv c]
  have "am_drain_head s = []" using inv_turn(3) [OF inv] turn(2) take by simp
  then have "abs_lock (go t (if stack_of (am_word s) = [] then Free else Walk (rev (stack_of (am_word s))) True)
      (s\<lparr>am_word := locked [], am_drain_head := am_drain_head s, am_holders := am_holders s\<rparr>)) = abs_lock s"
    by (intro carrier_abs [OF inv c]) (use take turn(2) in \<open>auto simp: lists_def\<close>)
  then show ?thesis using take(2) by simp
next
  case (drop t p w)
  then have c: "carrying (am_pcs s t)" by (simp add: carrying_def)
  note turn = inv_carrying [OF inv c]
  have "w_refs w \<noteq> 1" using inv_rec [OF inv drop(4)] turn(2) drop(3) by (auto simp: rec_defs split: if_splits)
  then have "abs_lock s' = abs_lock s" by (intro abs_record [OF inv drop(4)]) (use drop turn in \<open>auto simp: waits_def lists_def\<close>)
  then show ?thesis ..
next
  case (sched t p w)
  then have c: "carrying (am_pcs s t)" by (simp add: carrying_def)
  note turn = inv_carrying [OF inv c]
  from inv_handing [OF inv, of p] obtain u where u: "w_frame w = Some u" using turn(2) sched by auto
  have parked: "am_pcs s u = Parked p" using inv_rec [OF inv sched(4)] turn(2) sched(3) u by (auto simp: rec_defs)
  then have "u \<noteq> t" using sched(3) by auto
  then have "lists s' = lists s" "owner_of s' = owner_of s"
    using sched(2-4) turn u parked by (simp_all add: lists_def owner_of_def)
  then have "abs_lock s' = abs_lock s" by (rule abs_lock_same) (use sched in \<open>auto simp: waits_def\<close>)
  then show ?thesis ..
next
  case drain_call
  then show ?thesis using drain_abs [OF inv, of "s\<lparr>am_draining := True\<rparr>"] drain_inv(1) [OF inv] by simp
next
  case drain_again
  moreover from this have "s\<lparr>am_draining := True\<rparr> = s" by simp
  ultimately show ?thesis using drain_abs [OF inv, of s] drain_inv(2) [OF inv] by simp
next
  case (lock_call t)
  then show ?thesis using frame_moves_abs [OF inv, of t] by (simp add: carrying_def)
next
  case (lock_drained t)
  then show ?thesis using frame_moves_abs [OF inv, of t] by (simp add: carrying_def)
next
  case (acquire_busy t)
  then show ?thesis using frame_moves_abs [OF inv, of t] by (simp add: carrying_def)
next
  case (alloc_fails t)
  then show ?thesis using frame_moves_abs [OF inv, of t] by (simp add: carrying_def)
next
  case (reload t p)
  then show ?thesis using frame_moves_abs [OF inv, of t] by (simp add: carrying_def)
next
  case (enrol_again t p v)
  then show ?thesis using frame_moves_abs [OF inv, of t] by (simp add: carrying_def)
next
  case (rejected_returns t e)
  then show ?thesis using frame_moves_abs [OF inv, of t] by (simp add: carrying_def)
next
  case (unlock_call t)
  then show ?thesis using carrier_goes_abs [OF inv, of t] by (simp add: carrying_def)
next
  case (unlock_enter t)
  then show ?thesis using carrier_goes_abs [OF inv, of t] by (simp add: carrying_def)
next
  case (walk_queued t p ps b w)
  then show ?thesis using carrier_goes_abs [OF inv, of t] by (simp add: carrying_def)
next
  case (free_lost t)
  then show ?thesis using carrier_goes_abs [OF inv, of t] by (simp add: carrying_def)
next
  case (walk_end t b)
  then show ?thesis using carrier_goes_abs(1) [OF inv, of t "if b then Free else Take"] by (cases b) (simp_all add: carrying_def)
next
  case (runner_done p)
  then show ?thesis using abs_frame [OF inv, of s'] by simp
next
  case (resume_trap p w)
  then show ?thesis using no_trap(2) [OF inv, of p w] by simp
next
  case (walk_trap t p ps b w)
  then show ?thesis using no_trap(3) [OF inv, of t p ps w] by (simp add: carrying_def)
next
  case (grant_trap t p ps b w)
  then show ?thesis using no_trap(3) [OF inv, of t p ps w] by (simp add: carrying_def)
next
  case (dangling p t)
  then show ?thesis using no_trap(1) [OF inv, of p t] by simp
qed

subsection \<open>Progress\<close>

definition in_unlock :: "pc \<Rightarrow> bool" where
  "in_unlock c \<longleftrightarrow> c = Enter \<or> unlocking c"

text \<open>The operations a frame has left to do before \<^verbatim>\<open>unlock\<close> returns, if nobody joins the waiters.\<close>

definition free_work :: "nat \<Rightarrow> nat" where
  "free_work k = (if k = 0 then 1 else 2 * k + 8)"

fun pc_work :: "nat \<Rightarrow> nat \<Rightarrow> pc \<Rightarrow> nat" where
  "pc_work d k Enter = 2 * d + 2 * k + 7"
| "pc_work d k Splitting = 2 * d + 2 * k + 6"
| "pc_work d k (Walk ps b) = 2 * length ps + (if b then 2 + free_work k else 2 * k + 5)"
| "pc_work d k (Grant p ps b) = 2 * length ps + (if b then 3 + free_work k else 2 * k + 6)"
| "pc_work d k Take = 2 * k + 4"
| "pc_work d k Free = free_work k"
| "pc_work d k (Splice p ps) = 3"
| "pc_work d k (Drop p) = 2"
| "pc_work d k (Sched p) = 1"
| "pc_work d k _ = 0"

definition unlock_work :: "frame_id \<Rightarrow> am \<Rightarrow> nat" where
  "unlock_work t s = pc_work (length (am_drain_head s)) (length (stack_of (am_word s))) (am_pcs s t)"

definition enrols :: "am \<Rightarrow> am \<Rightarrow> nat" where
  "enrols s s' = (if length (stack_of (am_word s)) < length (stack_of (am_word s')) then 1 else 0)"

text \<open>A run during which the frame \<open>t\<close> is in \<^verbatim>\<open>unlock\<close>: its own operations, and the waiters that others add.\<close>

inductive unlock_run :: "frame_id \<Rightarrow> am \<Rightarrow> nat \<Rightarrow> nat \<Rightarrow> am \<Rightarrow> bool" for t s where
  unlock_begin: "unlock_run t s 0 0 s"
| unlock_own: "unlock_run t s n k s1 \<Longrightarrow> in_unlock (am_pcs s1 t) \<Longrightarrow> am_step (Frame t) s1 s2 \<Longrightarrow> unlock_run t s (Suc n) k s2"
| unlock_other: "unlock_run t s n k s1 \<Longrightarrow> in_unlock (am_pcs s1 t) \<Longrightarrow> a \<noteq> Frame t \<Longrightarrow> am_step a s1 s2 \<Longrightarrow> unlock_run t s n (k + enrols s1 s2) s2"

lemma in_unlock_carrying: "in_unlock c \<Longrightarrow> carrying c" "in_unlock c \<Longrightarrow> \<not> at_rest c" "in_unlock c \<Longrightarrow> c \<noteq> Parked p" "in_unlock c \<Longrightarrow> own c = None"
  by (cases c; simp add: in_unlock_def carrying_def)+

lemma own_step_work:
  assumes step: "am_step (Frame t) s s'" and inv: "am_inv s" and u: "in_unlock (am_pcs s t)"
  shows "unlock_work t s' < unlock_work t s"
proof -
  note turn = inv_carrying [OF inv in_unlock_carrying(1) [OF u]]
  note no = no_trap [OF inv]
  show ?thesis
    using step
  proof cases
    case (resume p w r)
    then show ?thesis using inv_frame [OF inv resume(2,4)] turn(3) by simp
  next
    case (free_lost)
    have "am_word s \<noteq> not_locked" "am_drain_head s = []" using inv_turn(1,3) [OF inv] turn free_lost(2) by simp_all
    then show ?thesis using free_lost by (cases "am_word s") (auto simp: unlock_work_def free_work_def)
  next
    case (dangling p)
    then show ?thesis using no(1) by simp
  next
    case (walk_trap p ps b w)
    then show ?thesis using no(3) [of t p ps w] by (simp add: carrying_def)
  next
    case (grant_trap p ps b w)
    then show ?thesis using no(3) [of t p ps w] by (simp add: carrying_def)
  qed (use u in \<open>auto simp: unlock_work_def free_work_def in_unlock_def\<close>)
qed

lemma other_step_work:
  assumes step: "am_step a s s'" and a: "a \<noteq> Frame t" and inv: "am_inv s" and u: "in_unlock (am_pcs s t)"
  shows "am_pcs s' t = am_pcs s t \<and> am_drain_head s' = am_drain_head s \<and> (am_word s' = am_word s \<or> (\<exists>p. am_word s' = locked (p # stack_of (am_word s))))"
proof -
  note turn = inv_carrying [OF inv in_unlock_carrying(1) [OF u]]
  have only: "\<not> carrying (am_pcs s v)" if "v \<noteq> t" for v using inv_carrying(1) [OF inv, of v] turn(1) that by auto
  have word: "am_word s \<noteq> not_locked" using inv_turn(1) [OF inv] turn(1) by simp
  have ser: "\<not> serial s" using in_unlock_carrying(2) [OF u] by (auto simp: serial_def)
  show ?thesis
    using step
  proof cases
    case (resume p w v r)
    then show ?thesis using a by auto
  next
    case (take_residual v)
    then show ?thesis using a only [of v] by (simp add: carrying_def)
  next
    case (splice v p ps)
    then show ?thesis using a only [of v] by (simp add: carrying_def)
  next
    case (take v)
    then show ?thesis using a only [of v] by (simp add: carrying_def)
  next
    case (free v)
    then show ?thesis using a only [of v] by (simp add: carrying_def)
  qed (use a only word ser in \<open>auto simp: carrying_def\<close>)
qed

lemma pushed_work: "pc_work d (Suc k) c \<le> pc_work d k c + 9"
  by (cases c) (simp_all add: free_work_def)

lemma other_work:
  assumes "am_step a s s'" "a \<noteq> Frame t" "am_inv s" "in_unlock (am_pcs s t)"
  shows "unlock_work t s' \<le> unlock_work t s + 9 * enrols s s'"
  using other_step_work [OF assms] pushed_work by (auto simp: unlock_work_def enrols_def)

lemma unlock_run_inv: "unlock_run t s n k s' \<Longrightarrow> am_inv s \<Longrightarrow> am_inv s'"
  by (induction rule: unlock_run.induct) (auto intro: am_inv_step)

lemma unlock_run_work:
  assumes "unlock_run t s n k s'" "am_inv s"
  shows "n + unlock_work t s' \<le> unlock_work t s + 9 * k"
  using assms
proof (induction rule: unlock_run.induct)
  case (unlock_own n k s1 s2)
  then show ?case using own_step_work [OF unlock_own.hyps(3) unlock_run_inv [OF unlock_own.hyps(1) unlock_own.prems] unlock_own.hyps(2)] by simp
next
  case (unlock_other n k s1 a s2)
  then show ?case using other_work [OF unlock_other.hyps(4,3) unlock_run_inv [OF unlock_other.hyps(1) unlock_other.prems] unlock_other.hyps(2)] by simp
qed simp

lemma unlock_work_bound:
  assumes "am_inv s" "in_unlock (am_pcs s t)"
  shows "unlock_work t s \<le> 2 * length (lists s) + 10"
  using inv_carrying(2) [OF assms(1) in_unlock_carrying(1) [OF assms(2)]]
  by (cases "am_pcs s t") (auto simp: unlock_work_def lists_def free_work_def)

lemma unlock_enabled:
  assumes inv: "am_inv s" and u: "in_unlock (am_pcs s t)"
  shows "\<exists>s'. am_step (Frame t) s s'"
proof -
  have c: "carrying (am_pcs s t)" by (rule in_unlock_carrying(1) [OF u])
  have live: "\<exists>w. am_heap s p = Some w" if "p \<in> set (touched (am_word s) (am_pcs s t))" for p using no_trap(1) [OF inv that] by auto
  show ?thesis
  proof (cases "am_pcs s t")
    case Enter
    then show ?thesis using unlock_enter unlock_draining by blast
  next
    case (Walk ps b)
    show ?thesis
    proof (cases ps)
      case (Cons p qs)
      then obtain w where w: "am_heap s p = Some w" using live [of p] Walk by auto
      then show ?thesis using Walk Cons walk_queued walk_cancelled walk_trap by (cases "w_phase w") blast+
    qed (use Walk walk_end in blast)
  next
    case (Grant p ps b)
    then obtain w where w: "am_heap s p = Some w" using live [of p] by auto
    then show ?thesis using Grant grant grant_lost grant_trap by (cases "w_phase w") blast+
  next
    case (Drop p)
    then obtain w where "am_heap s p = Some w" using live [of p] by auto
    then show ?thesis using drop [OF Drop] by blast
  next
    case (Sched p)
    then obtain w where "am_heap s p = Some w" using live [of p] by auto
    then show ?thesis using sched [OF Sched] by blast
  next
    case Free
    then show ?thesis using free free_lost by blast
  next
    case Splitting
    then show ?thesis using take_residual by blast
  next
    case (Splice p ps)
    then show ?thesis using splice by blast
  next
    case Take
    then show ?thesis using take by blast
  qed (use u in \<open>simp_all add: in_unlock_def\<close>)
qed

lemma drain_finishes:
  assumes inv: "am_inv s" and d: "am_draining s" "serial s" "am_turn s = None" "am_resumers s = 0"
  shows "am_complete (drain_pass s)"
proof -
  have "lists s = []" using am_invD(6) [OF inv] d(1) by (simp add: drain_ok_def)
  then have "stack_of (am_word s) = []" "am_drain_head s = []" by (simp_all add: lists_def)
  moreover have "am_holders s = 0" using inv_counts(3) [OF inv] d(3) by (simp add: turn_pc_def)
  ultimately show ?thesis using d(4) by (simp add: drain_pass_def Let_def reap_chain_def)
qed

subsection \<open>Nobody overtakes\<close>

definition ahead :: "frame_id \<Rightarrow> fifo_lock \<Rightarrow> nat" where
  "ahead u l = length (takeWhile (\<lambda>v. v \<noteq> u) (lk_queue l))"

text \<open>A run during which the frame \<open>u\<close> waits, and how often the lock changes hands in it.\<close>

inductive waiting_run :: "frame_id \<Rightarrow> am \<Rightarrow> nat \<Rightarrow> am \<Rightarrow> bool" for u s where
  waiting_begin: "u \<in> set (lk_queue (abs_lock s)) \<Longrightarrow> waiting_run u s 0 s"
| waiting_on: "waiting_run u s n s1 \<Longrightarrow> am_step a s1 s2 \<Longrightarrow> u \<in> set (lk_queue (abs_lock s2)) \<Longrightarrow>
    waiting_run u s (if lk_owner (abs_lock s2) = lk_owner (abs_lock s1) then n else n + 1) s2"

lemma fifo_step_ahead:
  assumes "fifo_step l l'" "distinct (lk_queue l)" "u \<in> set (lk_queue l)" "u \<in> set (lk_queue l')"
  shows "ahead u l' + (if lk_owner l' = lk_owner l then 0 else 1) \<le> ahead u l"
  using assms
proof cases
  case (fifo_withdraw xs t ys)
  then have "u \<noteq> t" using assms(2,4) by auto
  then show ?thesis using fifo_withdraw by (cases "u \<in> set xs") (auto simp: ahead_def takeWhile_append)
next
  case (fifo_wait t)
  then show ?thesis using assms(3) by (auto simp: ahead_def takeWhile_append)
qed (use assms in \<open>auto simp: ahead_def\<close>)

lemma distinct_map_filter:
  assumes "distinct xs" "\<And>x y z. x \<in> set xs \<Longrightarrow> y \<in> set xs \<Longrightarrow> f x = Some z \<Longrightarrow> f y = Some z \<Longrightarrow> x = y"
  shows "distinct (List.map_filter f xs)"
  using assms
proof (induction xs)
  case (Cons x xs)
  have "distinct (List.map_filter f xs)" using Cons.prems by (intro Cons.IH) auto
  moreover have "z \<notin> set (List.map_filter f xs)" if "f x = Some z" for z
    using Cons.prems(1) Cons.prems(2) [of x] that by (force simp: List.map_filter_def)
  ultimately show ?case by (simp add: List.map_filter_simps split: option.splits)
qed (simp add: List.map_filter_simps)

lemma distinct_queue:
  assumes inv: "am_inv s"
  shows "distinct (lk_queue (abs_lock s))"
proof -
  have "p = q" if "waits (am_heap s) p = Some t" "waits (am_heap s) q = Some t" for p q t
    using that inv_frame [OF inv, of p _ t] inv_frame [OF inv, of q _ t] by (auto simp: waits_def split: option.splits if_splits)
  moreover have "distinct (lists s)" using am_invD(3) [OF inv] by (simp add: lists_ok_def)
  ultimately show ?thesis unfolding abs_lock_def by (simp add: distinct_map_filter)
qed

lemma waiting_run_inv: "waiting_run u s n s' \<Longrightarrow> am_inv s \<Longrightarrow> am_inv s' \<and> u \<in> set (lk_queue (abs_lock s'))"
  by (induction rule: waiting_run.induct) (auto intro: am_inv_step)

lemma waiting_run_ahead:
  assumes "waiting_run u s n s'" "am_inv s"
  shows "n + ahead u (abs_lock s') \<le> ahead u (abs_lock s)"
  using assms
proof (induction rule: waiting_run.induct)
  case (waiting_on n s1 a s2)
  note s1 = waiting_run_inv [OF waiting_on.hyps(1) waiting_on.prems]
  have "ahead u (abs_lock s2) + (if lk_owner (abs_lock s2) = lk_owner (abs_lock s1) then 0 else 1) \<le> ahead u (abs_lock s1)"
    using abs_lock_step [OF waiting_on.hyps(2)] fifo_step_ahead [OF _ distinct_queue, of s1 "abs_lock s2" u] s1 waiting_on.hyps(3) by auto
  then show ?case using waiting_on.IH [OF waiting_on.prems] by (auto split: if_splits)
qed simp

subsection \<open>The contract of a lock\<close>

text \<open>At most one actor holds the lock, and a holder keeps it until it acts on the lock itself.\<close>

locale guard_lock =
  fixes reach :: "'s \<Rightarrow> bool" and lock_step :: "'a \<Rightarrow> 's \<Rightarrow> 's \<Rightarrow> bool" and holds :: "'s \<Rightarrow> 'a \<Rightarrow> bool"
  assumes reach_step: "reach s \<Longrightarrow> lock_step a s s' \<Longrightarrow> reach s'"
    and exclusive: "reach s \<Longrightarrow> holds s a \<Longrightarrow> holds s b \<Longrightarrow> a = b"
    and kept: "reach s \<Longrightarrow> lock_step b s s' \<Longrightarrow> holds s a \<Longrightarrow> b \<noteq> a \<Longrightarrow> holds s' a"
begin

text \<open>Steps on the lock interleaved with operations on what it guards, each by a holder.  The log names
  who did what: \<open>Inl\<close> a step on the lock, \<open>Inr\<close> an operation.\<close>

inductive guarded_run :: "('d \<Rightarrow> 'd \<Rightarrow> bool) \<Rightarrow> 's \<times> 'd \<Rightarrow> ('a + 'a) list \<Rightarrow> 's \<times> 'd \<Rightarrow> bool" for op where
  run_none: "guarded_run op c [] c"
| run_lock: "guarded_run op c tr (s, d) \<Longrightarrow> lock_step a s s' \<Longrightarrow> guarded_run op c (tr @ [Inl a]) (s', d)"
| run_op: "guarded_run op c tr (s, d) \<Longrightarrow> holds s a \<Longrightarrow> op d d' \<Longrightarrow> guarded_run op c (tr @ [Inr a]) (s, d')"

lemma run_reach: "guarded_run op c tr c' \<Longrightarrow> reach (fst c) \<Longrightarrow> reach (fst c')"
  by (induction rule: guarded_run.induct) (auto intro: reach_step)

text \<open>Until a holder acts on the lock, nobody else operates on what it guards: its operations are not
  interleaved with those of others.\<close>

lemma section_exclusive:
  assumes "guarded_run op c tr c'" "reach (fst c)" "holds (fst c) a" "Inl a \<notin> set tr"
  shows "holds (fst c') a \<and> (\<forall>b. Inr b \<in> set tr \<longrightarrow> b = a)"
  using assms
proof (induction rule: guarded_run.induct)
  case (run_lock c tr s d b s')
  have "holds s a" "\<forall>b. Inr b \<in> set tr \<longrightarrow> b = a" using run_lock.IH run_lock.prems by auto
  moreover have "reach s" using run_reach [OF run_lock.hyps(1) run_lock.prems(1)] by simp
  moreover have "b \<noteq> a" using run_lock.prems(3) by auto
  ultimately show ?case using kept run_lock.hyps(2) by auto
next
  case (run_op c tr s d b d')
  have h: "holds s a" "\<forall>b. Inr b \<in> set tr \<longrightarrow> b = a" using run_op.IH run_op.prems by auto
  moreover have "reach s" using run_reach [OF run_op.hyps(1) run_op.prems(1)] by simp
  ultimately have "b = a" using exclusive run_op.hyps(2) by blast
  then show ?case using h by auto
qed simp

end

definition am_holds :: "am \<Rightarrow> actor \<Rightarrow> bool" where
  "am_holds s a \<longleftrightarrow> (\<exists>t. a = Frame t \<and> am_pcs s t = Holding)"

lemma holding_kept:
  assumes step: "am_step b s s'" and t: "am_pcs s t = Holding" "b \<noteq> Frame t"
  shows "am_pcs s' t = Holding"
  using step
proof cases
  case drain_call
  then show ?thesis using t(1) drain_pass_same(1) [of "s\<lparr>am_draining := True\<rparr>"] by simp
next
  case drain_again
  then show ?thesis using t(1) drain_pass_same(1) [of s] by simp
qed (use t in auto)

interpretation am_guard: guard_lock am_reachable am_step am_holds
proof unfold_locales
  show "am_reachable s'" if "am_reachable s" "am_step a s s'" for a s s' using that by (rule next_step)
  show "a = b" if r: "am_reachable s" and h: "am_holds s a" "am_holds s b" for s a b
  proof -
    note inv = am_inv_reachable [OF r]
    obtain t u where t: "a = Frame t" "am_pcs s t = Holding" and u: "b = Frame u" "am_pcs s u = Holding"
      using h by (auto simp: am_holds_def)
    have "am_turn s = Some t" "am_turn s = Some u" using inv_carrying(1) [OF inv] t(2) u(2) by (auto simp: carrying_def)
    then show ?thesis using t(1) u(1) by simp
  qed
  show "am_holds s' a" if "am_step b s s'" "am_holds s a" "b \<noteq> a" for a b s s'
    using that holding_kept unfolding am_holds_def by blast
qed

subsection \<open>Properties\<close>

text \<open>C7. The lock-free mutex implements a lock with a first-come, first-served queue. However the calls
  of any number of threads, their cancellations, the posted resumptions and a drain interleave, every
  step of the mutex is a step of that lock (a free lock is taken when nobody waits, a caller joins
  at the back, a waiter withdraws, the lock is handed to the first waiter, or it is given
  up when nobody waits) or changes nothing in it; a frame that holds a guard is the owner, so no two
  frames hold one; and the waiters are exactly the parked callers that are still queued.\<close>

theorem mutex_refines_fifo_lock:
  assumes "am_reachable s" "am_step a s s'"
  shows "(abs_lock s' = abs_lock s \<or> fifo_step (abs_lock s) (abs_lock s')) \<and>
    (\<forall>t. am_pcs s t = Holding \<longrightarrow> lk_owner (abs_lock s) = Some t) \<and>
    (\<forall>t. t \<in> set (lk_queue (abs_lock s)) \<longleftrightarrow> (\<exists>p w. am_pcs s t = Parked p \<and> am_heap s p = Some w \<and> w_phase w = queued))"
proof (intro conjI allI impI)
  note inv = am_inv_reachable [OF assms(1)]
  show "abs_lock s' = abs_lock s \<or> fifo_step (abs_lock s) (abs_lock s')" by (rule abs_lock_step [OF assms(2) inv])
  show "lk_owner (abs_lock s) = Some t" if "am_pcs s t = Holding" for t
    using inv_carrying [OF inv, of t] that by (simp add: abs_lock_def owner_of_def carrying_def)
  show "t \<in> set (lk_queue (abs_lock s)) \<longleftrightarrow> (\<exists>p w. am_pcs s t = Parked p \<and> am_heap s p = Some w \<and> w_phase w = queued)" for t
    by (rule in_queue [OF inv])
qed

definition mutex_taken :: am where
  "mutex_taken = go 0 Holding ((go 0 Acquire am_init)\<lparr>am_word := locked [], am_holders := 1, am_turn := Some 0\<rparr>)"

lemma mutex_taken_reachable: "am_reachable mutex_taken"
proof -
  have "am_step (Frame 0) am_init (go 0 Acquire am_init)" by (rule lock_call) (simp_all add: am_init_def)
  then have a: "am_reachable (go 0 Acquire am_init)" using start next_step by blast
  have "am_step (Frame 0) (go 0 Acquire am_init) mutex_taken"
    using acquire_fast [of "go 0 Acquire am_init" 0] by (simp add: mutex_taken_def am_init_def)
  then show ?thesis using a next_step by blast
qed

theorem mutex_refines_fifo_lock_witness:
  "am_reachable mutex_taken \<and> am_step (Frame 0) mutex_taken (go 0 Enter mutex_taken) \<and> lk_owner (abs_lock mutex_taken) = Some 0"
proof -
  have p: "am_pcs mutex_taken 0 = Holding" by (simp add: mutex_taken_def)
  then have s: "am_step (Frame 0) mutex_taken (go 0 Enter mutex_taken)" by (rule unlock_call)
  then show ?thesis using mutex_refines_fifo_lock [OF mutex_taken_reachable s] mutex_taken_reachable p by blast
qed

text \<open>C8. The waiter records are never touched after they are freed and never leaked. In every reachable
  state no step has used a freed record, found a granted record in a chain or resumed a frame
  twice; the count of every record is exactly the number of its frame, list, initiating call and
  runners that refer to it, and is not 0; and once a drain has completed the destructor's
  conditions hold, every record is freed, no caller is parked and no frame holds the lock.\<close>

theorem mutex_memory_safe:
  assumes "am_reachable s"
  shows "\<not> am_trapped s \<and>
    (\<forall>p w. am_heap s p = Some w \<longrightarrow> 0 < w_refs w \<and>
      w_refs w = refs_due (p \<in> set (lists s)) (dropping (turn_pc s) = Some p) (map_option (am_pcs s) (w_frame w)) w) \<and>
    (am_complete s \<longrightarrow> destroyable s \<and> am_heap s = Map.empty \<and> (\<forall>t p. am_pcs s t \<noteq> Parked p \<and> am_pcs s t \<noteq> Holding))"
proof (intro conjI allI impI)
  note inv = am_inv_reachable [OF assms]
  show "\<not> am_trapped s" by (rule am_invD(7) [OF inv])
  fix p w
  assume "am_heap s p = Some w"
  from inv_rec [OF inv this] show "0 < w_refs w"
    "w_refs w = refs_due (p \<in> set (lists s)) (dropping (turn_pc s) = Some p) (map_option (am_pcs s) (w_frame w)) w"
    by (simp_all add: rec_ok_def rec_over_def rec_good_def)
next
  note inv = am_inv_reachable [OF assms]
  assume "am_complete s"
  then have d: "am_draining s" "am_word s = not_locked" "am_heap s = Map.empty" "am_resumers s = 0" "am_turn s = None" "lists s = []"
    using am_invD(6) [OF inv] by (simp_all add: drain_ok_def)
  then show "destroyable s" by (simp add: destroyable_def lists_def)
  show "am_heap s = Map.empty" by (rule d(3))
  show "am_pcs s t \<noteq> Holding" for t using inv_carrying(1) [OF inv, of t] d(5) by (auto simp: carrying_def)
  show "am_pcs s t \<noteq> Parked p" for t p using inv_own [OF inv, of t p] d(3) by auto
qed

theorem mutex_memory_safe_witness: "\<exists>s. am_reachable s \<and> am_complete s \<and> destroyable s"
proof -
  let ?s = "drain_pass (am_init\<lparr>am_draining := True\<rparr>)"
  have "am_step Drainer am_init ?s" by (rule drain_call) (simp_all add: serial_def am_init_def)
  then have r: "am_reachable ?s" using start next_step by blast
  have "am_complete ?s" by (simp add: drain_pass_def reap_chain_def am_init_def Let_def)
  then show ?thesis using mutex_memory_safe [OF r] r by blast
qed

text \<open>C9. The mutex makes progress. Whatever the other threads do meanwhile, a call of \<^verbatim>\<open>unlock\<close> always has a
  next operation and returns within a number of its own operations that is linear in the waiters it
  finds and those that join while it runs; a waiter is never overtaken: while it waits, the lock
  changes hands at most once for every waiter in front of it; and a pass of the drain completes it
  as soon as no frame holds the lock and no resumption is pending.\<close>

theorem mutex_progress:
  assumes "am_reachable s"
  shows "(\<forall>t n k s'. in_unlock (am_pcs s t) \<longrightarrow> unlock_run t s n k s' \<longrightarrow>
      n \<le> 2 * length (lists s) + 10 + 9 * k \<and> (in_unlock (am_pcs s' t) \<longrightarrow> (\<exists>s''. am_step (Frame t) s' s''))) \<and>
    (\<forall>u n s'. waiting_run u s n s' \<longrightarrow> n \<le> ahead u (abs_lock s)) \<and>
    (am_draining s \<longrightarrow> serial s \<longrightarrow> am_turn s = None \<longrightarrow> am_resumers s = 0 \<longrightarrow> am_complete (drain_pass s))"
proof (intro conjI allI impI)
  note inv = am_inv_reachable [OF assms]
  fix t n k s'
  assume u: "in_unlock (am_pcs s t)" and run: "unlock_run t s n k s'"
  show "n \<le> 2 * length (lists s) + 10 + 9 * k" using unlock_run_work [OF run inv] unlock_work_bound [OF inv u] by simp
  show "\<exists>s''. am_step (Frame t) s' s''" if "in_unlock (am_pcs s' t)" by (rule unlock_enabled [OF unlock_run_inv [OF run inv] that])
next
  note inv = am_inv_reachable [OF assms]
  show "n \<le> ahead u (abs_lock s)" if "waiting_run u s n s'" for u n s' using waiting_run_ahead [OF that inv] by simp
  show "am_complete (drain_pass s)" if "am_draining s" "serial s" "am_turn s = None" "am_resumers s = 0" by (rule drain_finishes [OF inv that])
qed

theorem mutex_progress_witness: "\<exists>s s'. am_reachable s \<and> in_unlock (am_pcs s 0) \<and> am_step (Frame 0) s s'"
proof -
  let ?s = "go 0 Enter mutex_taken"
  have "am_pcs mutex_taken 0 = Holding" by (simp add: mutex_taken_def)
  then have r: "am_reachable ?s" using mutex_taken_reachable unlock_call next_step by blast
  have u: "in_unlock (am_pcs ?s 0)" by (simp add: in_unlock_def)
  then have "\<exists>s'. am_step (Frame 0) ?s s'" using mutex_progress [OF r] unlock_begin by blast
  then show ?thesis using r u by blast
qed

end
