(* ===== verification/Fixpp_WaiterPool.thy ===== *)
theory Fixpp_WaiterPool
  imports Fixpp_Prelude "HOL-Library.Word"
begin

text \<open>
  The pool of waiter records of the asynchronous mutex
  (\<^verbatim>\<open>include/fixpp/core/sync/async_mutex.hpp\<close>): a free list whose head carries a generation, and a
  bump allocator behind it, at the granularity of their atomic operations.  Threads take slots (the
  allocation in \<^verbatim>\<open>lock_op_\<close>) and return them (the last \<^verbatim>\<open>release_ref\<close>).
\<close>

unbundle bit_operations_syntax

subsection \<open>The packed head\<close>

definition free_list_empty_index :: nat where "free_list_empty_index = 0x3FF"

definition waiter_pool_capacity :: nat where "waiter_pool_capacity = 512"

record free_list_head =
  fl_generation :: "64 word"
  fl_slot_index :: nat

definition pack_free_list_head :: "64 word \<Rightarrow> nat \<Rightarrow> 64 word" where
  "pack_free_list_head g i = push_bit 10 g OR (word_of_nat i AND 0x3FF)"

definition unpack_free_list_head :: "64 word \<Rightarrow> free_list_head" where
  "unpack_free_list_head packed = \<lparr>fl_generation = drop_bit 10 packed, fl_slot_index = unat (packed AND 0x3FF)\<rparr>"

lemma low_mask: "(0x3FF :: 64 word) = mask 10"
  by (simp add: mask_eq_exp_minus_1)

lemma unpack_pack:
  assumes "i < 1024"
  shows "fl_slot_index (unpack_free_list_head (pack_free_list_head g i)) = i"
    and "fl_generation (unpack_free_list_head (pack_free_list_head g i)) = take_bit 54 g"
proof -
  have low: "pack_free_list_head g i AND 0x3FF = take_bit 10 (word_of_nat i)"
    unfolding pack_free_list_head_def low_mask by (simp flip: take_bit_eq_mask add: take_bit_push_bit)
  have "unat (take_bit 10 (word_of_nat i) :: 64 word) = i"
    using assms by (simp add: unsigned_take_bit_eq unsigned_of_nat take_bit_nat_eq_self)
  then show "fl_slot_index (unpack_free_list_head (pack_free_list_head g i)) = i" by (simp add: unpack_free_list_head_def low)
  have "drop_bit 10 (push_bit 10 g :: 64 word) = take_bit 54 g" by (rule bit_word_eqI) (auto simp: bit_simps)
  moreover have "drop_bit 10 (word_of_nat i AND 0x3FF :: 64 word) = 0"
    unfolding low_mask by (rule bit_word_eqI) (auto simp: bit_simps)
  ultimately show "fl_generation (unpack_free_list_head (pack_free_list_head g i)) = take_bit 54 g"
    by (simp add: unpack_free_list_head_def pack_free_list_head_def)
qed

lemma push_take: "push_bit 10 (take_bit 54 g :: 64 word) = push_bit 10 g"
  by (rule bit_word_eqI) (auto simp: bit_simps)

lemma pack_next: "pack_free_list_head (take_bit 54 g + 1) i = pack_free_list_head (g + 1) i"
proof -
  have "push_bit 10 (x + 1) = push_bit 10 x + (2 ^ 10 :: 64 word)" for x :: "64 word"
    by (simp add: push_bit_eq_mult distrib_right)
  then show ?thesis using push_take [of g] by (simp add: pack_free_list_head_def)
qed

lemma pack_same: "pack_free_list_head (take_bit 54 g) i = pack_free_list_head g i"
  by (simp add: pack_free_list_head_def push_take)

lemma pack_eqD:
  assumes "pack_free_list_head (word_of_nat m) i = pack_free_list_head (word_of_nat n) j" "i < 1024" "j < 1024"
  shows "i = j" "m mod 2 ^ 54 = n mod 2 ^ 54"
proof -
  show "i = j" using unpack_pack(1) [OF assms(2)] unpack_pack(1) [OF assms(3)] assms(1) by metis
  have "take_bit 54 (word_of_nat m :: 64 word) = take_bit 54 (word_of_nat n)"
    using unpack_pack(2) [OF assms(2)] unpack_pack(2) [OF assms(3)] assms(1) by metis
  then have "unat (take_bit 54 (word_of_nat m :: 64 word)) = unat (take_bit 54 (word_of_nat n :: 64 word))" by simp
  then show "m mod 2 ^ 54 = n mod 2 ^ 54"
    by (simp only: unsigned_take_bit_eq unsigned_of_nat take_bit_take_bit) (simp add: take_bit_eq_mod mod_mod_cancel)
qed

subsection \<open>The pool and its steps\<close>

text \<open>The last number of a pop in progress is not in the code: how many pops had succeeded when the head
  was loaded.  \<open>pl_live\<close> and \<open>pl_pops\<close> are not in the code either: the slots that are handed out, and
  how many pops have succeeded.\<close>

datatype pool_pc =
    No_call
  | Pop_link "64 word" nat
  | Pop_cas "64 word" nat nat
  | Bump_load
  | Bump_cas nat
  | Push_link nat "64 word"
  | Push_cas nat "64 word"

record pool =
  pl_head :: "64 word"
  pl_link :: "nat \<Rightarrow> nat"
  pl_next :: nat
  pl_pcs :: "nat \<Rightarrow> pool_pc"
  pl_live :: "nat set"
  pl_pops :: nat

definition pool_init :: pool where
  "pool_init = \<lparr>pl_head = pack_free_list_head 0 free_list_empty_index, pl_link = (\<lambda>_. 0), pl_next = 0, pl_pcs = (\<lambda>_. No_call), pl_live = {}, pl_pops = 0\<rparr>"

definition head_seen :: "pool \<Rightarrow> pool_pc" where
  "head_seen s =
     (if fl_slot_index (unpack_free_list_head (pl_head s)) = free_list_empty_index then Bump_load else Pop_link (pl_head s) (pl_pops s))"

definition at_pc :: "nat \<Rightarrow> pool_pc \<Rightarrow> pool \<Rightarrow> pool" where
  "at_pc t c s = s\<lparr>pl_pcs := (pl_pcs s)(t := c)\<rparr>"

text \<open>The label of a step is the slot it hands out.\<close>

inductive pool_step :: "nat \<Rightarrow> nat option \<Rightarrow> pool \<Rightarrow> pool \<Rightarrow> bool" where
  pop_call: "pl_pcs s t = No_call \<Longrightarrow> pool_step t None s (at_pc t (head_seen s) s)"
| pop_link: "pl_pcs s t = Pop_link h m \<Longrightarrow>
    pool_step t None s (at_pc t (Pop_cas h (pl_link s (fl_slot_index (unpack_free_list_head h))) m) s)"
| pop_cas: "pl_pcs s t = Pop_cas h n m \<Longrightarrow> pl_head s = h \<Longrightarrow> i = fl_slot_index (unpack_free_list_head h) \<Longrightarrow>
    pool_step t (Some i) s (at_pc t No_call (s\<lparr>pl_head := pack_free_list_head (fl_generation (unpack_free_list_head h) + 1) n,
      pl_live := insert i (pl_live s), pl_pops := pl_pops s + 1\<rparr>))"
| pop_again: "pl_pcs s t = Pop_cas h n m \<Longrightarrow> pool_step t None s (at_pc t (head_seen s) s)"
| bump_full: "pl_pcs s t = Bump_load \<Longrightarrow> pl_next s \<ge> waiter_pool_capacity \<Longrightarrow> pool_step t None s (at_pc t No_call s)"
| bump_load: "pl_pcs s t = Bump_load \<Longrightarrow> pl_next s < waiter_pool_capacity \<Longrightarrow> pool_step t None s (at_pc t (Bump_cas (pl_next s)) s)"
| bump_cas: "pl_pcs s t = Bump_cas i \<Longrightarrow> pl_next s = i \<Longrightarrow>
    pool_step t (Some i) s (at_pc t No_call (s\<lparr>pl_next := u32 (i + 1), pl_live := insert i (pl_live s)\<rparr>))"
| bump_again: "pl_pcs s t = Bump_cas i \<Longrightarrow> pool_step t None s (at_pc t Bump_load s)"
| push_call: "pl_pcs s t = No_call \<Longrightarrow> i \<in> pl_live s \<Longrightarrow>
    pool_step t None s (at_pc t (Push_link i (pl_head s)) (s\<lparr>pl_live := pl_live s - {i}\<rparr>))"
| push_link: "pl_pcs s t = Push_link i h \<Longrightarrow>
    pool_step t None s (at_pc t (Push_cas i h) (s\<lparr>pl_link := (pl_link s)(i := fl_slot_index (unpack_free_list_head h))\<rparr>))"
| push_cas: "pl_pcs s t = Push_cas i h \<Longrightarrow> pl_head s = h \<Longrightarrow>
    pool_step t None s (at_pc t No_call (s\<lparr>pl_head := pack_free_list_head (fl_generation (unpack_free_list_head h)) i\<rparr>))"
| push_again: "pl_pcs s t = Push_cas i h \<Longrightarrow> pool_step t None s (at_pc t (Push_link i (pl_head s)) s)"

text \<open>No pop in progress has seen \<open>2 ^ 54\<close> other pops succeed since it loaded the head.\<close>

fun since :: "pool_pc \<Rightarrow> nat option" where
  "since (Pop_link h m) = Some m"
| "since (Pop_cas h n m) = Some m"
| "since _ = None"

definition no_lap :: "pool \<Rightarrow> bool" where
  "no_lap s \<longleftrightarrow> (\<forall>t m. since (pl_pcs s t) = Some m \<longrightarrow> pl_pops s - m < 2 ^ 54)"

inductive pool_reachable :: "pool \<Rightarrow> bool" where
  pool_start: "pool_reachable pool_init"
| pool_next: "pool_reachable s \<Longrightarrow> no_lap s \<Longrightarrow> pool_step t l s s' \<Longrightarrow> pool_reachable s'"

subsection \<open>Invariant\<close>

fun chain :: "(nat \<Rightarrow> nat) \<Rightarrow> nat \<Rightarrow> nat list \<Rightarrow> bool" where
  "chain link h [] \<longleftrightarrow> h = free_list_empty_index"
| "chain link h (i # is) \<longleftrightarrow> h = i \<and> chain link (link i) is"

fun returning :: "pool_pc \<Rightarrow> nat option" where
  "returning (Push_link i h) = Some i"
| "returning (Push_cas i h) = Some i"
| "returning _ = None"

text \<open>What the program point of a thread knows, where \<open>free\<close> is the free list.\<close>

fun pc_ok :: "nat list \<Rightarrow> pool \<Rightarrow> pool_pc \<Rightarrow> bool" where
  "pc_ok free s (Pop_link h m) \<longleftrightarrow> m \<le> pl_pops s \<and>
     (\<exists>i < waiter_pool_capacity. h = pack_free_list_head (word_of_nat m) i \<and> (m = pl_pops s \<longrightarrow> i \<in> set free))"
| "pc_ok free s (Pop_cas h n m) \<longleftrightarrow> m \<le> pl_pops s \<and>
     (\<exists>i < waiter_pool_capacity. h = pack_free_list_head (word_of_nat m) i \<and> (m = pl_pops s \<longrightarrow> i \<in> set free \<and> pl_link s i = n))"
| "pc_ok free s (Bump_cas i) \<longleftrightarrow> i < waiter_pool_capacity"
| "pc_ok free s (Push_cas i h) \<longleftrightarrow> pl_link s i = fl_slot_index (unpack_free_list_head h)"
| "pc_ok free s _ \<longleftrightarrow> True"

definition pool_inv :: "nat list \<Rightarrow> pool \<Rightarrow> bool" where
  "pool_inv free s \<longleftrightarrow>
     (\<exists>h. pl_head s = pack_free_list_head (word_of_nat (pl_pops s)) h \<and> chain (pl_link s) h free) \<and>
     distinct free \<and> set free \<inter> pl_live s = {} \<and> pl_next s \<le> waiter_pool_capacity \<and>
     {..<pl_next s} = set free \<union> pl_live s \<union> {i. \<exists>t. returning (pl_pcs s t) = Some i} \<and>
     (\<forall>t i. returning (pl_pcs s t) = Some i \<longrightarrow> i \<notin> set free \<and> i \<notin> pl_live s) \<and>
     (\<forall>t u i. returning (pl_pcs s t) = Some i \<longrightarrow> returning (pl_pcs s u) = Some i \<longrightarrow> t = u) \<and>
     (\<forall>t. pc_ok free s (pl_pcs s t))"

lemma at_pc_simps [simp]:
  "pl_head (at_pc t c s) = pl_head s" "pl_link (at_pc t c s) = pl_link s" "pl_next (at_pc t c s) = pl_next s" "pl_live (at_pc t c s) = pl_live s"
  "pl_pops (at_pc t c s) = pl_pops s" "pl_pcs (at_pc t c s) = (pl_pcs s)(t := c)"
  by (simp_all add: at_pc_def)

lemma pc_ok_cong:
  "pl_pops s' = pl_pops s \<Longrightarrow> (\<And>i. returning c = Some i \<or> i \<in> set free \<Longrightarrow> pl_link s' i = pl_link s i) \<Longrightarrow> set free \<subseteq> set free' \<Longrightarrow> pc_ok free s c \<Longrightarrow> pc_ok free' s' c"
  by (cases c) auto

lemma pc_ok_popped: "pc_ok free s c \<Longrightarrow> pl_pops s' = pl_pops s + 1 \<Longrightarrow> pl_link s' = pl_link s \<Longrightarrow> pc_ok free' s' c"
  by (cases c) auto

lemma chain_link: "chain link h free \<Longrightarrow> i \<notin> set free \<Longrightarrow> chain (link(i := x)) h free"
  by (induction free arbitrary: h) auto

lemma chain_head: "chain link h free \<Longrightarrow> h = (case free of [] \<Rightarrow> free_list_empty_index | i # _ \<Rightarrow> i)"
  by (cases free) auto

lemma pool_init_inv: "pool_inv [] pool_init"
  by (simp add: pool_inv_def pool_init_def)

text \<open>Only the program point of one thread changes.\<close>

lemma thread_moves:
  assumes "pool_inv free s" "returning c = returning (pl_pcs s t)" "pc_ok free s c"
  shows "pool_inv free (at_pc t c s)"
proof -
  have r: "returning (pl_pcs (at_pc t c s) u) = returning (pl_pcs s u)" for u using assms(2) by simp
  have "pc_ok free (at_pc t c s) (pl_pcs (at_pc t c s) u)" for u
    using assms(1,3) by (intro pc_ok_cong [of "at_pc t c s" s]) (auto simp: pool_inv_def)
  then show ?thesis using assms(1) unfolding pool_inv_def r by simp
qed

lemma inv_head:
  assumes "pool_inv free s"
  obtains h where "pl_head s = pack_free_list_head (word_of_nat (pl_pops s)) h" "chain (pl_link s) h free" "h < 1024"
    "h = (case free of [] \<Rightarrow> free_list_empty_index | i # _ \<Rightarrow> i)"
    "fl_slot_index (unpack_free_list_head (pl_head s)) = h" "fl_generation (unpack_free_list_head (pl_head s)) = take_bit 54 (word_of_nat (pl_pops s))"
proof -
  obtain h where h: "pl_head s = pack_free_list_head (word_of_nat (pl_pops s)) h" "chain (pl_link s) h free"
    using assms by (auto simp: pool_inv_def)
  have "set free \<subseteq> {..<pl_next s}" "pl_next s \<le> waiter_pool_capacity" using assms by (auto simp: pool_inv_def)
  then have "h < 1024" using chain_head [OF h(2)] by (cases free) (auto simp: free_list_empty_index_def waiter_pool_capacity_def)
  then show thesis using that h chain_head [OF h(2)] unpack_pack [of h] by simp
qed

lemma free_bound: "pool_inv free s \<Longrightarrow> i \<in> set free \<Longrightarrow> i < waiter_pool_capacity"
proof -
  assume inv: "pool_inv free s" and "i \<in> set free"
  then have "i \<in> {..<pl_next s}" unfolding pool_inv_def by blast
  then show ?thesis using inv by (simp add: pool_inv_def)
qed

lemma head_seen_ok:
  assumes "pool_inv free s"
  shows "pc_ok free s (head_seen s)" "returning (head_seen s) = None"
proof -
  from inv_head [OF assms] obtain h where h: "pl_head s = pack_free_list_head (word_of_nat (pl_pops s)) h"
    "h = (case free of [] \<Rightarrow> free_list_empty_index | i # _ \<Rightarrow> i)" "fl_slot_index (unpack_free_list_head (pl_head s)) = h" .
  show "pc_ok free s (head_seen s)"
    using h free_bound [OF assms, of h] by (cases free) (auto simp: head_seen_def)
  show "returning (head_seen s) = None" by (simp add: head_seen_def)
qed

lemma pool_invD:
  assumes "pool_inv free s"
  shows "distinct free" "set free \<inter> pl_live s = {}" "pl_next s \<le> waiter_pool_capacity"
    "{..<pl_next s} = set free \<union> pl_live s \<union> {i. \<exists>t. returning (pl_pcs s t) = Some i}"
    "returning (pl_pcs s t) = Some i \<Longrightarrow> i \<notin> set free \<and> i \<notin> pl_live s"
    "returning (pl_pcs s t) = Some i \<Longrightarrow> returning (pl_pcs s u) = Some i \<Longrightarrow> t = u" "pc_ok free s (pl_pcs s t)"
  using assms unfolding pool_inv_def by simp_all

lemma pool_invI:
  assumes "pl_head s = pack_free_list_head (word_of_nat (pl_pops s)) h" "chain (pl_link s) h free" "distinct free" "set free \<inter> pl_live s = {}"
    "pl_next s \<le> waiter_pool_capacity" "{..<pl_next s} = set free \<union> pl_live s \<union> {i. \<exists>t. returning (pl_pcs s t) = Some i}"
    "\<And>t i. returning (pl_pcs s t) = Some i \<Longrightarrow> i \<notin> set free \<and> i \<notin> pl_live s"
    "\<And>t u i. returning (pl_pcs s t) = Some i \<Longrightarrow> returning (pl_pcs s u) = Some i \<Longrightarrow> t = u" "\<And>t. pc_ok free s (pl_pcs s t)"
  shows "pool_inv free s"
  using assms unfolding pool_inv_def by blast

lemma same_returning: "returning c = returning (f t) \<Longrightarrow> returning ((f(t := c)) u) = returning (f u)"
  by simp

text \<open>A pop takes the first free slot: the generation shows that no other pop came between.\<close>

lemma pop_cas_inv:
  assumes inv: "pool_inv free s" and lap: "no_lap s" and t: "pl_pcs s t = Pop_cas h n m" "pl_head s = h" and i: "i = fl_slot_index (unpack_free_list_head h)"
  shows "\<exists>free'. free = i # free' \<and> pool_inv free' (at_pc t No_call (s\<lparr>pl_head := pack_free_list_head (fl_generation (unpack_free_list_head h) + 1) n,
      pl_live := insert i (pl_live s), pl_pops := pl_pops s + 1\<rparr>))"
proof -
  from inv_head [OF inv] obtain hh where hh: "pl_head s = pack_free_list_head (word_of_nat (pl_pops s)) hh" "chain (pl_link s) hh free" "hh < 1024"
    "fl_slot_index (unpack_free_list_head (pl_head s)) = hh" "fl_generation (unpack_free_list_head (pl_head s)) = take_bit 54 (word_of_nat (pl_pops s))" .
  obtain j where j: "m \<le> pl_pops s" "j < waiter_pool_capacity" "h = pack_free_list_head (word_of_nat m) j" "m = pl_pops s \<longrightarrow> j \<in> set free \<and> pl_link s j = n"
    using pool_invD(7) [OF inv, of t] t(1) by auto
  have "j < 1024" using j(2) by (simp add: waiter_pool_capacity_def)
  from pack_eqD [OF _ this hh(3), of m "pl_pops s"] have eq: "j = hh" "m mod 2 ^ 54 = pl_pops s mod 2 ^ 54" using j(3) hh(1) t(2) by auto
  have "pl_pops s - m < 2 ^ 54" using lap t(1) unfolding no_lap_def by (metis since.simps(2))
  moreover have "2 ^ 54 dvd pl_pops s - m" using eq(2) j(1) by (metis mod_eq_dvd_iff_nat)
  ultimately have m: "m = pl_pops s" using j(1) by (metis dvd_imp_le le_antisym not_le zero_less_diff)
  then obtain free' where f: "free = j # free'" using j(4) hh(2) eq(1) by (cases free) auto
  have ij: "i = j" using i hh(4) t(2) eq(1) by simp
  let ?s = "at_pc t No_call (s\<lparr>pl_head := pack_free_list_head (fl_generation (unpack_free_list_head h) + 1) n, pl_live := insert i (pl_live s), pl_pops := pl_pops s + 1\<rparr>)"
  have r: "returning (pl_pcs ?s u) = returning (pl_pcs s u)" for u using t(1) by simp
  have "pool_inv free' ?s"
  proof (rule pool_invI)
    show "pl_head ?s = pack_free_list_head (word_of_nat (pl_pops ?s)) n" using hh(5) t(2) pack_next [of "word_of_nat (pl_pops s)" n] by (simp add: add.commute)
    show "chain (pl_link ?s) n free'" using hh(2) f eq(1) j(4) m by simp
    show "{..<pl_next ?s} = set free' \<union> pl_live ?s \<union> {i. \<exists>t. returning (pl_pcs ?s t) = Some i}" unfolding r using pool_invD(4) [OF inv] f ij by auto
    show "pc_ok free' ?s (pl_pcs ?s u)" for u using pc_ok_popped [OF pool_invD(7) [OF inv, of u], of ?s free'] by simp
  qed (unfold r, use pool_invD [OF inv] f ij in auto)
  then show ?thesis using f ij by blast
qed

lemma bump_cas_inv:
  assumes inv: "pool_inv free s" and t: "pl_pcs s t = Bump_cas i" "pl_next s = i"
  shows "pool_inv free (at_pc t No_call (s\<lparr>pl_next := u32 (i + 1), pl_live := insert i (pl_live s)\<rparr>))" (is "pool_inv free ?s")
proof -
  from inv_head [OF inv] obtain h where h: "pl_head s = pack_free_list_head (word_of_nat (pl_pops s)) h" "chain (pl_link s) h free" .
  have i: "i < waiter_pool_capacity" using pool_invD(7) [OF inv, of t] t(1) by simp
  then have u: "u32 (i + 1) = i + 1" by (simp add: waiter_pool_capacity_def)
  have r: "returning (pl_pcs ?s u) = returning (pl_pcs s u)" for u using t(1) by simp
  have new: "j < i" if "j \<in> set free \<or> j \<in> pl_live s \<or> returning (pl_pcs s v) = Some j" for j v using pool_invD(4) [OF inv] that t(2) by blast
  show ?thesis
  proof (rule pool_invI)
    show "pl_head ?s = pack_free_list_head (word_of_nat (pl_pops ?s)) h" "chain (pl_link ?s) h free" using h by simp_all
    show "{..<pl_next ?s} = set free \<union> pl_live ?s \<union> {i. \<exists>t. returning (pl_pcs ?s t) = Some i}"
      unfolding r using pool_invD(4) [OF inv] t(2) u lessThan_Suc [of i] by auto
    show "pc_ok free ?s (pl_pcs ?s v)" for v using pc_ok_cong [OF _ _ subset_refl pool_invD(7) [OF inv, of v], of ?s] by (cases "v = t") simp_all
    show "pl_next ?s \<le> waiter_pool_capacity" using i u by simp
    show "set free \<inter> pl_live ?s = {}" using pool_invD(2) [OF inv] new by auto
    show "j \<notin> set free \<and> j \<notin> pl_live ?s" if "returning (pl_pcs ?s v) = Some j" for v j
      using pool_invD(5) [OF inv] new [of j v] that unfolding r by auto
  qed (unfold r, use pool_invD [OF inv] in auto)
qed

lemma push_call_inv:
  assumes inv: "pool_inv free s" and t: "pl_pcs s t = No_call" "i \<in> pl_live s"
  shows "pool_inv free (at_pc t (Push_link i (pl_head s)) (s\<lparr>pl_live := pl_live s - {i}\<rparr>))" (is "pool_inv free ?s")
proof -
  from inv_head [OF inv] obtain h where h: "pl_head s = pack_free_list_head (word_of_nat (pl_pops s)) h" "chain (pl_link s) h free" .
  have r: "returning (pl_pcs ?s u) = (if u = t then Some i else returning (pl_pcs s u))" for u by simp
  have "{j. \<exists>u. returning (pl_pcs ?s u) = Some j} = insert i {j. \<exists>u. returning (pl_pcs s u) = Some j}" unfolding r using t(1) by (auto split: if_splits) (metis option.distinct(1) returning.simps(3))
  then show ?thesis
  proof (intro pool_invI)
    show "pc_ok free ?s (pl_pcs ?s v)" for v using pool_invD(7) [OF inv, of v] by (cases "v = t") (auto intro: pc_ok_cong [of ?s s])
  qed (use h pool_invD [OF inv] t in \<open>auto split: if_splits\<close>)
qed

lemma push_link_inv:
  assumes inv: "pool_inv free s" and t: "pl_pcs s t = Push_link i h"
  shows "pool_inv free (at_pc t (Push_cas i h) (s\<lparr>pl_link := (pl_link s)(i := fl_slot_index (unpack_free_list_head h))\<rparr>))" (is "pool_inv free ?s")
proof -
  from inv_head [OF inv] obtain hh where hh: "pl_head s = pack_free_list_head (word_of_nat (pl_pops s)) hh" "chain (pl_link s) hh free" .
  have r: "returning (pl_pcs ?s u) = returning (pl_pcs s u)" for u using t by simp
  have i: "i \<notin> set free" using pool_invD(5) [OF inv, of t i] t by simp
  show ?thesis
  proof (rule pool_invI)
    show "chain (pl_link ?s) hh free" using chain_link [OF hh(2) i] by simp
    show "pc_ok free ?s (pl_pcs ?s v)" for v
    proof (cases "v = t")
      case False
      then have "returning (pl_pcs s v) \<noteq> Some i" using pool_invD(6) [OF inv, of v i t] t by auto
      then show ?thesis using False i pool_invD(7) [OF inv, of v] by (intro pc_ok_cong [of ?s s _ free]) auto
    qed simp
  qed (unfold r, use hh pool_invD [OF inv] in auto)
qed

lemma push_cas_inv:
  assumes inv: "pool_inv free s" and t: "pl_pcs s t = Push_cas i h" "pl_head s = h"
  shows "pool_inv (i # free) (at_pc t No_call (s\<lparr>pl_head := pack_free_list_head (fl_generation (unpack_free_list_head h)) i\<rparr>))" (is "pool_inv _ ?s")
proof -
  from inv_head [OF inv] obtain hh where hh: "chain (pl_link s) hh free" "fl_slot_index (unpack_free_list_head (pl_head s)) = hh"
    "fl_generation (unpack_free_list_head (pl_head s)) = take_bit 54 (word_of_nat (pl_pops s))" .
  have link: "pl_link s i = hh" using pool_invD(7) [OF inv, of t] t hh(2) by simp
  have i: "i \<notin> set free" "i \<notin> pl_live s" using pool_invD(5) [OF inv, of t i] t by simp_all
  have r: "returning (pl_pcs ?s u) = (if u = t then None else returning (pl_pcs s u))" for u by simp
  have only: "returning (pl_pcs s u) \<noteq> Some i" if "u \<noteq> t" for u using pool_invD(6) [OF inv, of u i t] t that by auto
  have R: "insert i {j. \<exists>u. returning (pl_pcs ?s u) = Some j} = {j. \<exists>u. returning (pl_pcs s u) = Some j}"
  proof (intro set_eqI iffI)
    fix j
    show "j \<in> {j. \<exists>u. returning (pl_pcs s u) = Some j}" if "j \<in> insert i {j. \<exists>u. returning (pl_pcs ?s u) = Some j}"
    proof (cases "j = i")
      case True
      have "returning (pl_pcs s t) = Some i" using t(1) by simp
      then show ?thesis using True by blast
    qed (use that in \<open>auto simp: r split: if_splits\<close>)
    assume "j \<in> {j. \<exists>u. returning (pl_pcs s u) = Some j}"
    then obtain u where u: "returning (pl_pcs s u) = Some j" by blast
    show "j \<in> insert i {j. \<exists>u. returning (pl_pcs ?s u) = Some j}"
      using u t(1) r by (cases "u = t") auto
  qed
  have slots: "{..<pl_next s} = set (i # free) \<union> pl_live s \<union> {j. \<exists>u. returning (pl_pcs ?s u) = Some j}"
    unfolding pool_invD(4) [OF inv] R [symmetric] by (simp only: list.set Un_insert_left Un_insert_right)
  show ?thesis
  proof (rule pool_invI)
    show "pl_head ?s = pack_free_list_head (word_of_nat (pl_pops ?s)) i" using hh(3) t(2) by (simp add: pack_same)
    show "chain (pl_link ?s) i (i # free)" using hh(1) link by simp
    show "{..<pl_next ?s} = set (i # free) \<union> pl_live ?s \<union> {j. \<exists>u. returning (pl_pcs ?s u) = Some j}" using slots by simp
    show "pc_ok (i # free) ?s (pl_pcs ?s v)" for v using pool_invD(7) [OF inv, of v] by (cases "v = t") (auto intro: pc_ok_cong [of ?s s])
    show "j \<notin> set (i # free) \<and> j \<notin> pl_live ?s" if "returning (pl_pcs ?s v) = Some j" for v j
      using that pool_invD(5) [OF inv, of v j] only [of v] unfolding r by (auto split: if_splits)
    show "u = v" if "returning (pl_pcs ?s u) = Some j" "returning (pl_pcs ?s v) = Some j" for u v j
      using that pool_invD(6) [OF inv, of u j v] unfolding r by (auto split: if_splits)
  qed (use pool_invD [OF inv] i in auto)
qed

lemma pool_inv_step:
  assumes step: "pool_step t l s s'" and inv: "pool_inv free s" and lap: "no_lap s"
  shows "(\<exists>free'. pool_inv free' s') \<and> (\<forall>i. l = Some i \<longrightarrow> i < waiter_pool_capacity \<and> i \<notin> pl_live s \<and> (\<forall>u. returning (pl_pcs s u) \<noteq> Some i))"
  using step
proof cases
  case (pop_cas h n m i)
  from pop_cas_inv [OF inv lap pop_cas(3-5)] obtain free' where f: "free = i # free'" "pool_inv free' s'" unfolding pop_cas(2) by blast
  then show ?thesis using pop_cas(1) free_bound [OF inv, of i] pool_invD(2,5) [OF inv] by fastforce
next
  case (bump_cas i)
  have "i \<notin> {..<pl_next s}" using bump_cas(4) by simp
  then have "i \<notin> pl_live s" "\<forall>u. returning (pl_pcs s u) \<noteq> Some i" unfolding pool_invD(4) [OF inv] by auto
  moreover have "i < waiter_pool_capacity" using pool_invD(7) [OF inv, of t] bump_cas(3) by simp
  ultimately show ?thesis using bump_cas_inv [OF inv bump_cas(3,4)] bump_cas(1,2) by blast
next
  case pop_call
  then show ?thesis using thread_moves [OF inv, of "head_seen s" t] head_seen_ok [OF inv] by auto
next
  case (pop_link h m)
  then obtain i where i: "m \<le> pl_pops s" "i < waiter_pool_capacity" "h = pack_free_list_head (word_of_nat m) i" "m = pl_pops s \<longrightarrow> i \<in> set free"
    using pool_invD(7) [OF inv, of t] by auto
  then have x: "fl_slot_index (unpack_free_list_head h) = i" using unpack_pack(1) [of i] by (simp add: waiter_pool_capacity_def)
  have "pc_ok free s (Pop_cas h (pl_link s i) m)" using i by auto
  then show ?thesis using thread_moves [OF inv, of "Pop_cas h (pl_link s i) m" t] pop_link x by auto
next
  case (pop_again h n m)
  then show ?thesis using thread_moves [OF inv, of "head_seen s" t] head_seen_ok [OF inv] by auto
next
  case bump_full
  then show ?thesis using thread_moves [OF inv, of No_call t] by auto
next
  case bump_load
  then show ?thesis using thread_moves [OF inv, of "Bump_cas (pl_next s)" t] by auto
next
  case (bump_again i)
  then show ?thesis using thread_moves [OF inv, of Bump_load t] by auto
next
  case (push_call i)
  then show ?thesis using push_call_inv [OF inv push_call(3,4)] by auto
next
  case (push_link i h)
  then show ?thesis using push_link_inv [OF inv push_link(3)] by auto
next
  case (push_cas i h)
  then show ?thesis using push_cas_inv [OF inv push_cas(3,4)] by auto
next
  case (push_again i h)
  then show ?thesis using thread_moves [OF inv, of "Push_link i (pl_head s)" t] by auto
qed

lemma pool_reachable_inv: "pool_reachable s \<Longrightarrow> \<exists>free. pool_inv free s"
  by (induction rule: pool_reachable.induct) (use pool_init_inv pool_inv_step in blast)+

text \<open>C10. The pool of waiter records hands out no slot twice. However any number of threads take and return
  slots, a slot that a pop or the bump allocator hands out is one of the 512, is not handed out
  to anyone and is not being returned, provided that no single pop is overtaken by \<open>2 ^ 54\<close>
  others between its load of the head and its exchange (the generation in the head has 54 bits); and
  the slots in use, being returned or on the free list are together exactly those the bump allocator
  has ever handed out, so that none is lost.\<close>

theorem waiter_pool_exclusive:
  assumes "pool_reachable s" "no_lap s"
  shows "(\<forall>t i s'. pool_step t (Some i) s s' \<longrightarrow> i < waiter_pool_capacity \<and> i \<notin> pl_live s \<and> (\<forall>u. returning (pl_pcs s u) \<noteq> Some i)) \<and>
    (\<exists>free. distinct free \<and> chain (pl_link s) (fl_slot_index (unpack_free_list_head (pl_head s))) free \<and> set free \<inter> pl_live s = {} \<and>
      {..<pl_next s} = set free \<union> pl_live s \<union> {i. \<exists>t. returning (pl_pcs s t) = Some i} \<and> pl_next s \<le> waiter_pool_capacity)"
proof
  obtain free where inv: "pool_inv free s" using pool_reachable_inv [OF assms(1)] by blast
  show "\<forall>t i s'. pool_step t (Some i) s s' \<longrightarrow> i < waiter_pool_capacity \<and> i \<notin> pl_live s \<and> (\<forall>u. returning (pl_pcs s u) \<noteq> Some i)"
    using pool_inv_step [OF _ inv assms(2)] by blast
  from inv_head [OF inv] obtain h where "chain (pl_link s) h free" "fl_slot_index (unpack_free_list_head (pl_head s)) = h" .
  then show "\<exists>free. distinct free \<and> chain (pl_link s) (fl_slot_index (unpack_free_list_head (pl_head s))) free \<and> set free \<inter> pl_live s = {} \<and>
      {..<pl_next s} = set free \<union> pl_live s \<union> {i. \<exists>t. returning (pl_pcs s t) = Some i} \<and> pl_next s \<le> waiter_pool_capacity"
    using pool_invD(1-4) [OF inv] by blast
qed

theorem waiter_pool_exclusive_witness:
  "\<exists>s s'. pool_reachable s \<and> no_lap s \<and> pool_step 0 (Some 0) s s' \<and> 0 \<notin> pl_live s"
proof -
  let ?a = "at_pc 0 Bump_load pool_init"
  let ?b = "at_pc 0 (Bump_cas 0) ?a"
  have empty: "fl_slot_index (unpack_free_list_head (pl_head pool_init)) = free_list_empty_index"
    by (simp add: pool_init_def unpack_pack(1) free_list_empty_index_def)
  then have "pool_step 0 None pool_init ?a" using pop_call [of pool_init 0] by (simp add: head_seen_def pool_init_def)
  moreover have "no_lap pool_init" by (simp add: no_lap_def pool_init_def)
  ultimately have a: "pool_reachable ?a" using pool_start pool_next by blast
  have "pool_step 0 None ?a ?b" using bump_load [of ?a 0] by (simp add: pool_init_def waiter_pool_capacity_def)
  moreover have "no_lap ?a" by (simp add: no_lap_def pool_init_def)
  ultimately have b: "pool_reachable ?b" using a pool_next by blast
  have n: "no_lap ?b" by (simp add: no_lap_def pool_init_def)
  have "\<exists>s'. pool_step 0 (Some 0) ?b s'" using bump_cas [of ?b 0 0] by (auto simp: pool_init_def)
  then show ?thesis using waiter_pool_exclusive [OF b n] b n by blast
qed

end
