(* ===== verification/Spec2Isabelle.thy ===== *)
theory Spec2Isabelle
  imports Fixpp_Decimal Fixpp_Time Fixpp_TagScan Fixpp_LengthData Fixpp_Framer Fixpp_Writer Fixpp_OffsetTable Fixpp_Groups
    Fixpp_FrameHeader Fixpp_Admin Fixpp_SessionGuards Fixpp_MemoryStore Fixpp_FileSafety Fixpp_MutexLock Fixpp_WaiterPool
begin

text \<open>
  fixpp is a C++23 library for the FIX protocol.  This development models its wire layer, the number
  and time types under it, and the parts of its session layer that decide what is sent, accepted,
  stored and replayed, and proves what they promise.  Paths below are relative to the repository's
  sources: \<^verbatim>\<open>include/fixpp/...\<close> and \<^verbatim>\<open>src/...\<close>.

  \<^bold>\<open>The parts and how they interact.\<close>  Bytes of a connection go through the framer, which cuts them into
  frames; the header scanners read the session fields of a frame and the offset table indexes all
  its fields, both splitting Length/Data fields with the help of the pair tables; the session checks
  the sequence number and the sending time, keeps the frame in a message store and answers with
  administrative messages, which are rendered by the message writer and whose values come from the
  decimal and time types.  The stores replay ranges of frames when the peer asks for them.

  \<^bold>\<open>Theories.\<close>

  \<^item> \<open>Fixpp_Prelude\<close>: bytes, digits, wrap-around at 16, 32 and 64 bits, the error codes of
    \<^verbatim>\<open>core/error.hpp\<close> that the modelled code returns and the result type \<open>expected_t\<close>.
  \<^item> \<open>Fixpp_Decimal\<close> (\<^verbatim>\<open>core/decimal.hpp\<close>, \<^verbatim>\<open>core/decimal.cpp\<close>): parsing, printing, comparison with the
    128-bit product done in 64-bit halves, normalisation.  Parsing and printing are exact and inverse;
    the comparison is that of the rational values.
  \<^item> \<open>Fixpp_Time\<close> (\<^verbatim>\<open>core/fix_time.hpp\<close>, \<^verbatim>\<open>core/fix_time.cpp\<close>): UTCTimestamp values and the calendar
    algorithms, with round trips and exact validity.
  \<^item> \<open>Fixpp_TagScan\<close> (\<^verbatim>\<open>wire/tag_scan.hpp\<close>): the digit accumulators every scanner shares.
  \<^item> \<open>Fixpp_LengthData\<close> (\<^verbatim>\<open>core/length_data_pairs.hpp\<close>, \<^verbatim>\<open>wire/length_data_check.hpp\<close>,
    \<^verbatim>\<open>wire/length_data_carry.hpp\<close> and the hooks of \<^verbatim>\<open>wire/dict_hooks.hpp\<close>): the pair tables, the checker
    of outbound fields and the carry of the scanners.
  \<^item> \<open>Fixpp_Framer\<close> (\<^verbatim>\<open>wire/framer.hpp\<close>, \<^verbatim>\<open>wire/framer.cpp\<close>): strict and resynchronising framing over
    chunks of a stream.  What is emitted does not depend on the chunks, no byte is lost or invented,
    and work is bounded.
  \<^item> \<open>Fixpp_Writer\<close> (\<^verbatim>\<open>wire/writer.hpp\<close>, \<^verbatim>\<open>wire/writer.cpp\<close>): the writer over a destination buffer; a
    committed message is exactly the framed fields, and the framer cuts it out of a stream.
  \<^item> \<open>Fixpp_OffsetTable\<close>, \<open>Fixpp_Groups\<close> (\<^verbatim>\<open>wire/offset_table.hpp\<close>, \<^verbatim>\<open>wire/offset_table.cpp\<close>): the index of a frame,
    its hash overlay, repeating groups and the cache of nested tables.
  \<^item> \<open>Fixpp_FrameHeader\<close> (\<^verbatim>\<open>session/scan_frame_header.hpp\<close>, \<^verbatim>\<open>session/scan_first_frame_ids.hpp\<close>): the two header
    scanners, which agree with the table and with each other.
  \<^item> \<open>Fixpp_Admin\<close> (\<^verbatim>\<open>session/admin_messages.cpp\<close>): the builders of the administrative messages and the
    interpretation of a Logon.
  \<^item> \<open>Fixpp_SessionGuards\<close> (\<^verbatim>\<open>session/seqnum_manager.cpp\<close>, \<^verbatim>\<open>session/sending_time.cpp\<close>,
    \<^verbatim>\<open>session/msgtype_classifier.hpp\<close>): counters, the sending-time window, the classes of messages.
  \<^item> \<open>Fixpp_MessageStore\<close> (\<^verbatim>\<open>session/message_store.hpp\<close>): the interface of the stores as the locale
    \<open>message_store\<close>, the log it promises and the walk of a retrieval (locale \<open>snapshot_walk\<close>).
  \<^item> \<open>Fixpp_MemoryStore\<close> (\<^verbatim>\<open>session/memory_store.hpp\<close>): the volatile store refines the log.
  \<^item> \<open>Fixpp_LogFormat\<close>, \<open>Fixpp_FileStore\<close>, \<open>Fixpp_FileSafety\<close> (\<^verbatim>\<open>session/file_store.cpp\<close>,
    \<^verbatim>\<open>session/file_store_factory.cpp\<close>): the persistent store over a file whose every call may fail, stop half way
    or be cut by a crash; what was acknowledged survives.
  \<^item> \<open>Fixpp_AsyncMutex\<close>, \<open>Fixpp_MutexInvariant\<close>, \<open>Fixpp_MutexLock\<close> (\<^verbatim>\<open>core/sync/async_mutex.hpp\<close>): the lock-free
    mutex as a step relation over its atomic operations, its invariant, and what follows: it
    refines a first-come, first-served lock, its records are neither used after they are freed nor
    leaked, \<^verbatim>\<open>unlock\<close> returns, nobody is overtaken, and a drained mutex can be destroyed.  The locale
    \<open>guard_lock\<close> is the contract of a lock for its clients; it is what makes one operation of a store
    or counter one step of its model.
  \<^item> \<open>Fixpp_WaiterPool\<close> (same file): the pool the mutex takes its records from; its generation-tagged
    free list hands out no slot twice.
  \<^item> \<open>Spec2Isabelle\<close>: messages built by one side and read by the other.

  \<^bold>\<open>Conventions.\<close>  A \<^verbatim>\<open>std::byte\<close> is a \<open>char\<close>; a span or string view is the list of its bytes, with an offset
  where the code compares offsets.  \<^verbatim>\<open>size_t\<close> is \<open>nat\<close>; where the code's arithmetic can wrap the
  definitions write \<open>u64\<close>, \<open>u32\<close> or \<open>u16\<close> around it.  A \<^verbatim>\<open>result<T>\<close> is \<open>error + 'a\<close>.  A destination buffer is a
  list that is overwritten.  Loops are structural or have a termination proof; there is no fuel,
  except that the depth of nested groups is bounded by the code's own \<^verbatim>\<open>kMaxGroupDepth\<close>.  A hook of a dictionary, the checksum library,
  the kernel's answers, and whether a mutex is granted are arguments, with what the proofs need of
  them as premises.

  \<^bold>\<open>Not modelled.\<close>  The session's state machine and the engine (\<^verbatim>\<open>session/session.cpp\<close>,
  \<^verbatim>\<open>session/engine.cpp\<close>) are coroutines over strands, timers and user callbacks; of them the message
  formats, the guards, the counters and the stores they call are modelled here, their control flow is
  not.  Dictionary loading and merging (\<^verbatim>\<open>dictionary/*.cpp\<close>) and configuration (\<^verbatim>\<open>config/*.cpp\<close>) walk the
  trees of XML and TOML parsers outside the repository.  Transports and TLS drive sockets and a
  cryptographic library.  Logging and telemetry write to sinks outside the program.  The C and Python
  interfaces forward to the modelled operations.  The tools generate code or check the repository.
\<close>

lemma SOH_dec_digits: "SOH \<notin> set (dec_digits n)"
  by (rule digits_no_SOH(1)) simp

lemma admin_header:
  assumes "h = header_of (framed_fields bs (computed (tl (header_fields bs mtype seq sender time target) @ fs)))"
    and "seq < 2 ^ 32" "\<forall>f \<in> set fs. fst f \<notin> {8, 34, 35, 49, 52, 56}"
  shows "fh_fault h = fault_none \<and> fh_begin_string h = bs \<and> fh_msg_type h = mtype \<and> fh_msg_seq_num h = dec_digits seq \<and>
    fh_sender_comp_id h = sender \<and> fh_target_comp_id h = target \<and> fh_sending_time h = time"
proof -
  have other: "last_value (a @ b) tag = last_value a tag" if "tag \<notin> fst ` set b" for a b and tag :: nat
    using that by (induction b rule: rev_induct) (auto simp flip: append_assoc)
  have "last_value (framed_fields bs (computed (tl (header_fields bs mtype seq sender time target) @ fs))) tag =
      last_value [(8, bs), (9, dec_digits (length (wire_fields (computed (tl (header_fields bs mtype seq sender time target) @ fs))))),
        (35, mtype), (34, dec_digits seq), (49, sender), (52, time), (56, target)] tag" if "tag \<in> {8, 34, 35, 49, 52, 56}" for tag
    unfolding framed_fields_def using that assms(2,3)
    by (subst other [symmetric, of tag "computed fs @ [(10, x)]" for x]) (auto simp: header_fields_def)
  then show ?thesis unfolding assms(1) by (simp add: header_of_members) (simp add: last_value_def)
qed

text \<open>C38. A request for retransmission crosses the wire: the frame \<^verbatim>\<open>build_resend_request\<close> commits is cut
  out of the stream by the peer's framer, whatever bytes follow it, and the peer's header scan
  reads back the message type, the sequence number, both CompIDs, the SendingTime and the
  requested range.\<close>

theorem resend_request_arrives:
  assumes "build_resend_request out seq sender target begin_seqno end_seqno bs time = (ok n, w)"
    and "length out < 2 ^ 32" "length out \<le> max_bytes" "max_bytes < 2 ^ 63"
    and "seq < 2 ^ 32" "begin_seqno < 2 ^ 32" "end_seqno < 2 ^ 32"
    and "SOH \<notin> set bs" "SOH \<notin> set sender" "SOH \<notin> set target" "SOH \<notin> set time"
    and "h = scan_frame_header dict_hooks_none (take n (dst w))"
  shows "(\<exists>boff blen. parse_frame (take n (dst w) @ rest) max_bytes = Complete n boff blen) \<and> fh_fault h = fault_none \<and>
    fh_begin_string h = bs \<and> fh_msg_type h = ''2'' \<and> fh_msg_seq_num h = dec_digits seq \<and> fh_sender_comp_id h = sender \<and>
    fh_target_comp_id h = target \<and> fh_sending_time h = time \<and>
    fh_begin_seqno h = dec_digits begin_seqno \<and> fh_end_seqno h = dec_digits end_seqno"
proof -
  let ?fs = "[(7, number_value begin_seqno), (16, number_value end_seqno)]"
  let ?l = "tl (header_fields bs ''2'' seq sender time target) @ ?fs"
  have b: "build_frame out ((8, ok bs) # ?l) = (ok n, w)"
    using assms(1) by (simp add: build_resend_request_def header_fields_def)
  have s: "sendable dict_hooks_none ((8, ok bs) # ?l)"
    using assms(5-11) by (simp add: sendable_def header_fields_def unpaired_none admin_tags_def SOH_dec_digits)
  have u: "data_tag_for_length dict_hooks_none 9 = 0" "data_tag_for_length dict_hooks_none 10 = 0"
    by (simp_all add: unpaired_none admin_tags_def)
  note a = built_frame_arrives [OF b s assms(2) _ u assms(3,4) assms(12) refl]
  have h: "h = header_of (framed_fields bs (computed ?l))" using a(2) by simp
  have "fh_begin_seqno h = dec_digits begin_seqno" "fh_end_seqno h = dec_digits end_seqno"
    unfolding h header_of_members using assms(5-7) by (simp_all add: framed_fields_def header_fields_def last_value_def)
  moreover have "\<exists>boff blen. parse_frame (take n (dst w) @ rest) max_bytes = Complete n boff blen" by (rule a(1)) simp
  ultimately show ?thesis using admin_header [OF h assms(5)] by simp
qed

abbreviation sample_resend :: "nat expected_t \<times> writer" where
  "sample_resend \<equiv> build_resend_request (replicate 128 (CHR ''x'')) 7 ''S'' ''T'' 3 0 ''FIX.4.4'' ''20240101-00:00:00''"

theorem resend_request_arrives_witness:
  "\<exists>n. fst sample_resend = ok n \<and>
     (\<exists>boff blen. parse_frame (take n (dst (snd sample_resend)) @ ''8=FIX'') 4096 = Complete n boff blen) \<and>
     fh_begin_seqno (scan_frame_header dict_hooks_none (take n (dst (snd sample_resend)))) = ''3''"
proof -
  obtain r w where l: "sample_resend = (r, w)" by fastforce
  let ?l = "header_fields ''FIX.4.4'' ''2'' 7 ''S'' ''20240101-00:00:00'' ''T'' @ [(7, number_value 3), (16, number_value 0)]"
  have len: "length (wire_fields (computed ?l)) \<le> 100"
    by (simp add: header_fields_def wire_field_def dec_digits.simps)
  obtain fs where f: "?l = (8, ok ''FIX.4.4'') # fs" by (simp add: header_fields_def)
  have s: "sendable dict_hooks_none ?l"
    by (simp add: sendable_def header_fields_def unpaired_none admin_tags_def SOH_dec_digits)
  have "length (wire_fields (computed fs)) \<le> 999999"
      "length (wire_field 8 ''FIX.4.4'') + length (wire_fields (computed fs)) + 16 \<le> length (replicate 128 (CHR ''x''))"
    using len unfolding f by simp_all
  from build_frame_fits [OF s [unfolded f] _ this] obtain n where r: "r = ok n"
    using l unfolding build_resend_request_def f by auto
  show ?thesis
    using l r resend_request_arrives [OF l [unfolded r], of 4096 _ "''8=FIX''", OF _ _ _ _ _ _ _ _ _ _ refl]
    by (simp add: dec_digits.simps digit_char_simps)
qed

text \<open>C39. The answer to a retransmission request crosses the wire in the same way: the peer reads the
  SequenceReset that \<^verbatim>\<open>build_sequence_reset_gapfill\<close> commits as a possible duplicate with the
  original SendingTime, in gap-fill mode, with the new sequence number.\<close>

theorem gap_fill_arrives:
  assumes "build_sequence_reset_gapfill out seq sender target new_seqno bs time = (ok n, w)"
    and "length out < 2 ^ 32" "length out \<le> max_bytes" "max_bytes < 2 ^ 63" "seq < 2 ^ 32" "new_seqno < 2 ^ 32"
    and "SOH \<notin> set bs" "SOH \<notin> set sender" "SOH \<notin> set target" "SOH \<notin> set time"
    and "h = scan_frame_header dict_hooks_none (take n (dst w))"
  shows "(\<exists>boff blen. parse_frame (take n (dst w) @ rest) max_bytes = Complete n boff blen) \<and> fh_fault h = fault_none \<and>
    fh_begin_string h = bs \<and> fh_msg_type h = ''4'' \<and> fh_msg_seq_num h = dec_digits seq \<and> fh_sender_comp_id h = sender \<and>
    fh_target_comp_id h = target \<and> fh_sending_time h = time \<and> fh_poss_dup_flag h = ''Y'' \<and> fh_orig_sending_time h = time \<and>
    fh_new_seqno h = dec_digits new_seqno \<and> fh_gap_fill_flag h = ''Y''"
proof -
  let ?fs = "[(43, ok ''Y''), (122, ok time), (36, number_value new_seqno), (123, ok ''Y'')]"
  let ?l = "tl (header_fields bs ''4'' seq sender time target) @ ?fs"
  have b: "build_frame out ((8, ok bs) # ?l) = (ok n, w)"
    using assms(1) by (simp add: build_sequence_reset_gapfill_def header_fields_def)
  have s: "sendable dict_hooks_none ((8, ok bs) # ?l)"
    using assms(5-10) by (simp add: sendable_def header_fields_def unpaired_none admin_tags_def SOH_dec_digits)
  have u: "data_tag_for_length dict_hooks_none 9 = 0" "data_tag_for_length dict_hooks_none 10 = 0"
    by (simp_all add: unpaired_none admin_tags_def)
  note a = built_frame_arrives [OF b s assms(2) _ u assms(3,4) assms(11) refl]
  have h: "h = header_of (framed_fields bs (computed ?l))" using a(2) by simp
  have "fh_poss_dup_flag h = ''Y''" "fh_orig_sending_time h = time" "fh_new_seqno h = dec_digits new_seqno" "fh_gap_fill_flag h = ''Y''"
    unfolding h header_of_members using assms(5,6) by (simp_all add: framed_fields_def header_fields_def last_value_def)
  moreover have "\<exists>boff blen. parse_frame (take n (dst w) @ rest) max_bytes = Complete n boff blen" by (rule a(1)) simp
  ultimately show ?thesis using admin_header [OF h assms(5)] by simp
qed

abbreviation sample_gap_fill :: "nat expected_t \<times> writer" where
  "sample_gap_fill \<equiv> build_sequence_reset_gapfill (replicate 160 (CHR ''x'')) 3 ''S'' ''T'' 9 ''FIX.4.4'' ''20240101-00:00:00''"

theorem gap_fill_arrives_witness:
  "\<exists>n. fst sample_gap_fill = ok n \<and>
     (\<exists>boff blen. parse_frame (take n (dst (snd sample_gap_fill)) @ []) 4096 = Complete n boff blen) \<and>
     fh_new_seqno (scan_frame_header dict_hooks_none (take n (dst (snd sample_gap_fill)))) = ''9''"
proof -
  obtain r w where l: "sample_gap_fill = (r, w)" by fastforce
  let ?l = "header_fields ''FIX.4.4'' ''4'' 3 ''S'' ''20240101-00:00:00'' ''T'' @
    [(43, ok ''Y''), (122, ok ''20240101-00:00:00''), (36, number_value 9), (123, ok ''Y'')]"
  have len: "length (wire_fields (computed ?l)) \<le> 140"
    by (simp add: header_fields_def wire_field_def dec_digits.simps)
  obtain fs where f: "?l = (8, ok ''FIX.4.4'') # fs" by (simp add: header_fields_def)
  have s: "sendable dict_hooks_none ?l"
    by (simp add: sendable_def header_fields_def unpaired_none admin_tags_def SOH_dec_digits)
  have "length (wire_fields (computed fs)) \<le> 999999"
      "length (wire_field 8 ''FIX.4.4'') + length (wire_fields (computed fs)) + 16 \<le> length (replicate 160 (CHR ''x''))"
    using len unfolding f by simp_all
  from build_frame_fits [OF s [unfolded f] _ this] obtain n where r: "r = ok n"
    using l unfolding build_sequence_reset_gapfill_def f by auto
  show ?thesis
    using l r gap_fill_arrives [OF l [unfolded r], of 4096 _ "[]", OF _ _ _ _ _ _ _ _ _ refl]
    by (simp add: dec_digits.simps digit_char_simps)
qed

end
